(* ===== verification/Xv6_Prelude.thy ===== *)
theory Xv6_Prelude
  imports Main "HOL-Library.Word"
begin

text \<open>
  Shared vocabulary of the development: the machine integer types of \<^verbatim>\<open>types.h\<close>, the outcome
  type of a kernel operation (it returns, it gives up the CPU inside \<^verbatim>\<open>sleep\<close>, or it panics), the
  combinators that sequence operations, a small calculus of postconditions over outcomes, and the
  generic lemmas on lists and words that several components use.
\<close>

section \<open>Machine integers\<close>

text \<open>\<^verbatim>\<open>types.h\<close>: \<^verbatim>\<open>uint\<close>, \<^verbatim>\<open>ushort\<close> and \<^verbatim>\<open>uchar\<close>; addresses are 32-bit words as well.\<close>

type_synonym uint = "32 word"
type_synonym ushort = "16 word"
type_synonym uchar = "8 word"
type_synonym addr = "32 word"

text \<open>A C \<^verbatim>\<open>int\<close> is kept as a mathematical integer; where an addition can leave the 32-bit range,
  the model writes the two's complement wrap-around of the target out.\<close>

definition wrap_int :: "int \<Rightarrow> int" where
  "wrap_int x = (x + 2147483648) mod 4294967296 - 2147483648"

lemma wrap_int_range: "- 2147483648 \<le> wrap_int x \<and> wrap_int x < 2147483648"
proof -
  have "0 \<le> (x + 2147483648) mod 4294967296" by simp
  moreover have "(x + 2147483648) mod 4294967296 < 4294967296" by simp
  ultimately show ?thesis unfolding wrap_int_def by linarith
qed

lemma wrap_int_id [simp]:
  "- 2147483648 \<le> x \<Longrightarrow> x < 2147483648 \<Longrightarrow> wrap_int x = x"
  by (simp add: wrap_int_def)

section \<open>Outcomes of kernel operations\<close>

text \<open>
  \<^term>\<open>Ret a s\<close>: the operation returned \<^term>\<open>a\<close> in state \<^term>\<open>s\<close>.
  \<^term>\<open>Sleep s\<close>: the operation called \<^verbatim>\<open>sleep\<close> and the CPU is in the scheduler, in state \<^term>\<open>s\<close>;
  every such call of the sources sits in a loop that is run again when the process is woken.
  \<^term>\<open>Panic m\<close>: the operation called \<^verbatim>\<open>panic(m)\<close>, which stops the machine.
\<close>

datatype ('s, 'a) outcome = Ret 'a 's | Sleep 's | Panic string

type_synonym ('s, 'a) kop = "'s \<Rightarrow> ('s, 'a) outcome"

definition retK :: "'a \<Rightarrow> ('s, 'a) kop" where
  "retK a = (\<lambda>s. Ret a s)"

definition panic :: "string \<Rightarrow> ('s, 'a) kop" where
  "panic m = (\<lambda>s. Panic m)"

definition modifyK :: "('s \<Rightarrow> 's) \<Rightarrow> ('s, unit) kop" where
  "modifyK f = (\<lambda>s. Ret () (f s))"

definition getK :: "('s \<Rightarrow> 'a) \<Rightarrow> ('s, 'a) kop" where
  "getK f = (\<lambda>s. Ret (f s) s)"

definition bindK :: "('s, 'a) kop \<Rightarrow> ('a \<Rightarrow> ('s, 'b) kop) \<Rightarrow> ('s, 'b) kop" where
  "bindK m f = (\<lambda>s. case m s of Ret a s' \<Rightarrow> f a s' | Sleep s' \<Rightarrow> Sleep s' | Panic e \<Rightarrow> Panic e)"

definition seqK :: "('s, 'a) kop \<Rightarrow> ('s, 'b) kop \<Rightarrow> ('s, 'b) kop" where
  "seqK m n = bindK m (\<lambda>_. n)"

definition whenK :: "bool \<Rightarrow> ('s, unit) kop \<Rightarrow> ('s, unit) kop" where
  "whenK b m = (if b then m else retK ())"

text \<open>\<^verbatim>\<open>for\<close> loops over a fixed range of indices.\<close>

primrec forK :: "'i list \<Rightarrow> ('i \<Rightarrow> ('s, unit) kop) \<Rightarrow> ('s, unit) kop" where
  "forK [] body = retK ()"
| "forK (i # is) body = seqK (body i) (forK is body)"

text \<open>\<^verbatim>\<open>for\<close> loops whose body may return from the function.\<close>

primrec searchK :: "'i list \<Rightarrow> ('i \<Rightarrow> ('s, 'a option) kop) \<Rightarrow> ('s, 'a option) kop" where
  "searchK [] body = retK None"
| "searchK (i # is) body = bindK (body i) (\<lambda>r. case r of Some a \<Rightarrow> retK (Some a) | None \<Rightarrow> searchK is body)"

named_theorems kop_simps \<open>evaluation of the combinators on a state\<close>

lemma retK_apply [kop_simps]: "retK a s = Ret a s"
  by (simp add: retK_def)

lemma panic_apply [kop_simps]: "panic m s = Panic m"
  by (simp add: panic_def)

lemma modifyK_apply [kop_simps]: "modifyK f s = Ret () (f s)"
  by (simp add: modifyK_def)

lemma getK_apply [kop_simps]: "getK f s = Ret (f s) s"
  by (simp add: getK_def)

lemma bindK_apply [kop_simps]:
  "bindK m f s = (case m s of Ret a s' \<Rightarrow> f a s' | Sleep s' \<Rightarrow> Sleep s' | Panic e \<Rightarrow> Panic e)"
  by (simp add: bindK_def)

lemma seqK_apply [kop_simps]:
  "seqK m n s = (case m s of Ret a s' \<Rightarrow> n s' | Sleep s' \<Rightarrow> Sleep s' | Panic e \<Rightarrow> Panic e)"
  by (simp add: seqK_def bindK_def)

lemma whenK_apply [kop_simps]: "whenK b m s = (if b then m s else Ret () s)"
  by (simp add: whenK_def retK_def)

section \<open>Postconditions\<close>

text \<open>
  \<^term>\<open>ends E W Q r\<close>: the outcome \<^term>\<open>r\<close> is a return that satisfies \<^term>\<open>Q\<close>, a sleep in a state that
  satisfies \<^term>\<open>W\<close>, or one of the panics in \<^term>\<open>E\<close>. It is a total statement: with
  \<^term>\<open>E = {}\<close> and \<^term>\<open>W = (\<lambda>_. False)\<close> the operation returns.
\<close>

definition ends ::
  "string set \<Rightarrow> ('s \<Rightarrow> bool) \<Rightarrow> ('a \<Rightarrow> 's \<Rightarrow> bool) \<Rightarrow> ('s, 'a) outcome \<Rightarrow> bool" where
  "ends E W Q r = (case r of Ret a s \<Rightarrow> Q a s | Sleep s \<Rightarrow> W s | Panic e \<Rightarrow> e \<in> E)"

lemma ends_simps [simp]:
  "ends E W Q (Ret a s) = Q a s"
  "ends E W Q (Sleep s) = W s"
  "ends E W Q (Panic e) = (e \<in> E)"
  by (simp_all add: ends_def)

lemma ends_bindK:
  assumes "ends E W (\<lambda>a s'. ends E W Q (f a s')) (m s)"
  shows "ends E W Q (bindK m f s)"
  using assms by (cases "m s") (simp_all add: bindK_apply)

lemma ends_seqK:
  assumes "ends E W (\<lambda>_ s'. ends E W Q (n s')) (m s)"
  shows "ends E W Q (seqK m n s)"
  using assms by (cases "m s") (simp_all add: seqK_apply)

lemma ends_weaken:
  assumes "ends E W Q r"
    and "\<And>a s. Q a s \<Longrightarrow> Q' a s"
    and "\<And>s. W s \<Longrightarrow> W' s"
    and "E \<subseteq> E'"
  shows "ends E' W' Q' r"
  using assms by (cases r) auto

lemma ends_RetD: "ends E W Q r \<Longrightarrow> r = Ret a s \<Longrightarrow> Q a s"
  by simp

lemma ends_conj:
  "ends E W (\<lambda>a s. P a s \<and> Q a s) r \<longleftrightarrow> ends E W P r \<and> ends E W Q r"
  by (cases r) auto

lemma ends_RetI: "r = Ret a s \<Longrightarrow> Q a s \<Longrightarrow> ends E W Q r"
  by simp

text \<open>The loop rule: an invariant over the indices already visited.\<close>

lemma ends_forK:
  assumes step: "\<And>i s. i \<in> set is \<Longrightarrow> I s \<Longrightarrow> ends E W (\<lambda>_ s'. I s') (body i s)"
    and start: "I s"
  shows "ends E W (\<lambda>_ s'. I s') (forK is body s)"
  using step start
proof (induction "is" arbitrary: s)
  case Nil
  then show ?case by (simp add: retK_apply)
next
  case (Cons i "is")
  have "ends E W (\<lambda>_ s'. I s') (body i s)"
    using Cons.prems by simp
  then have "ends E W (\<lambda>_ s'. ends E W (\<lambda>_ s'. I s') (forK is body s')) (body i s)"
    by (rule ends_weaken) (use Cons in auto)
  then show ?case by (simp add: ends_seqK)
qed

text \<open>A counting loop that always returns.\<close>

lemma forK_append: "forK (xs @ ys) body s = seqK (forK xs body) (forK ys body) s"
  by (induction xs arbitrary: s) (simp_all add: kop_simps split: outcome.split)

lemma forK_upt_Ret:
  assumes "I 0 s" and "\<And>i t. i < n \<Longrightarrow> I i t \<Longrightarrow> \<exists>u. body i t = Ret () u \<and> I (Suc i) u"
  shows "\<exists>t. forK [0..<n] body s = Ret () t \<and> I n t"
  using assms
proof (induction n)
  case 0
  then show ?case by (simp add: retK_apply)
next
  case (Suc n)
  then obtain t where t: "forK [0..<n] body s = Ret () t" "I n t" by force
  then obtain u where "body n t = Ret () u" "I (Suc n) u" using Suc.prems(2) by blast
  with t show ?case by (auto simp: forK_append kop_simps)
qed

section \<open>Lists\<close>

lemma find_SomeD: "List.find P xs = Some x \<Longrightarrow> P x \<and> x \<in> set xs"
  by (induction xs) (auto split: if_splits)

lemma find_NoneD: "List.find P xs = None \<Longrightarrow> x \<in> set xs \<Longrightarrow> \<not> P x"
  by (induction xs) (auto split: if_splits)

text \<open>A search over an increasing range of indices returns the least index.\<close>

lemma find_upt_Some:
  "List.find P [m..<n] = Some i \<longleftrightarrow> m \<le> i \<and> i < n \<and> P i \<and> (\<forall>j. m \<le> j \<and> j < i \<longrightarrow> \<not> P j)"
proof (induction "n - m" arbitrary: m)
  case 0
  then show ?case by auto
next
  case (Suc k)
  then have mn: "m < n" by simp
  show ?case
  proof (cases "P m")
    case True
    with mn show ?thesis by (auto simp: upt_conv_Cons le_less)
  next
    case False
    have "List.find P [m..<n] = List.find P [Suc m..<n]"
      using mn False by (simp add: upt_conv_Cons)
    moreover have "List.find P [Suc m..<n] = Some i \<longleftrightarrow>
        Suc m \<le> i \<and> i < n \<and> P i \<and> (\<forall>j. Suc m \<le> j \<and> j < i \<longrightarrow> \<not> P j)"
      by (rule Suc.hyps(1)) (use Suc.hyps(2) in simp)
    ultimately show ?thesis
      using False by (metis Suc_leD Suc_leI le_neq_implies_less)
  qed
qed

lemma find_upt_None:
  "List.find P [m..<n] = None \<longleftrightarrow> (\<forall>i. m \<le> i \<and> i < n \<longrightarrow> \<not> P i)"
  by (auto simp: find_None_iff)

section \<open>32-bit words\<close>

lemma unat_of_nat32: "c < 4294967296 \<Longrightarrow> unat (of_nat c :: 32 word) = c"
  by (simp add: unat_of_nat)

lemma unat_lt32: "unat (x :: 32 word) < 4294967296"
  using unsigned_less [of x] by simp

lemma unat_diff32:
  "unat ((x :: 32 word) - y) = (if unat y \<le> unat x then unat x - unat y
                                else unat x + 4294967296 - unat y)"
  using unat_sub_if_size [of x y] by (simp add: word_size)

lemma unat_add32:
  "unat ((x :: 32 word) + y) = (if unat x + unat y < 4294967296 then unat x + unat y
                                else unat x + unat y - 4294967296)"
  using unat_plus_if' [of x y] by simp

lemma of_nat_unat32 [simp]: "(of_nat (unat (x :: 32 word)) :: 32 word) = x"
  by simp

end
