(* ===== verification/Mem_String.thy ===== *)
theory Mem_String
  imports Xv6_Prelude
begin

text \<open>
  Byte-addressed memory and the C string routines (\<^verbatim>\<open>string.c\<close>, and the ones of \<^verbatim>\<open>ulib.c\<close> that user
  programs link). Memory is a function from 32-bit addresses to bytes. Routines that only read take
  their pointers as byte streams: the stream of a pointer \<open>p\<close> in memory \<open>m\<close> is
  \<^verbatim>\<open>p[0], p[1], \<dots>\<close>. Loops bounded by a count recurse on the count; the search for a terminating
  NUL may not end and is a partial function.
\<close>

unbundle bit_operations_syntax

type_synonym mem = "addr \<Rightarrow> uchar"
type_synonym stream = "nat \<Rightarrow> uchar"

definition at :: "mem \<Rightarrow> addr \<Rightarrow> stream" where
  "at m p = (\<lambda>i. m (p + of_nat i))"

section \<open>32-bit loads and stores, little endian\<close>

definition join32 :: "uchar \<Rightarrow> uchar \<Rightarrow> uchar \<Rightarrow> uchar \<Rightarrow> uint" where
  "join32 b0 b1 b2 b3 =
     ucast b0 OR push_bit 8 (ucast b1) OR push_bit 16 (ucast b2) OR push_bit 24 (ucast b3)"

definition byte_of :: "nat \<Rightarrow> uint \<Rightarrow> uchar" where
  "byte_of i v = ucast (drop_bit (8 * i) v)"

lemma bit_join32:
  "bit (join32 b0 b1 b2 b3) n \<longleftrightarrow>
     (if n < 8 then bit b0 n else if n < 16 then bit b1 (n - 8)
      else if n < 24 then bit b2 (n - 16) else n < 32 \<and> bit b3 (n - 24))"
proof -
  consider "n < 8" | "8 \<le> n \<and> n < 16" | "16 \<le> n \<and> n < 24" | "24 \<le> n \<and> n < 32" | "32 \<le> n" by linarith
  moreover have "8 \<le> k \<Longrightarrow> \<not> bit b k" for b :: uchar and k
    using bit_imp_le_length [of b k] by auto
  ultimately show ?thesis by cases (auto simp: join32_def bit_simps)
qed

lemma bit_byte_of: "bit (byte_of i v) n \<longleftrightarrow> n < 8 \<and> bit v (8 * i + n)"
  by (auto simp: byte_of_def bit_simps add.commute)

lemma join32_bytes: "join32 (byte_of 0 v) (byte_of 1 v) (byte_of 2 v) (byte_of 3 v) = v"
proof (rule bit_word_eqI)
  fix n assume "n < LENGTH(32)"
  then show "bit (join32 (byte_of 0 v) (byte_of 1 v) (byte_of 2 v) (byte_of 3 v)) n = bit v n"
    by (auto simp: bit_join32 bit_byte_of)
qed

lemma byte_of_join32:
  "byte_of 0 (join32 b0 b1 b2 b3) = b0" "byte_of (Suc 0) (join32 b0 b1 b2 b3) = b1"
  "byte_of 2 (join32 b0 b1 b2 b3) = b2" "byte_of 3 (join32 b0 b1 b2 b3) = b3"
  by (rule bit_word_eqI; simp add: bit_join32 bit_byte_of)+

definition load32 :: "mem \<Rightarrow> addr \<Rightarrow> uint" where
  "load32 m a = join32 (m a) (m (a + 1)) (m (a + 2)) (m (a + 3))"

definition store32 :: "mem \<Rightarrow> addr \<Rightarrow> uint \<Rightarrow> mem" where
  "store32 m a v =
     m(a := byte_of 0 v, a + 1 := byte_of 1 v, a + 2 := byte_of 2 v, a + 3 := byte_of 3 v)"

lemma word_offsets_distinct [simp]:
  "(a::addr) + 1 \<noteq> a" "a + 2 \<noteq> a" "a + 3 \<noteq> a" "a \<noteq> a + 1" "a \<noteq> a + 2" "a \<noteq> a + 3"
  by simp_all

lemma load32_store32_same [simp]: "load32 (store32 m a v) a = v"
  by (simp add: load32_def store32_def join32_bytes [unfolded One_nat_def])

section \<open>\<^verbatim>\<open>memset\<close>\<close>

text \<open>The string instructions \<^verbatim>\<open>rep stosb\<close> and \<^verbatim>\<open>rep stosl\<close> (\<^verbatim>\<open>x86.h\<close>).\<close>

fun stosb :: "mem \<Rightarrow> addr \<Rightarrow> uchar \<Rightarrow> nat \<Rightarrow> mem" where
  "stosb m a d 0 = m"
| "stosb m a d (Suc k) = stosb (m(a := d)) (a + 1) d k"

fun stosl :: "mem \<Rightarrow> addr \<Rightarrow> uint \<Rightarrow> nat \<Rightarrow> mem" where
  "stosl m a d 0 = m"
| "stosl m a d (Suc k) = stosl (store32 m a d) (a + 4) d k"

definition memset :: "mem \<Rightarrow> addr \<Rightarrow> uint \<Rightarrow> uint \<Rightarrow> mem" where
  "memset m dst c n =
     (if dst mod 4 = 0 \<and> n mod 4 = 0
      then let c = c AND 255 in
           stosl m dst (push_bit 24 c OR push_bit 16 c OR push_bit 8 c OR c) (unat (n div 4))
      else stosb m dst (ucast c) (unat n))"

section \<open>\<^verbatim>\<open>memmove\<close>\<close>

fun copy_up :: "mem \<Rightarrow> addr \<Rightarrow> addr \<Rightarrow> nat \<Rightarrow> mem" where
  "copy_up m d s 0 = m"
| "copy_up m d s (Suc k) = copy_up (m(d := m s)) (d + 1) (s + 1) k"

text \<open>\<^verbatim>\<open>d\<close> and \<^verbatim>\<open>s\<close> point one past the next byte to move.\<close>

fun copy_down :: "mem \<Rightarrow> addr \<Rightarrow> addr \<Rightarrow> nat \<Rightarrow> mem" where
  "copy_down m d s 0 = m"
| "copy_down m d s (Suc k) = copy_down (m(d - 1 := m (s - 1))) (d - 1) (s - 1) k"

definition memmove :: "mem \<Rightarrow> addr \<Rightarrow> addr \<Rightarrow> uint \<Rightarrow> mem" where
  "memmove m dst src n =
     (if src < dst \<and> src + n > dst then copy_down m (dst + n) (src + n) (unat n)
      else copy_up m dst src (unat n))"

text \<open>\<^verbatim>\<open>memcpy\<close> is \<^verbatim>\<open>memmove\<close>; \<^verbatim>\<open>ulib.c\<close> has its own \<^verbatim>\<open>memmove\<close>, which only copies upwards.\<close>

definition memcpy :: "mem \<Rightarrow> addr \<Rightarrow> addr \<Rightarrow> uint \<Rightarrow> mem" where
  "memcpy m dst src n = memmove m dst src n"

definition ulib_memmove :: "mem \<Rightarrow> addr \<Rightarrow> addr \<Rightarrow> int \<Rightarrow> mem" where
  "ulib_memmove m dst src n = copy_up m dst src (nat n)"

section \<open>Comparison and copying of strings\<close>

fun memcmp :: "stream \<Rightarrow> stream \<Rightarrow> nat \<Rightarrow> int" where
  "memcmp p q 0 = 0"
| "memcmp p q (Suc n) =
     (if p 0 \<noteq> q 0 then uint (p 0) - uint (q 0)
      else memcmp (\<lambda>i. p (Suc i)) (\<lambda>i. q (Suc i)) n)"

fun strncmp :: "stream \<Rightarrow> stream \<Rightarrow> nat \<Rightarrow> int" where
  "strncmp p q 0 = 0"
| "strncmp p q (Suc n) =
     (if p 0 \<noteq> 0 \<and> p 0 = q 0 then strncmp (\<lambda>i. p (Suc i)) (\<lambda>i. q (Suc i)) n
      else uint (p 0) - uint (q 0))"

text \<open>\<^verbatim>\<open>strncpy\<close>: the first loop copies up to and including the NUL, the second pads with zeros.\<close>

fun strncpy_pad :: "mem \<Rightarrow> addr \<Rightarrow> nat \<Rightarrow> mem" where
  "strncpy_pad m s 0 = m"
| "strncpy_pad m s (Suc n) = strncpy_pad (m(s := 0)) (s + 1) n"

fun strncpy_loop :: "mem \<Rightarrow> addr \<Rightarrow> addr \<Rightarrow> nat \<Rightarrow> mem" where
  "strncpy_loop m s t 0 = m"
| "strncpy_loop m s t (Suc n) =
     (let m' = m(s := m t) in
      if m t \<noteq> 0 then strncpy_loop m' (s + 1) (t + 1) n else strncpy_pad m' (s + 1) n)"

definition strncpy :: "mem \<Rightarrow> addr \<Rightarrow> addr \<Rightarrow> int \<Rightarrow> mem" where
  "strncpy m s t n = strncpy_loop m s t (nat n)"

text \<open>\<^verbatim>\<open>safestrcpy\<close>: the loop stops one byte early and the last byte written is a NUL.\<close>

fun safestrcpy_loop :: "mem \<Rightarrow> addr \<Rightarrow> addr \<Rightarrow> nat \<Rightarrow> mem" where
  "safestrcpy_loop m s t 0 = m(s := 0)"
| "safestrcpy_loop m s t (Suc n) =
     (let m' = m(s := m t) in
      if m t \<noteq> 0 then safestrcpy_loop m' (s + 1) (t + 1) n else m'(s + 1 := 0))"

definition safestrcpy :: "mem \<Rightarrow> addr \<Rightarrow> addr \<Rightarrow> int \<Rightarrow> mem" where
  "safestrcpy m s t n = (if n \<le> 0 then m else safestrcpy_loop m s t (nat (n - 1)))"

text \<open>\<^verbatim>\<open>strlen\<close> runs until it meets a NUL.\<close>

partial_function (option) strlen_from :: "stream \<Rightarrow> nat \<Rightarrow> nat option" where
  "strlen_from s n = (if s n \<noteq> 0 then strlen_from s (Suc n) else Some n)"

definition strlen :: "stream \<Rightarrow> nat option" where
  "strlen s = strlen_from s 0"

section \<open>Offsets in memory\<close>

text \<open>Loops over memory are described by the offset \<^term>\<open>x - a\<close> of an address from a base, which
  wraps around with the address itself.\<close>

lemma unat_offset_shift:
  "unat ((x::addr) - (a + c)) =
     (if unat c \<le> unat (x - a) then unat (x - a) - unat c
      else unat (x - a) + 4294967296 - unat c)"
  using unat_diff32 [of "x - a" c] by (simp only: diff_diff_eq)

lemma offset_0_iff: "unat ((x::addr) - a) = 0 \<longleftrightarrow> x = a"
  by (simp add: unat_eq_0)

lemma unat_offset_1:
  "unat ((x::addr) - (a + 1)) = (if x = a then 4294967295 else unat (x - a) - 1)"
  using unat_offset_shift [of x a 1] offset_0_iff [of x a] by (cases "x = a") simp_all

lemma unat_offset_4:
  "unat ((x::addr) - (a + 4)) =
     (if 4 \<le> unat (x - a) then unat (x - a) - 4 else unat (x - a) + 4294967292)"
  using unat_offset_shift [of x a 4] by (cases "4 \<le> unat (x - a)") simp_all

lemma offset_eqI: "unat ((x::addr) - a) = c \<Longrightarrow> x = a + of_nat c"
  by (metis add.commute diff_add_cancel of_nat_unat32)

lemma offset_eq_iff:
  "c < 4294967296 \<Longrightarrow> x = a + of_nat c \<longleftrightarrow> unat ((x::addr) - a) = c"
  by (metis add_diff_cancel_left' offset_eqI unat_of_nat32)

lemma store32_apply:
  "store32 m a v x = (if unat (x - a) < 4 then byte_of (unat (x - a)) v else m x)"
proof -
  have e: "x = a \<longleftrightarrow> unat (x - a) = 0" "x = a + 1 \<longleftrightarrow> unat (x - a) = 1"
    "x = a + 2 \<longleftrightarrow> unat (x - a) = 2" "x = a + 3 \<longleftrightarrow> unat (x - a) = 3"
    using offset_eq_iff [of 0 x a] offset_eq_iff [of 1 x a] offset_eq_iff [of 2 x a]
      offset_eq_iff [of 3 x a] by simp_all
  define k where "k = unat (x - a)"
  have "k < 4 \<Longrightarrow> k = 0 \<or> k = 1 \<or> k = 2 \<or> k = 3" by arith
  then show ?thesis unfolding store32_def fun_upd_apply e k_def [symmetric] by auto
qed

lemma stosb_apply:
  "k \<le> 4294967296 \<Longrightarrow> stosb m a d k x = (if unat (x - a) < k then d else m x)"
proof (induction k arbitrary: m a)
  case 0
  then show ?case by simp
next
  case (Suc k)
  then have IH: "stosb (m(a := d)) (a + 1) d k x =
      (if unat (x - (a + 1)) < k then d else (m(a := d)) x)" by simp
  show ?case
  proof (cases "x = a")
    case True
    then show ?thesis using IH Suc.prems by simp
  next
    case False
    then have "0 < unat (x - a)" using offset_0_iff [of x a] by simp
    then show ?thesis using IH False by (auto simp: unat_offset_1)
  qed
qed

lemma stosl_apply:
  "4 * k \<le> 4294967296 \<Longrightarrow>
   stosl m a d k x = (if unat (x - a) < 4 * k then byte_of (unat (x - a) mod 4) d else m x)"
proof (induction k arbitrary: m a)
  case 0
  then show ?case by simp
next
  case (Suc k)
  then have IH: "stosl (store32 m a d) (a + 4) d k x =
      (if unat (x - (a + 4)) < 4 * k then byte_of (unat (x - (a + 4)) mod 4) d
       else store32 m a d x)" by simp
  show ?case
  proof (cases "4 \<le> unat (x - a)")
    case True
    then have "(unat (x - a) - 4) mod 4 = unat (x - a) mod 4" by (simp add: le_mod_geq)
    then show ?thesis using IH True by (auto simp: unat_offset_4 store32_apply)
  next
    case False
    then show ?thesis using IH Suc.prems by (auto simp: unat_offset_4 store32_apply)
  qed
qed

lemma byte_of_fill:
  assumes "i < 4" and "c' = c AND 255"
  shows "byte_of i (push_bit 24 c' OR push_bit 16 c' OR push_bit 8 c' OR c') = ucast c"
proof -
  define b :: uchar where "b = ucast c"
  have m: "(255 :: uint) = mask 8" by (simp add: mask_eq_exp_minus_1)
  have "ucast b = c'"
    unfolding b_def assms(2) m by (rule bit_word_eqI) (auto simp: bit_simps)
  then have "push_bit 24 c' OR push_bit 16 c' OR push_bit 8 c' OR c' = join32 b b b b"
    by (simp add: join32_def ac_simps)
  moreover have "i = 0 \<or> i = Suc 0 \<or> i = 2 \<or> i = 3" using assms(1) by arith
  ultimately show ?thesis unfolding b_def by (auto simp: byte_of_join32)
qed

lemma memset_apply: "memset m dst c n = (\<lambda>x. if x - dst < n then ucast c else m x)"
proof
  fix x
  show "memset m dst c n x = (if x - dst < n then ucast c else m x)"
  proof (cases "dst mod 4 = 0 \<and> n mod 4 = 0")
    case True
    then have "unat n mod 4 = 0" using unat_mod [of n 4] by simp
    then have n: "4 * unat (n div 4) = unat n" using unat_div [of n 4] by (simp add: dvd_eq_mod_eq_0)
    have "4 * unat (n div 4) \<le> 4294967296" using n unat_lt32 [of n] by simp
    moreover define c' where "c' = c AND 255"
    moreover have "memset m dst c n =
        stosl m dst (push_bit 24 c' OR push_bit 16 c' OR push_bit 8 c' OR c') (unat (n div 4))"
      using True by (simp only: memset_def Let_def c'_def simp_thms if_True)
    ultimately show ?thesis
      using byte_of_fill [of "unat (x - dst) mod 4" c' c]
      by (simp add: stosl_apply n word_less_nat_alt)
  next
    case False
    then show ?thesis
      using unat_lt32 [of n] by (auto simp: memset_def stosb_apply word_less_nat_alt)
  qed
qed

section \<open>\<^verbatim>\<open>memmove\<close> on overlapping ranges\<close>

text \<open>Copying upwards is right when the destination does not start inside the source; copying
  downwards when the source does not start inside the destination.\<close>

lemma copy_up_apply:
  assumes "k \<le> 4294967296" and "d = s \<or> k \<le> unat (d - s)"
  shows "copy_up m d s k x = (if unat (x - d) < k then m (s + (x - d)) else m x)"
  using assms
proof (induction k arbitrary: m d s)
  case 0
  then show ?case by simp
next
  case (Suc k)
  have "d + 1 = s + 1 \<or> k \<le> unat ((d + 1) - (s + 1))" using Suc.prems by auto
  then have IH: "copy_up (m(d := m s)) (d + 1) (s + 1) k x =
      (if unat (x - (d + 1)) < k then (m(d := m s)) (s + 1 + (x - (d + 1))) else (m(d := m s)) x)"
    using Suc.prems by (intro Suc.IH) auto
  have e: "s + 1 + (x - (d + 1)) = s + (x - d)" by simp
  have ne: "s + (x - d) = d \<longleftrightarrow> x - d = d - s" by (auto simp: algebra_simps)
  show ?case
  proof (cases "x = d")
    case True
    then show ?thesis using IH Suc.prems(1) by (simp add: unat_offset_1)
  next
    case False
    then have pos: "0 < unat (x - d)" using offset_0_iff [of x d] by simp
    have "unat (x - d) < Suc k \<Longrightarrow> s + (x - d) \<noteq> d \<or> d = s"
      using Suc.prems(2) ne by auto
    then show ?thesis using IH False pos e by (auto simp: unat_offset_1)
  qed
qed

lemma copy_down_apply:
  assumes "k \<le> 4294967296" and "d = s \<or> k \<le> unat (s - d)"
  shows "copy_down m (d + of_nat k) (s + of_nat k) k x =
     (if unat (x - d) < k then m (s + (x - d)) else m x)"
  using assms
proof (induction k arbitrary: m)
  case 0
  then show ?case by simp
next
  case (Suc k)
  let ?m = "m(d + of_nat k := m (s + of_nat k))"
  have IH: "copy_down ?m (d + of_nat k) (s + of_nat k) k x =
      (if unat (x - d) < k then ?m (s + (x - d)) else ?m x)"
    using Suc.prems by (intro Suc.IH) auto
  have k: "x = d + of_nat k \<longleftrightarrow> unat (x - d) = k" using Suc.prems(1) by (intro offset_eq_iff) simp
  have "s + (x - d) = d + of_nat k \<Longrightarrow> unat (x - d) < k \<Longrightarrow> d = s"
  proof -
    assume eq: "s + (x - d) = d + of_nat k" and lt: "unat (x - d) < k"
    define y where "y = x - d"
    have "s - d = of_nat k - y" using eq by (simp add: y_def algebra_simps)
    then have "unat (s - d) = k - unat y"
      using lt Suc.prems(1) unat_diff32 [of "of_nat k" y] by (simp add: y_def [symmetric] unat_of_nat32)
    then show "d = s" using Suc.prems(2) by auto
  qed
  then show ?case using IH k by (auto simp: algebra_simps less_Suc_eq)
qed

text \<open>
  \<^verbatim>\<open>memset\<close> fills exactly the \<open>n\<close> bytes from \<open>dst\<close>, on its word-at-a-time path for aligned
  buffers as on the bytewise path, and leaves every other byte alone.
\<close>

theorem memset_fills: "memset m dst c n = (\<lambda>x. if x - dst < n then ucast c else m x)"
  by (rule memset_apply)

lemma memmove_apply:
  assumes "unat src + unat n < 4294967296" and "unat dst + unat n \<le> 4294967296"
  shows "memmove m dst src n = (\<lambda>x. if x - dst < n then m (src + (x - dst)) else m x)"
proof
  fix x
  show "memmove m dst src n x = (if x - dst < n then m (src + (x - dst)) else m x)"
  proof (cases "src < dst \<and> src + n > dst")
    case True
    then have "unat n \<le> unat (src - dst)"
      using assms by (simp add: unat_diff32 word_less_nat_alt)
    then show ?thesis
      using True copy_down_apply [of "unat n" dst src m x] unat_lt32 [of n]
      by (simp add: memmove_def word_less_nat_alt)
  next
    case False
    then have "dst = src \<or> unat n \<le> unat (dst - src)"
      using assms by (auto simp: unat_diff32 word_less_nat_alt unat_add32 word_unat_eq_iff not_less)
    then show ?thesis
      using False copy_up_apply [of "unat n" dst src m x] unat_lt32 [of n]
      by (auto simp: memmove_def word_less_nat_alt)
  qed
qed

text \<open>
  C38. \<^verbatim>\<open>memmove\<close> moves: for a source and a destination that do not run past the end of the address
  space, afterwards the destination holds what the source held before, however the two ranges
  overlap, and no other byte changes.
\<close>

theorem memmove_moves:
  assumes "unat src + unat n < 4294967296" and "unat dst + unat n \<le> 4294967296"
  shows "memmove m dst src n = (\<lambda>x. if x - dst < n then m (src + (x - dst)) else m x)"
  using assms by (rule memmove_apply)

theorem memmove_moves_witness:
  "unat (4096 :: addr) + unat (4 :: uint) < 4294967296 \<and>
   memmove (\<lambda>x. ucast x) 4098 4096 4 4100 = ucast (4098 :: addr)"
  using memmove_moves [of 4096 4 4098 "\<lambda>x. ucast x"] by simp

section \<open>Strings\<close>

text \<open>The string a pointer denotes, up to a NUL or \<open>n\<close> bytes.\<close>

fun cstr :: "stream \<Rightarrow> nat \<Rightarrow> uchar list" where
  "cstr p 0 = []"
| "cstr p (Suc n) = (if p 0 = 0 then [] else p 0 # cstr (\<lambda>i. p (Suc i)) n)"

lemma strncmp_zero_iff: "strncmp p q n = 0 \<longleftrightarrow> cstr p n = cstr q n"
  by (induction p q n rule: strncmp.induct) (auto simp: word_uint_eq_iff)

lemma strlen_from_iff:
  "n \<le> k \<Longrightarrow> s k = 0 \<Longrightarrow> (\<And>i. n \<le> i \<Longrightarrow> i < k \<Longrightarrow> s i \<noteq> 0) \<Longrightarrow> strlen_from s n = Some k"
proof (induction "k - n" arbitrary: n)
  case 0
  then show ?case by (simp add: strlen_from.simps)
next
  case (Suc d)
  then have "s n \<noteq> 0" and "strlen_from s (Suc n) = Some k" by auto
  then show ?case by (simp add: strlen_from.simps [of s n])
qed

end
