(* ===== verification/Mmu.thy ===== *)
theory Mmu
  imports Mem_String
begin

text \<open>
  The constants and macros of \<^verbatim>\<open>mmu.h\<close>, \<^verbatim>\<open>memlayout.h\<close> and \<^verbatim>\<open>param.h\<close> that the memory components use:
  pages, page rounding, the split of a virtual address into its two table indices, and the fields
  of a page table entry.
\<close>

unbundle bit_operations_syntax

abbreviation (input) "NPROC \<equiv> 64 :: nat"
abbreviation (input) "KSTACKSIZE \<equiv> 4096 :: uint"
abbreviation (input) "NOFILE \<equiv> 16 :: nat"
abbreviation (input) "NFILE \<equiv> 100 :: nat"
abbreviation (input) "NINODE \<equiv> 50 :: nat"
abbreviation (input) "NDEV \<equiv> 10 :: int"
abbreviation (input) "ROOTDEV \<equiv> 1 :: uint"
abbreviation (input) "MAXARG \<equiv> 32 :: nat"
abbreviation (input) "MAXOPBLOCKS \<equiv> 10 :: int"
abbreviation (input) "LOGSIZE \<equiv> 30 :: int"
abbreviation (input) "NBUF \<equiv> 30 :: nat"
abbreviation (input) "NSTRIDE \<equiv> 20000 :: int"

abbreviation (input) "PGSIZE \<equiv> 4096 :: uint"
abbreviation (input) "NPDENTRIES \<equiv> 1024 :: nat"
abbreviation (input) "KERNBASE \<equiv> 0x80000000 :: addr"
abbreviation (input) "EXTMEM \<equiv> 0x100000 :: addr"
abbreviation (input) "KERNLINK \<equiv> 0x80100000 :: addr"
abbreviation (input) "PHYSTOP \<equiv> 0xE000000 :: addr"
abbreviation (input) "DEVSPACE \<equiv> 0xFE000000 :: addr"

definition V2P :: "addr \<Rightarrow> addr" where "V2P a = a - KERNBASE"
definition P2V :: "addr \<Rightarrow> addr" where "P2V a = a + KERNBASE"

definition PGROUNDUP :: "uint \<Rightarrow> uint" where
  "PGROUNDUP sz = (sz + PGSIZE - 1) AND NOT (PGSIZE - 1)"

definition PGROUNDDOWN :: "uint \<Rightarrow> uint" where
  "PGROUNDDOWN a = a AND NOT (PGSIZE - 1)"

definition PDX :: "addr \<Rightarrow> nat" where
  "PDX va = unat (drop_bit 22 va AND 0x3FF)"

definition PTX :: "addr \<Rightarrow> nat" where
  "PTX va = unat (drop_bit 12 va AND 0x3FF)"

definition PGADDR :: "uint \<Rightarrow> uint \<Rightarrow> uint \<Rightarrow> addr" where
  "PGADDR d t o' = (push_bit 22 d OR push_bit 12 t OR o')"

abbreviation (input) "PTE_P \<equiv> 1 :: uint"
abbreviation (input) "PTE_W \<equiv> 2 :: uint"
abbreviation (input) "PTE_U \<equiv> 4 :: uint"

definition PTE_ADDR :: "uint \<Rightarrow> addr" where "PTE_ADDR pte = pte AND NOT 0xFFF"
definition PTE_FLAGS :: "uint \<Rightarrow> uint" where "PTE_FLAGS pte = pte AND 0xFFF"

section \<open>Page arithmetic\<close>

lemma mask12: "(4095 :: uint) = mask 12"
  by (simp add: mask_eq_exp_minus_1)

lemma and_4095: "unat ((a :: uint) AND 4095) = unat a mod 4096"
proof -
  have "a AND 4095 = take_bit 12 a" by (simp add: take_bit_eq_mask mask12)
  then show ?thesis by (simp add: unsigned_take_bit_eq take_bit_nat_def)
qed

lemma and_split: "((a :: uint) AND 4095) + (a AND NOT 4095) = a"
proof -
  have "(a AND 4095) + (a AND NOT 4095) = (a AND 4095) OR (a AND NOT 4095)"
    by (rule disjunctive_add) (auto simp: bit_simps)
  also have "\<dots> = a" by (rule bit_word_eqI) (auto simp: bit_simps)
  finally show ?thesis .
qed

lemma not_4095: "NOT (4095 :: uint) = - 4096"
  by simp

lemma unat_and_page: "unat ((a :: uint) AND - 4096) = unat a div 4096 * 4096"
proof -
  have "a AND - 4096 = a - (a AND 4095)"
    using and_split [of a] unfolding not_4095 by (simp add: algebra_simps)
  then have "unat (a AND - 4096) = unat a - unat a mod 4096"
    using unat_diff32 [of a "a AND 4095"] by (simp add: and_4095)
  then show ?thesis by (simp add: minus_mod_eq_div_mult)
qed

lemma unat_PGROUNDDOWN: "unat (PGROUNDDOWN a) = unat a div 4096 * 4096"
  by (simp add: PGROUNDDOWN_def unat_and_page)

lemma unat_PTE_ADDR: "unat (PTE_ADDR a) = unat a div 4096 * 4096"
  by (simp add: PTE_ADDR_def unat_and_page)

text \<open>Rounding up, where the addition does not wrap.\<close>

lemma unat_PGROUNDUP:
  assumes "unat sz + 4095 < 4294967296"
  shows "unat (PGROUNDUP sz) = (unat sz + 4095) div 4096 * 4096"
proof -
  have "unat (sz + 4095) = unat sz + 4095" using assms by (simp add: unat_add32)
  then show ?thesis using unat_and_page [of "sz + 4095"] by (simp add: PGROUNDUP_def add.commute)
qed

definition page_aligned :: "addr \<Rightarrow> bool" where
  "page_aligned a \<longleftrightarrow> unat a mod 4096 = 0"

lemma page_aligned_ROUNDDOWN [simp]: "page_aligned (PGROUNDDOWN a)"
  by (simp add: page_aligned_def unat_PGROUNDDOWN)

lemma page_aligned_PTE_ADDR [simp]: "page_aligned (PTE_ADDR a)"
  by (simp add: page_aligned_def unat_PTE_ADDR)

lemma page_aligned_mod: "a mod PGSIZE = 0 \<longleftrightarrow> page_aligned a"
  using unat_mod [of a PGSIZE] by (simp add: page_aligned_def word_unat_eq_iff)

text \<open>The bytes of a page: no address lies in two pages.\<close>

definition in_page :: "addr \<Rightarrow> addr \<Rightarrow> bool" where
  "in_page p x \<longleftrightarrow> unat (x - p) < 4096"

lemma in_page_div:
  assumes "page_aligned p" and "in_page p x"
  shows "unat x div 4096 = unat p div 4096"
proof -
  have "unat p + unat (x - p) < 4294967296"
    using assms unat_lt32 [of p] by (auto simp: page_aligned_def in_page_def)
  then have "unat x = unat p + unat (x - p)"
    using unat_add32 [of p "x - p"] by simp
  then show ?thesis using assms by (auto simp: page_aligned_def in_page_def)
qed

lemma in_page_unique:
  assumes "page_aligned p" "page_aligned q" "in_page p x" "in_page q x"
  shows "p = q"
proof -
  have "unat p div 4096 = unat q div 4096" using in_page_div assms by metis
  then have "unat p = unat q" using assms(1,2) unfolding page_aligned_def
    by (metis mult_div_mod_eq)
  then show ?thesis by (simp add: word_unat_eq_iff)
qed

lemma in_page_start [simp]: "in_page p p"
  by (simp add: in_page_def)

end
