(* ===== verification/Spinlock.thy ===== *)
theory Spinlock
  imports Xv6_Prelude
begin

text \<open>
  Spin locks (\<^verbatim>\<open>spinlock.c\<close>) on a machine with several CPUs. The operations are modelled at the
  grain of the instructions that matter for concurrency: the atomic \<^verbatim>\<open>xchg\<close> of \<^verbatim>\<open>acquire\<close>, the
  store that records the holder, the check and the store of \<^verbatim>\<open>release\<close>, and the nesting counter
  of \<^verbatim>\<open>pushcli\<close> and \<^verbatim>\<open>popcli\<close>. Steps of different CPUs interleave freely. In these interleavings a CPU
  is in the code of at most one lock at a time: it does not acquire a second lock inside a critical
  section, so nested locks are covered by the refinement lemma only, where a CPU may hold any set of
  locks. The debugging array
  \<^verbatim>\<open>pcs\<close> and the lock name are not modelled.

  The last part is the view that the sequential components of the kernel use: the set of locks the
  current CPU holds (\<open>kbase\<close>). The refinement lemma shows that on an uncontended lock the detailed
  operations do to the holder fields and to \<^verbatim>\<open>ncli\<close> what the set operations do to the set.
\<close>

section \<open>Locks of the kernel and sleep channels\<close>

text \<open>A sleep lock belongs to a cached buffer or to a cached inode.\<close>

datatype slid = BufSleep nat | InodeSleep nat

text \<open>The spin locks of the kernel, one constructor per \<^verbatim>\<open>struct spinlock\<close> of the sources.\<close>

datatype lockid =
    PtableLock | KmemLock | BcacheLock | IcacheLock | LogLock | FtableLock | TicksLock
  | IdeLock | ConsLock | PipeLock addr | SleepLk slid

text \<open>The addresses processes sleep on.\<close>

datatype chan =
    ChanProc nat | ChanLog | ChanSleeplock slid | ChanBuf nat
  | ChanPipeRead addr | ChanPipeWrite addr | ChanTicks | ChanInput

section \<open>CPU and lock state\<close>

text \<open>The fields of \<^verbatim>\<open>struct cpu\<close> that \<^verbatim>\<open>pushcli\<close> and \<^verbatim>\<open>popcli\<close> use, with the interrupt flag
  \<^verbatim>\<open>FL_IF\<close> of the processor.\<close>

record cpu =
  c_ncli :: int
  c_intena :: bool
  c_if :: bool

record spinlock =
  lk_locked :: bool
  lk_cpu :: "nat option"

record smp =
  s_cpus :: "nat \<Rightarrow> cpu"
  s_locks :: "lockid \<Rightarrow> spinlock"

definition upd_cpu :: "nat \<Rightarrow> (cpu \<Rightarrow> cpu) \<Rightarrow> smp \<Rightarrow> smp" where
  "upd_cpu c f s = s\<lparr>s_cpus := (s_cpus s)(c := f (s_cpus s c))\<rparr>"

definition upd_lock :: "lockid \<Rightarrow> (spinlock \<Rightarrow> spinlock) \<Rightarrow> smp \<Rightarrow> smp" where
  "upd_lock l f s = s\<lparr>s_locks := (s_locks s)(l := f (s_locks s l))\<rparr>"

section \<open>Operations\<close>

definition initlock :: "lockid \<Rightarrow> smp \<Rightarrow> smp" where
  "initlock l = upd_lock l (\<lambda>k. k\<lparr>lk_locked := False, lk_cpu := None\<rparr>)"

definition holding :: "nat \<Rightarrow> lockid \<Rightarrow> smp \<Rightarrow> bool" where
  "holding c l s \<longleftrightarrow> lk_locked (s_locks s l) \<and> lk_cpu (s_locks s l) = Some c"

definition pushcli :: "nat \<Rightarrow> (smp, unit) kop" where
  "pushcli c = (\<lambda>s.
     let eflags = c_if (s_cpus s c) in
     Ret () (upd_cpu c (\<lambda>p.
       (if c_ncli p = 0 then p\<lparr>c_intena := eflags\<rparr> else p)
         \<lparr>c_if := False, c_ncli := c_ncli p + 1\<rparr>) s))"

definition popcli :: "nat \<Rightarrow> (smp, unit) kop" where
  "popcli c = (\<lambda>s.
     let p = s_cpus s c in
     if c_if p then Panic ''popcli - interruptible''
     else if c_ncli p - 1 < 0 then Panic ''popcli''
     else Ret () (upd_cpu c (\<lambda>p.
       p\<lparr>c_ncli := c_ncli p - 1,
         c_if := (if c_ncli p - 1 = 0 \<and> c_intena p then True else c_if p)\<rparr>) s))"

text \<open>\<^verbatim>\<open>acquire\<close> in three parts: up to the loop, one turn of the \<^verbatim>\<open>xchg\<close> loop (\<^verbatim>\<open>xchg\<close> returns
  the old value and always stores 1), and the recording of the holder.\<close>

definition acquire_enter :: "nat \<Rightarrow> lockid \<Rightarrow> (smp, unit) kop" where
  "acquire_enter c l =
     seqK (pushcli c)
       (\<lambda>s. if holding c l s then Panic ''acquire'' else Ret () s)"

definition xchg_locked :: "lockid \<Rightarrow> (smp, bool) kop" where
  "xchg_locked l = (\<lambda>s.
     Ret (lk_locked (s_locks s l)) (upd_lock l (\<lambda>k. k\<lparr>lk_locked := True\<rparr>) s))"

definition acquire_record :: "nat \<Rightarrow> lockid \<Rightarrow> (smp, unit) kop" where
  "acquire_record c l = (\<lambda>s. Ret () (upd_lock l (\<lambda>k. k\<lparr>lk_cpu := Some c\<rparr>) s))"

text \<open>\<^verbatim>\<open>release\<close> in two parts: the check and the clearing of the holder, then the store of 0
  and \<^verbatim>\<open>popcli\<close>.\<close>

definition release_check :: "nat \<Rightarrow> lockid \<Rightarrow> (smp, unit) kop" where
  "release_check c l = (\<lambda>s.
     if \<not> holding c l s then Panic ''release''
     else Ret () (upd_lock l (\<lambda>k. k\<lparr>lk_cpu := None\<rparr>) s))"

definition release_store :: "nat \<Rightarrow> lockid \<Rightarrow> (smp, unit) kop" where
  "release_store c l =
     seqK (\<lambda>s. Ret () (upd_lock l (\<lambda>k. k\<lparr>lk_locked := False\<rparr>) s)) (popcli c)"

text \<open>The whole of \<^verbatim>\<open>acquire\<close> when no other CPU has the lock (the loop runs once; a lock held
  elsewhere makes this CPU spin, which is \<^term>\<open>Sleep s\<close> here) and the whole of \<^verbatim>\<open>release\<close>.\<close>

definition acquire_smp :: "nat \<Rightarrow> lockid \<Rightarrow> (smp, unit) kop" where
  "acquire_smp c l =
     seqK (acquire_enter c l)
       (bindK (xchg_locked l) (\<lambda>old.
          if old then (\<lambda>s. Sleep s) else acquire_record c l))"

definition release_smp :: "nat \<Rightarrow> lockid \<Rightarrow> (smp, unit) kop" where
  "release_smp c l = seqK (release_check c l) (release_store c l)"

lemmas spinlock_defs =
  upd_cpu_def upd_lock_def holding_def pushcli_def popcli_def acquire_enter_def xchg_locked_def
  acquire_record_def release_check_def release_store_def acquire_smp_def release_smp_def

section \<open>Interleaving of several CPUs\<close>

text \<open>Where a CPU is in the code of one lock operation: outside, spinning in the loop of
  \<^verbatim>\<open>acquire\<close>, past the successful \<^verbatim>\<open>xchg\<close>, in the critical section, or between the two stores
  of \<^verbatim>\<open>release\<close>.\<close>

datatype pc = Outside | Spinning lockid | Won lockid | Critical lockid | Leaving lockid

type_synonym config = "(nat \<Rightarrow> pc) \<times> smp"

inductive smp_step :: "config \<Rightarrow> config \<Rightarrow> bool" where
  enter: "pcs c = Outside \<Longrightarrow> acquire_enter c l s = Ret () s' \<Longrightarrow>
     smp_step (pcs, s) (pcs(c := Spinning l), s')"
| spin: "pcs c = Spinning l \<Longrightarrow> xchg_locked l s = Ret True s' \<Longrightarrow>
     smp_step (pcs, s) (pcs, s')"
| win: "pcs c = Spinning l \<Longrightarrow> xchg_locked l s = Ret False s' \<Longrightarrow>
     smp_step (pcs, s) (pcs(c := Won l), s')"
| owned: "pcs c = Won l \<Longrightarrow> acquire_record c l s = Ret () s' \<Longrightarrow>
     smp_step (pcs, s) (pcs(c := Critical l), s')"
| leave: "pcs c = Critical l \<Longrightarrow> release_check c l s = Ret () s' \<Longrightarrow>
     smp_step (pcs, s) (pcs(c := Leaving l), s')"
| finish: "pcs c = Leaving l \<Longrightarrow> release_store c l s = Ret () s' \<Longrightarrow>
     smp_step (pcs, s) (pcs(c := Outside), s')"

definition smp_init :: smp where
  "smp_init = \<lparr>s_cpus = (\<lambda>_. \<lparr>c_ncli = 0, c_intena = False, c_if = True\<rparr>),
               s_locks = (\<lambda>_. \<lparr>lk_locked = False, lk_cpu = None\<rparr>)\<rparr>"

inductive smp_reach :: "config \<Rightarrow> bool" where
  start: "smp_reach (\<lambda>_. Outside, smp_init)"
| step: "smp_reach a \<Longrightarrow> smp_step a b \<Longrightarrow> smp_reach b"

definition owns :: "pc \<Rightarrow> lockid \<Rightarrow> bool" where
  "owns p l \<longleftrightarrow> p = Won l \<or> p = Critical l \<or> p = Leaving l"

text \<open>What the two fields of a lock say about where the CPUs are: a free lock has no owner, a
  taken one has exactly one, and \<^verbatim>\<open>cpu\<close> names the owner exactly in its critical section.\<close>

definition lock_ok :: "(nat \<Rightarrow> pc) \<Rightarrow> spinlock \<Rightarrow> lockid \<Rightarrow> bool" where
  "lock_ok pcs k l \<longleftrightarrow>
     (if lk_locked k
      then (\<exists>c. owns (pcs c) l \<and> (\<forall>d. d \<noteq> c \<longrightarrow> \<not> owns (pcs d) l) \<and>
                lk_cpu k = (if pcs c = Critical l then Some c else None))
      else (\<forall>c. \<not> owns (pcs c) l) \<and> lk_cpu k = None)"

definition lock_inv :: "config \<Rightarrow> bool" where
  "lock_inv cf \<longleftrightarrow> (\<forall>l. lock_ok (fst cf) (s_locks (snd cf) l) l)"

definition cli_inv :: "config \<Rightarrow> bool" where
  "cli_inv cf \<longleftrightarrow> (\<forall>c. c_ncli (s_cpus (snd cf) c) = (if fst cf c = Outside then 0 else 1) \<and>
     (fst cf c \<noteq> Outside \<longrightarrow> \<not> c_if (s_cpus (snd cf) c)))"

lemma owns_simps [simp]:
  "\<not> owns Outside l" "\<not> owns (Spinning k) l"
  "owns (Won k) l = (k = l)" "owns (Critical k) l = (k = l)" "owns (Leaving k) l = (k = l)"
  by (auto simp: owns_def)


lemma acquire_enter_Ret:
  assumes "acquire_enter c l s = Ret () s'"
  shows "s_locks s' = s_locks s"
    and "\<not> holding c l s"
    and "s_cpus s' = (s_cpus s)(c := s_cpus s' c)"
    and "c_ncli (s_cpus s' c) = c_ncli (s_cpus s c) + 1"
    and "\<not> c_if (s_cpus s' c)"
  using assms by (auto simp: spinlock_defs kop_simps Let_def split: if_splits)

lemma xchg_locked_Ret:
  assumes "xchg_locked l s = Ret b s'"
  shows "s_cpus s' = s_cpus s"
    and "b = lk_locked (s_locks s l)"
    and "s_locks s' = (s_locks s)(l := (s_locks s l)\<lparr>lk_locked := True\<rparr>)"
  using assms by (auto simp: spinlock_defs)

lemma acquire_record_Ret:
  assumes "acquire_record c l s = Ret () s'"
  shows "s_cpus s' = s_cpus s"
    and "s_locks s' = (s_locks s)(l := (s_locks s l)\<lparr>lk_cpu := Some c\<rparr>)"
  using assms by (auto simp: spinlock_defs)

lemma release_check_Ret:
  assumes "release_check c l s = Ret () s'"
  shows "holding c l s"
    and "s_cpus s' = s_cpus s"
    and "s_locks s' = (s_locks s)(l := (s_locks s l)\<lparr>lk_cpu := None\<rparr>)"
  using assms by (auto simp: spinlock_defs split: if_splits)

lemma release_store_Ret:
  assumes "release_store c l s = Ret () s'"
  shows "s_locks s' = (s_locks s)(l := (s_locks s l)\<lparr>lk_locked := False\<rparr>)"
    and "s_cpus s' = (s_cpus s)(c := s_cpus s' c)"
    and "c_ncli (s_cpus s' c) = c_ncli (s_cpus s c) - 1"
  using assms by (auto simp: spinlock_defs kop_simps Let_def split: if_splits)

lemmas spinlock_Ret =
  acquire_enter_Ret xchg_locked_Ret acquire_record_Ret release_check_Ret release_store_Ret

text \<open>A step of CPU \<open>c\<close> about lock \<open>l\<close> says nothing about another lock.\<close>

lemma lock_ok_cong:
  assumes "\<And>d. owns (pcs' d) m = owns (pcs d) m"
    and "\<And>d. (pcs' d = Critical m) = (pcs d = Critical m)"
  shows "lock_ok pcs' k m = lock_ok pcs k m"
  using assms by (simp add: lock_ok_def)

lemma lock_ok_enter:
  "pcs c = Outside \<Longrightarrow> lock_ok (pcs(c := Spinning l)) k m = lock_ok pcs k m"
  by (rule lock_ok_cong) auto

lemma lock_ok_other:
  assumes "m \<noteq> l" and "pcs c \<in> {Outside, Spinning l, Won l, Critical l, Leaving l}"
    and "p \<in> {Outside, Spinning l, Won l, Critical l, Leaving l}"
  shows "lock_ok (pcs(c := p)) k m = lock_ok pcs k m"
  by (rule lock_ok_cong) (use assms in auto)

lemma lock_ok_win:
  "\<not> lk_locked k \<Longrightarrow> lock_ok pcs k l \<Longrightarrow> lock_ok (pcs(c := Won l)) (k\<lparr>lk_locked := True\<rparr>) l"
  by (auto simp: lock_ok_def)

lemma lock_ok_owner:
  assumes "lock_ok pcs k l" and "owns (pcs c) l"
  shows "lk_locked k" and "d \<noteq> c \<Longrightarrow> \<not> owns (pcs d) l"
    and "lk_cpu k = (if pcs c = Critical l then Some c else None)"
  using assms unfolding lock_ok_def by (metis)+

lemma lock_ok_owned:
  assumes "lock_ok pcs k l" and "pcs c = Won l"
  shows "lock_ok (pcs(c := Critical l)) (k\<lparr>lk_cpu := Some c\<rparr>) l"
  using lock_ok_owner [OF assms(1), of c] assms(2) by (auto simp: lock_ok_def)

lemma lock_ok_leave:
  assumes "lock_ok pcs k l" and "pcs c = Critical l"
  shows "lock_ok (pcs(c := Leaving l)) (k\<lparr>lk_cpu := None\<rparr>) l"
  using lock_ok_owner [OF assms(1), of c] assms(2) by (auto simp: lock_ok_def)

lemma lock_ok_finish:
  assumes "lock_ok pcs k l" and "pcs c = Leaving l"
  shows "lock_ok (pcs(c := Outside)) (k\<lparr>lk_locked := False\<rparr>) l"
  using lock_ok_owner [OF assms(1), of c] assms(2) by (auto simp: lock_ok_def)

lemma lock_inv_upd:
  assumes "lock_inv (pcs, s)"
    and "pcs c \<in> {Outside, Spinning l, Won l, Critical l, Leaving l}"
    and "p \<in> {Outside, Spinning l, Won l, Critical l, Leaving l}"
    and "s_locks s' = (s_locks s)(l := k)"
    and "lock_ok (pcs(c := p)) k l"
  shows "lock_inv (pcs(c := p), s')"
  unfolding lock_inv_def
proof
  fix m
  show "lock_ok (fst (pcs(c := p), s')) (s_locks (snd (pcs(c := p), s')) m) m"
    using assms lock_ok_other [of m l pcs c p] by (cases "m = l") (simp_all add: lock_inv_def)
qed

lemma lock_invD: "lock_inv (pcs, s) \<Longrightarrow> lock_ok pcs (s_locks s l) l"
  by (simp add: lock_inv_def)

lemma smp_step_lock_inv:
  assumes "smp_step a b" and "lock_inv a"
  shows "lock_inv b"
  using assms
proof (induction rule: smp_step.induct)
  case (enter pcs c l s s')
  with acquire_enter_Ret [OF enter(2)] show ?case
    by (simp add: lock_inv_def lock_ok_enter)
next
  case (spin pcs c l s s')
  note r = xchg_locked_Ret [OF spin(2)]
  have "s_locks s' = s_locks s" using r(2,3) by (auto simp: fun_eq_iff)
  with spin show ?case by (simp add: lock_inv_def)
next
  case (win pcs c l s s')
  note r = xchg_locked_Ret [OF win(2)]
  show ?case
    by (rule lock_inv_upd [OF win(3) _ _ r(3)])
      (use win(1) r(2) lock_ok_win [OF _ lock_invD [OF win(3)]] in simp_all)
next
  case (owned pcs c l s s')
  show ?case
    by (rule lock_inv_upd [OF owned(3) _ _ acquire_record_Ret(2) [OF owned(2)]])
      (use owned(1) lock_ok_owned [OF lock_invD [OF owned(3)]] in simp_all)
next
  case (leave pcs c l s s')
  show ?case
    by (rule lock_inv_upd [OF leave(3) _ _ release_check_Ret(3) [OF leave(2)]])
      (use leave(1) lock_ok_leave [OF lock_invD [OF leave(3)]] in simp_all)
next
  case (finish pcs c l s s')
  show ?case
    by (rule lock_inv_upd [OF finish(3) _ _ release_store_Ret(1) [OF finish(2)]])
      (use finish(1) lock_ok_finish [OF lock_invD [OF finish(3)]] in simp_all)
qed

lemma smp_reach_lock_inv: "smp_reach a \<Longrightarrow> lock_inv a"
proof (induction rule: smp_reach.induct)
  case start
  show ?case by (simp add: lock_inv_def lock_ok_def smp_init_def)
next
  case (step a b)
  then show ?case by (blast intro: smp_step_lock_inv)
qed

lemma cli_inv_upd:
  assumes "cli_inv (pcs, s)"
    and "s_cpus s' = (s_cpus s)(c := s_cpus s' c)"
    and "c_ncli (s_cpus s' c) = (if p = Outside then 0 else 1)"
    and "p \<noteq> Outside \<Longrightarrow> \<not> c_if (s_cpus s' c)"
  shows "cli_inv (pcs(c := p), s')"
  unfolding cli_inv_def
proof
  fix d
  have "d \<noteq> c \<Longrightarrow> s_cpus s' d = s_cpus s d" using assms(2) by (metis fun_upd_apply)
  then show "c_ncli (s_cpus (snd (pcs(c := p), s')) d) =
      (if fst (pcs(c := p), s') d = Outside then 0 else 1) \<and>
      (fst (pcs(c := p), s') d \<noteq> Outside \<longrightarrow> \<not> c_if (s_cpus (snd (pcs(c := p), s')) d))"
    using assms(1,3,4) by (cases "d = c") (simp_all add: cli_inv_def)
qed

lemma cli_inv_same_cpus:
  assumes "cli_inv (pcs, s)" and "pcs c \<noteq> Outside" and "p \<noteq> Outside" and "s_cpus s' = s_cpus s"
  shows "cli_inv (pcs(c := p), s')"
  using assms by (intro cli_inv_upd) (auto simp: cli_inv_def)

lemma smp_step_cli_inv:
  assumes "smp_step a b" and "cli_inv a"
  shows "cli_inv b"
  using assms
proof (induction rule: smp_step.induct)
  case (enter pcs c l s s')
  note r = acquire_enter_Ret [OF enter(2)]
  have "c_ncli (s_cpus s c) = 0" using enter(1,3) by (simp add: cli_inv_def)
  then show ?case using r by (intro cli_inv_upd [OF enter(3) r(3)]) auto
next
  case (spin pcs c l s s')
  with xchg_locked_Ret(1) [OF spin(2)] show ?case by (simp add: cli_inv_def)
next
  case (win pcs c l s s')
  with xchg_locked_Ret(1) [OF win(2)] show ?case by (intro cli_inv_same_cpus) auto
next
  case (owned pcs c l s s')
  with acquire_record_Ret(1) [OF owned(2)] show ?case by (intro cli_inv_same_cpus) auto
next
  case (leave pcs c l s s')
  with release_check_Ret(2) [OF leave(2)] show ?case by (intro cli_inv_same_cpus) auto
next
  case (finish pcs c l s s')
  note r = release_store_Ret [OF finish(2)]
  have "c_ncli (s_cpus s c) = 1" using finish(1,3) by (simp add: cli_inv_def)
  then show ?case using r by (intro cli_inv_upd [OF finish(3) r(2)]) auto
qed

lemma smp_reach_cli_inv: "smp_reach a \<Longrightarrow> cli_inv a"
proof (induction rule: smp_reach.induct)
  case start
  show ?case by (simp add: cli_inv_def smp_init_def)
next
  case (step a b)
  then show ?case by (blast intro: smp_step_cli_inv)
qed

section \<open>The view of one CPU: the set of locks it holds\<close>

text \<open>The sequential components run on one CPU and keep the set of locks it holds.\<close>

record kbase =
  k_held :: "lockid set"

definition acquire :: "lockid \<Rightarrow> ('z kbase_scheme, unit) kop" where
  "acquire l = (\<lambda>s. if l \<in> k_held s then Panic ''acquire''
                    else Ret () (s\<lparr>k_held := insert l (k_held s)\<rparr>))"

definition release :: "lockid \<Rightarrow> ('z kbase_scheme, unit) kop" where
  "release l = (\<lambda>s. if l \<notin> k_held s then Panic ''release''
                    else Ret () (s\<lparr>k_held := k_held s - {l}\<rparr>))"

lemma acquire_Ret [simp]:
  "l \<notin> k_held s \<Longrightarrow> acquire l s = Ret () (s\<lparr>k_held := insert l (k_held s)\<rparr>)"
  by (simp add: acquire_def)

lemma release_Ret [simp]:
  "l \<in> k_held s \<Longrightarrow> release l s = Ret () (s\<lparr>k_held := k_held s - {l}\<rparr>)"
  by (simp add: release_def)

text \<open>The CPU \<open>c\<close> of the detailed state holds exactly the locks \<open>H\<close>, its nesting counter counts
  them, and interrupts are off while it holds one.\<close>

definition cpu_view :: "nat \<Rightarrow> smp \<Rightarrow> lockid set \<Rightarrow> bool" where
  "cpu_view c s H \<longleftrightarrow> finite H \<and> (\<forall>l. l \<in> H \<longleftrightarrow> holding c l s) \<and>
     c_ncli (s_cpus s c) = int (card H) \<and> (H \<noteq> {} \<longrightarrow> \<not> c_if (s_cpus s c)) \<and>
     (\<forall>l. lk_cpu (s_locks s l) = Some c \<longrightarrow> lk_locked (s_locks s l))"

lemma acquire_smp_free:
  assumes "\<not> lk_locked (s_locks s l)"
  shows "\<exists>s'. acquire_smp c l s = Ret () s' \<and>
    s_locks s' = (s_locks s)(l := (s_locks s l)\<lparr>lk_locked := True, lk_cpu := Some c\<rparr>) \<and>
    s_cpus s' = (s_cpus s)(c := s_cpus s' c) \<and>
    c_ncli (s_cpus s' c) = c_ncli (s_cpus s c) + 1 \<and> \<not> c_if (s_cpus s' c) \<and>
    c_intena (s_cpus s' c) =
      (if c_ncli (s_cpus s c) = 0 then c_if (s_cpus s c) else c_intena (s_cpus s c))"
  using assms by (auto simp: spinlock_defs kop_simps Let_def)

lemma acquire_smp_held: "holding c l s \<Longrightarrow> acquire_smp c l s = Panic ''acquire''"
  by (auto simp: spinlock_defs kop_simps Let_def)

lemma release_smp_held:
  assumes "holding c l s" and "\<not> c_if (s_cpus s c)" and "1 \<le> c_ncli (s_cpus s c)"
  shows "\<exists>s'. release_smp c l s = Ret () s' \<and>
    s_locks s' = (s_locks s)(l := (s_locks s l)\<lparr>lk_locked := False, lk_cpu := None\<rparr>) \<and>
    s_cpus s' = (s_cpus s)(c := s_cpus s' c) \<and>
    c_ncli (s_cpus s' c) = c_ncli (s_cpus s c) - 1 \<and>
    c_intena (s_cpus s' c) = c_intena (s_cpus s c) \<and>
    c_if (s_cpus s' c) = (c_ncli (s_cpus s c) = 1 \<and> c_intena (s_cpus s c))"
  using assms by (auto simp: spinlock_defs kop_simps Let_def)

lemma release_smp_not_held: "\<not> holding c l s \<Longrightarrow> release_smp c l s = Panic ''release''"
  by (simp add: release_smp_def release_check_def kop_simps)

lemma cpu_view_acquire:
  assumes view: "cpu_view c s H" and free: "\<not> lk_locked (s_locks s l)"
    and post: "s_locks s' = (s_locks s)(l := (s_locks s l)\<lparr>lk_locked := True, lk_cpu := Some c\<rparr>)"
      "c_ncli (s_cpus s' c) = c_ncli (s_cpus s c) + 1" "\<not> c_if (s_cpus s' c)"
  shows "cpu_view c s' (insert l H)"
proof -
  have "l \<notin> H" using view free by (simp add: cpu_view_def holding_def)
  moreover have "\<forall>m. m \<in> insert l H \<longleftrightarrow> holding c m s'"
    using view post(1) by (simp add: cpu_view_def holding_def)
  ultimately show ?thesis using view post by (simp add: cpu_view_def)
qed

lemma cpu_view_release:
  assumes view: "cpu_view c s H" and held: "l \<in> H"
    and post: "s_locks s' = (s_locks s)(l := (s_locks s l)\<lparr>lk_locked := False, lk_cpu := None\<rparr>)"
      "c_ncli (s_cpus s' c) = c_ncli (s_cpus s c) - 1"
      "c_if (s_cpus s' c) = (c_ncli (s_cpus s c) = 1 \<and> c_intena (s_cpus s c))"
  shows "cpu_view c s' (H - {l})"
proof -
  have fin: "finite H" and card: "c_ncli (s_cpus s c) = int (card H)"
    using view by (auto simp: cpu_view_def)
  have cardD: "card (H - {l}) + 1 = card H"
    using fin held by (metis Suc_eq_plus1 card_Suc_Diff1)
  have "\<forall>m. m \<in> H - {l} \<longleftrightarrow> holding c m s'"
    using view post(1) by (simp add: cpu_view_def holding_def)
  moreover have "c_ncli (s_cpus s' c) = int (card (H - {l}))"
    using post(2) card cardD by linarith
  moreover have "H - {l} \<noteq> {} \<longrightarrow> \<not> c_if (s_cpus s' c)"
  proof
    assume "H - {l} \<noteq> {}"
    then have "0 < card (H - {l})" using fin by (simp add: card_gt_0_iff)
    then show "\<not> c_if (s_cpus s' c)" using post(3) card cardD by simp
  qed
  ultimately show ?thesis using view post(1) fin by (simp add: cpu_view_def)
qed

text \<open>
  C4. Spin locks exclude: in every state that any interleaving of \<^verbatim>\<open>acquire\<close> and \<^verbatim>\<open>release\<close> on any
  number of CPUs can reach, where each CPU is in the code of at most one lock at a time, two CPUs that are both inside the critical section of a lock are the
  same CPU, the lock word is set and its holder field names that CPU, and interrupts are off
  there.
\<close>

theorem spinlock_mutual_exclusion:
  assumes "smp_reach (pcs, s)" and "pcs c = Critical l" and "pcs d = Critical l"
  shows "c = d \<and> holding c l s \<and> \<not> c_if (s_cpus s c)"
proof -
  have ok: "lock_ok pcs (s_locks s l) l" and cli: "cli_inv (pcs, s)"
    using smp_reach_lock_inv [OF assms(1)] smp_reach_cli_inv [OF assms(1)] lock_invD by blast+
  note own = lock_ok_owner [OF ok, of c]
  have "c = d" using own(2) [of d] assms(2,3) by auto
  moreover have "holding c l s" using own(1,3) assms(2) by (simp add: holding_def)
  moreover have "\<not> c_if (s_cpus s c)" using cli assms(2) by (simp add: cli_inv_def)
  ultimately show ?thesis by blast
qed

theorem spinlock_mutual_exclusion_witness:
  "\<exists>pcs s. smp_reach (pcs, s) \<and> pcs 3 = Critical KmemLock \<and> pcs 2 = Spinning KmemLock \<and>
     holding 3 KmemLock s \<and> \<not> c_if (s_cpus s 3)"
proof -
  obtain s1 where s1: "acquire_enter 3 KmemLock smp_init = Ret () s1"
    by (auto simp: spinlock_defs kop_simps Let_def smp_init_def)
  let ?p0 = "\<lambda>_. Outside" and ?p1 = "(\<lambda>_. Outside)(3 := Spinning KmemLock)"
  have r1: "smp_reach (?p1, s1)"
    by (rule smp_reach.step [OF smp_reach.start], rule smp_step.enter) (simp_all add: s1)
  have l1: "s_locks s1 = s_locks smp_init" by (rule acquire_enter_Ret [OF s1])
  obtain s2 where s2: "xchg_locked KmemLock s1 = Ret False s2"
    using l1 by (simp add: xchg_locked_def smp_init_def)
  have r2: "smp_reach (?p1(3 := Won KmemLock), s2)"
    by (rule smp_reach.step [OF r1], rule smp_step.win) (simp_all add: s2)
  obtain s3 where s3: "acquire_record 3 KmemLock s2 = Ret () s3"
    by (simp add: acquire_record_def)
  let ?p3 = "?p1(3 := Won KmemLock, 3 := Critical KmemLock)"
  have r3: "smp_reach (?p3, s3)"
    by (rule smp_reach.step [OF r2], rule smp_step.owned) (simp_all add: s3)
  have "\<not> holding 2 KmemLock s3" using acquire_record_Ret(2) [OF s3] by (simp add: holding_def)
  then obtain s4 where s4: "acquire_enter 2 KmemLock s3 = Ret () s4"
    by (auto simp: spinlock_defs kop_simps Let_def)
  have r4: "smp_reach (?p3(2 := Spinning KmemLock), s4)"
    by (rule smp_reach.step [OF r3], rule smp_step.enter) (simp_all add: s4)
  show ?thesis
    using r4 spinlock_mutual_exclusion [OF r4, of 3 KmemLock 3]
    by (intro exI [of _ "?p3(2 := Spinning KmemLock)"] exI [of _ s4]) simp
qed

text \<open>
  C25. The set of held locks is a faithful view of the lock words: on a CPU whose view is a set,
  \<^verbatim>\<open>acquire\<close> of a lock no other CPU holds and \<^verbatim>\<open>release\<close> return exactly when the set operations do,
  panic with the same message when those panic, and keep the view, so that the nesting counter
  \<^verbatim>\<open>ncli\<close> is the number of locks held.
\<close>

theorem spinlock_refines_held_set:
  assumes view: "cpu_view c s (k_held k)"
    and uncontended: "lk_locked (s_locks s l) \<longrightarrow> holding c l s"
  shows "(if l \<in> k_held k
          then acquire l k = Panic ''acquire'' \<and> acquire_smp c l s = Panic ''acquire''
          else \<exists>s' k'. acquire l k = Ret () k' \<and> acquire_smp c l s = Ret () s' \<and>
                       cpu_view c s' (k_held k')) \<and>
         (if l \<in> k_held k
          then \<exists>s' k'. release l k = Ret () k' \<and> release_smp c l s = Ret () s' \<and>
                       cpu_view c s' (k_held k')
          else release l k = Panic ''release'' \<and> release_smp c l s = Panic ''release'')"
proof (cases "l \<in> k_held k")
  case True
  with view have held: "holding c l s" by (simp add: cpu_view_def)
  have "1 \<le> c_ncli (s_cpus s c)" and "\<not> c_if (s_cpus s c)"
    using view True by (auto simp: cpu_view_def Suc_le_eq card_gt_0_iff)
  with release_smp_held [OF held] obtain s' where s': "release_smp c l s = Ret () s'"
      "s_locks s' = (s_locks s)(l := (s_locks s l)\<lparr>lk_locked := False, lk_cpu := None\<rparr>)"
      "c_ncli (s_cpus s' c) = c_ncli (s_cpus s c) - 1"
      "c_if (s_cpus s' c) = (c_ncli (s_cpus s c) = 1 \<and> c_intena (s_cpus s c))" by blast
  have "cpu_view c s' (k_held k - {l})" by (rule cpu_view_release [OF view True s'(2-4)])
  then show ?thesis using True s'(1) acquire_smp_held [OF held] by (simp add: acquire_def)
next
  case False
  with view have nh: "\<not> holding c l s" by (simp add: cpu_view_def)
  with uncontended have free: "\<not> lk_locked (s_locks s l)" by blast
  from acquire_smp_free [OF this] obtain s' where s': "acquire_smp c l s = Ret () s'"
      "s_locks s' = (s_locks s)(l := (s_locks s l)\<lparr>lk_locked := True, lk_cpu := Some c\<rparr>)"
      "c_ncli (s_cpus s' c) = c_ncli (s_cpus s c) + 1" "\<not> c_if (s_cpus s' c)" by blast
  have "cpu_view c s' (insert l (k_held k))" by (rule cpu_view_acquire [OF view free s'(2-4)])
  then show ?thesis using False s'(1) release_smp_not_held [OF nh] by (simp add: release_def)
qed

theorem spinlock_refines_held_set_witness:
  "cpu_view 0 smp_init (k_held \<lparr>k_held = {}\<rparr>) \<and>
   (\<exists>s' k'. acquire KmemLock \<lparr>k_held = {}\<rparr> = Ret () k' \<and>
      acquire_smp 0 KmemLock smp_init = Ret () s' \<and> cpu_view 0 s' (k_held k'))"
proof -
  have v: "cpu_view 0 smp_init (k_held \<lparr>k_held = {}\<rparr>)"
    by (simp add: cpu_view_def smp_init_def holding_def)
  show ?thesis
    using v spinlock_refines_held_set [OF v, of KmemLock] by (simp add: smp_init_def)
qed

end
