(* ===== verification/Kalloc.thy ===== *)
theory Kalloc
  imports Mmu Spinlock
begin

text \<open>
  The physical page allocator (\<^verbatim>\<open>kalloc.c\<close>). The free list is threaded through the free pages: the
  first word of a free page is the address of the next one, so the list lives in the byte memory
  that page tables and kernel stacks use as well. \<^term>\<open>k_end\<close> and \<^term>\<open>k_data\<close> are the linker
  symbols \<^verbatim>\<open>end\<close>, the first address after the kernel image, and \<^verbatim>\<open>data\<close>, the first after its text.
\<close>

record kmem = kbase +
  k_mem :: mem
  k_freelist :: addr
  k_use_lock :: bool
  k_end :: addr
  k_data :: addr

section \<open>Operations\<close>

definition kfree :: "addr \<Rightarrow> ('z kmem_scheme, unit) kop" where
  "kfree v = (\<lambda>s.
     if v mod PGSIZE \<noteq> 0 \<or> v < k_end s \<or> V2P v \<ge> PHYSTOP then Panic ''kfree''
     else
       seqK (modifyK (\<lambda>s. s\<lparr>k_mem := memset (k_mem s) v 1 PGSIZE\<rparr>))
      (seqK (\<lambda>s. whenK (k_use_lock s) (acquire KmemLock) s)
      (seqK (modifyK (\<lambda>s. s\<lparr>k_mem := store32 (k_mem s) v (k_freelist s), k_freelist := v\<rparr>))
            (\<lambda>s. whenK (k_use_lock s) (release KmemLock) s))) s)"

definition kalloc :: "('z kmem_scheme, addr) kop" where
  "kalloc =
     seqK (\<lambda>s. whenK (k_use_lock s) (acquire KmemLock) s)
    (bindK (getK k_freelist) (\<lambda>r.
     seqK (whenK (r \<noteq> 0) (modifyK (\<lambda>s. s\<lparr>k_freelist := load32 (k_mem s) r\<rparr>)))
    (seqK (\<lambda>s. whenK (k_use_lock s) (release KmemLock) s)
          (retK r))))"

lemma kfree_Ret_valid:
  assumes "kfree v s = Ret u s'"
  shows "v mod PGSIZE = 0" and "k_end s \<le> v" and "V2P v < PHYSTOP"
  using assms by (auto simp: kfree_def not_less split: if_splits)

lemma V2P_low: "V2P v < PHYSTOP \<Longrightarrow> 2147483648 \<le> unat v \<and> unat v < 2382364672"
  using unat_lt32 [of v] by (auto simp: V2P_def word_less_nat_alt unat_diff32 split: if_splits)

text \<open>\<^verbatim>\<open>freerange\<close>: the loop frees \<open>p, p + PGSIZE, \<dots>\<close> while the page ends at or before \<^verbatim>\<open>vend\<close>.
  It stops because \<^verbatim>\<open>kfree\<close> only returns below the physical memory limit, where the addition
  does not wrap.\<close>

function freerange_loop :: "addr \<Rightarrow> addr \<Rightarrow> ('z kmem_scheme, unit) kop" where
  "freerange_loop p vend s =
     (if p + PGSIZE \<le> vend
      then (case kfree p s of
              Ret _ s' \<Rightarrow> freerange_loop (p + PGSIZE) vend s'
            | Sleep s' \<Rightarrow> Sleep s' | Panic e \<Rightarrow> Panic e)
      else Ret () s)"
  by pat_completeness auto
termination
proof (relation "measure (\<lambda>(p, vend, s). unat vend - unat p)")
  fix p vend :: addr and s s' :: "'z kmem_scheme" and x1 :: unit
  assume a: "p + PGSIZE \<le> vend" and "kfree p s = Ret x1 s'"
  then have "unat p < 2382364672" using kfree_Ret_valid(3) V2P_low by blast
  then have "unat (p + PGSIZE) = unat p + 4096" by (simp add: unat_add32)
  with a show "((p + PGSIZE, vend, s'), p, vend, s) \<in> measure (\<lambda>(p, vend, s). unat vend - unat p)"
    by (auto simp: word_le_nat_alt)
qed simp

declare freerange_loop.simps [simp del]

definition freerange :: "addr \<Rightarrow> addr \<Rightarrow> ('z kmem_scheme, unit) kop" where
  "freerange vstart vend = freerange_loop (PGROUNDUP vstart) vend"

definition kinit1 :: "addr \<Rightarrow> addr \<Rightarrow> ('z kmem_scheme, unit) kop" where
  "kinit1 vstart vend = seqK (modifyK (\<lambda>s. s\<lparr>k_use_lock := False\<rparr>)) (freerange vstart vend)"

definition kinit2 :: "addr \<Rightarrow> addr \<Rightarrow> ('z kmem_scheme, unit) kop" where
  "kinit2 vstart vend = seqK (freerange vstart vend) (modifyK (\<lambda>s. s\<lparr>k_use_lock := True\<rparr>))"

section \<open>The free list\<close>

fun chain :: "mem \<Rightarrow> addr \<Rightarrow> addr list \<Rightarrow> bool" where
  "chain m f [] \<longleftrightarrow> f = 0"
| "chain m f (p # ps) \<longleftrightarrow> f = p \<and> p \<noteq> 0 \<and> chain m (load32 m p) ps"

definition valid_page :: "'z kmem_scheme \<Rightarrow> addr \<Rightarrow> bool" where
  "valid_page s v \<longleftrightarrow> page_aligned v \<and> k_end s \<le> v \<and> V2P v < PHYSTOP \<and> v \<noteq> 0"

text \<open>The pages on the free list, and that the list is well formed.\<close>

definition free_pages :: "'z kmem_scheme \<Rightarrow> addr list \<Rightarrow> bool" where
  "free_pages s ps \<longleftrightarrow> chain (k_mem s) (k_freelist s) ps \<and> distinct ps \<and> (\<forall>p \<in> set ps. valid_page s p)"

lemma chain_unique: "chain m f ps \<Longrightarrow> chain m f qs \<Longrightarrow> ps = qs"
proof (induction ps arbitrary: f qs)
  case Nil
  then show ?case by (cases qs) auto
next
  case (Cons p ps)
  then show ?case by (cases qs) auto
qed

lemma chain_cong:
  assumes "\<And>p. p \<in> set ps \<Longrightarrow> load32 m' p = load32 m p"
  shows "chain m' f ps = chain m f ps"
  using assms by (induction ps arbitrary: f) auto

lemma load32_cong:
  assumes "\<And>x. unat (x - p) < 4 \<Longrightarrow> m' x = m x"
  shows "load32 m' p = load32 m p"
  using assms [of p] assms [of "p + 1"] assms [of "p + 2"] assms [of "p + 3"]
  by (simp add: load32_def)

lemma load32_outside:
  assumes "page_aligned p" "page_aligned q" "p \<noteq> q"
    and "\<And>x. \<not> in_page q x \<Longrightarrow> m' x = m x"
  shows "load32 m' p = load32 m p"
proof (rule load32_cong)
  fix x assume "unat (x - p) < 4"
  then have "in_page p x" by (simp add: in_page_def)
  then have "\<not> in_page q x" using in_page_unique [OF assms(1,2)] assms(3) by blast
  then show "m' x = m x" by (rule assms(4))
qed

text \<open>The lock state after a critical section, as one case for both values of \<^verbatim>\<open>use_lock\<close>.\<close>

lemma kalloc_eq:
  assumes "KmemLock \<notin> k_held s"
  shows "kalloc s = Ret (k_freelist s)
    (if k_freelist s = 0 then s else s\<lparr>k_freelist := load32 (k_mem s) (k_freelist s)\<rparr>)"
  using assms by (simp add: kalloc_def kop_simps)

lemma kfree_eq:
  assumes "KmemLock \<notin> k_held s"
  shows "kfree v s =
    (if v mod PGSIZE \<noteq> 0 \<or> v < k_end s \<or> V2P v \<ge> PHYSTOP then Panic ''kfree''
     else Ret () (s\<lparr>k_mem := store32 (memset (k_mem s) v 1 PGSIZE) v (k_freelist s),
                    k_freelist := v\<rparr>))"
  using assms by (simp add: kfree_def kop_simps)

lemma kfree_pages:
  assumes free: "free_pages s ps" and nl: "KmemLock \<notin> k_held s"
    and v: "valid_page s v" "v \<notin> set ps"
  shows "\<exists>m. kfree v s = Ret () (s\<lparr>k_mem := m, k_freelist := v\<rparr>) \<and>
    free_pages (s\<lparr>k_mem := m, k_freelist := v\<rparr>) (v # ps) \<and> (\<forall>x. \<not> in_page v x \<longrightarrow> m x = k_mem s x)"
proof -
  let ?m = "store32 (memset (k_mem s) v 1 PGSIZE) v (k_freelist s)"
  have out: "\<not> in_page v x \<Longrightarrow> ?m x = k_mem s x" for x
    by (simp add: store32_apply memset_apply in_page_def word_less_nat_alt)
  have "chain ?m (k_freelist s) ps"
  proof (subst chain_cong)
    fix p assume "p \<in> set ps"
    then show "load32 ?m p = load32 (k_mem s) p"
      using free v out by (intro load32_outside) (auto simp: free_pages_def valid_page_def)
  qed (use free in \<open>simp add: free_pages_def\<close>)
  then have "free_pages (s\<lparr>k_mem := ?m, k_freelist := v\<rparr>) (v # ps)"
    using free v by (auto simp: free_pages_def valid_page_def)
  moreover have "kfree v s = Ret () (s\<lparr>k_mem := ?m, k_freelist := v\<rparr>)"
    using v nl by (simp add: kfree_eq valid_page_def page_aligned_mod not_less not_le)
  ultimately show ?thesis using out by blast
qed

lemma kalloc_pages:
  assumes free: "free_pages s (p # ps)" and nl: "KmemLock \<notin> k_held s"
  shows "\<exists>f. kalloc s = Ret p (s\<lparr>k_freelist := f\<rparr>) \<and> free_pages (s\<lparr>k_freelist := f\<rparr>) ps \<and>
    valid_page s p \<and> p \<notin> set ps"
  using assms by (auto simp: free_pages_def kalloc_eq valid_page_def)

lemma kalloc_empty:
  assumes "free_pages s []" and "KmemLock \<notin> k_held s"
  shows "kalloc s = Ret 0 s"
  using assms by (simp add: free_pages_def kalloc_eq)

section \<open>The contract of a page allocator\<close>

text \<open>Repeated calls, with their results in order.\<close>

primrec repeatK :: "nat \<Rightarrow> ('s, 'a) kop \<Rightarrow> ('s, 'a list) kop" where
  "repeatK 0 m = retK []"
| "repeatK (Suc n) m = bindK m (\<lambda>a. bindK (repeatK n m) (\<lambda>as. retK (a # as)))"

text \<open>
  What the users of the allocator (page tables, kernel stacks, pipes) rely on: \<open>pages s ps\<close> says
  that \<open>ps\<close> are the free pages of state \<open>s\<close>, in the order they will be handed out.
\<close>

locale page_alloc =
  fixes alloc :: "('s, addr) kop"
    and free :: "addr \<Rightarrow> ('s, unit) kop"
    and pages :: "'s \<Rightarrow> addr list \<Rightarrow> bool"
    and valid :: "'s \<Rightarrow> addr \<Rightarrow> bool"
  assumes alloc_some: "pages s (p # ps) \<Longrightarrow> \<exists>s'. alloc s = Ret p s' \<and> pages s' ps \<and> valid s' = valid s"
    and alloc_none: "pages s [] \<Longrightarrow> alloc s = Ret 0 s"
    and free_page: "pages s ps \<Longrightarrow> valid s p \<Longrightarrow> p \<notin> set ps \<Longrightarrow>
      \<exists>s'. free p s = Ret () s' \<and> pages s' (p # ps) \<and> valid s' = valid s"
    and pages_distinct: "pages s ps \<Longrightarrow> distinct ps"
    and pages_valid: "pages s ps \<Longrightarrow> p \<in> set ps \<Longrightarrow> valid s p \<and> p \<noteq> 0"
begin

lemma alloc_repeat:
  assumes "pages s (ps @ qs)"
  shows "\<exists>s'. repeatK (length ps) alloc s = Ret ps s' \<and> pages s' qs \<and> valid s' = valid s"
  using assms
proof (induction ps arbitrary: s)
  case Nil
  then show ?case by (simp add: kop_simps)
next
  case (Cons p ps)
  then obtain s1 where s1: "alloc s = Ret p s1" "pages s1 (ps @ qs)" "valid s1 = valid s"
    using alloc_some [of s p "ps @ qs"] by auto
  with Cons.IH [OF s1(2)] show ?case by (auto simp: kop_simps)
qed

lemma free_list:
  assumes "pages s qs" and "distinct ps" and "set ps \<inter> set qs = {}" and "\<forall>p \<in> set ps. valid s p"
  shows "\<exists>s'. forK ps free s = Ret () s' \<and> pages s' (rev ps @ qs) \<and> valid s' = valid s"
  using assms
proof (induction ps arbitrary: s qs)
  case Nil
  then show ?case by (simp add: kop_simps)
next
  case (Cons p ps)
  then obtain s1 where s1: "free p s = Ret () s1" "pages s1 (p # qs)" "valid s1 = valid s"
    using free_page [of s qs p] by auto
  with Cons.prems have "\<exists>s'. forK ps free s1 = Ret () s' \<and> pages s' (rev ps @ p # qs) \<and> valid s' = valid s1"
    by (intro Cons.IH) auto
  with s1 show ?case by (auto simp: kop_simps)
qed

lemma alloc_exhausts:
  assumes "pages s ps"
  shows "\<exists>s'. bindK (repeatK (length ps) alloc) (\<lambda>rs. bindK alloc (\<lambda>r. retK (rs, r))) s = Ret (ps, 0) s'"
  using alloc_repeat [of s ps "[]"] assms alloc_none by (auto simp: kop_simps)

end

definition kpages :: "'z kmem_scheme \<Rightarrow> addr list \<Rightarrow> bool" where
  "kpages s ps \<longleftrightarrow> free_pages s ps \<and> KmemLock \<notin> k_held s"

lemma valid_page_cong [simp]:
  "valid_page (s\<lparr>k_freelist := f\<rparr>) = valid_page s" "valid_page (s\<lparr>k_mem := m\<rparr>) = valid_page s"
  by (auto simp: valid_page_def fun_eq_iff)

lemma kalloc_law:
  "kpages s (p # ps) \<Longrightarrow> \<exists>s'. kalloc s = Ret p s' \<and> kpages s' ps \<and> valid_page s' = valid_page s"
  using kalloc_pages [of s p ps] by (auto simp: kpages_def)

lemma kfree_law:
  assumes "kpages s ps" and "valid_page s p" and "p \<notin> set ps"
  shows "\<exists>s'. kfree p s = Ret () s' \<and> kpages s' (p # ps) \<and> valid_page s' = valid_page s"
proof -
  obtain m where "kfree p s = Ret () (s\<lparr>k_mem := m, k_freelist := p\<rparr>)"
    and "free_pages (s\<lparr>k_mem := m, k_freelist := p\<rparr>) (p # ps)"
    using kfree_pages [of s ps p] assms by (auto simp: kpages_def)
  with assms show ?thesis by (simp add: kpages_def)
qed

interpretation kalloc: page_alloc kalloc kfree kpages valid_page
proof unfold_locales
  fix s :: "'a kmem_scheme" and p ps
  show "kpages s (p # ps) \<Longrightarrow> \<exists>s'. kalloc s = Ret p s' \<and> kpages s' ps \<and> valid_page s' = valid_page s"
    by (rule kalloc_law)
  show "kpages s [] \<Longrightarrow> kalloc s = Ret 0 s" by (simp add: kpages_def kalloc_empty)
  show "kpages s ps \<Longrightarrow> valid_page s p \<Longrightarrow> p \<notin> set ps \<Longrightarrow>
      \<exists>s'. kfree p s = Ret () s' \<and> kpages s' (p # ps) \<and> valid_page s' = valid_page s"
    by (rule kfree_law)
  show "kpages s ps \<Longrightarrow> distinct ps" by (simp add: kpages_def free_pages_def)
  show "kpages s ps \<Longrightarrow> p \<in> set ps \<Longrightarrow> valid_page s p \<and> p \<noteq> 0"
    unfolding kpages_def free_pages_def by (metis valid_page_def)
qed

section \<open>Ranges of pages\<close>

definition range_pages :: "addr \<Rightarrow> nat \<Rightarrow> addr list" where
  "range_pages p n = map (\<lambda>i. p + of_nat (4096 * i)) [0..<n]"

lemma range_pages_Suc: "range_pages p (Suc n) = p # range_pages (p + PGSIZE) n"
proof -
  have "[0..<Suc n] = 0 # map Suc [0..<n]" by (simp add: map_Suc_upt upt_conv_Cons)
  then show ?thesis by (simp add: range_pages_def comp_def algebra_simps)
qed

lemma freerange_loop_pages:
  assumes "unat p + 4096 * n \<le> unat vend" and "unat vend < unat p + 4096 * n + 4096"
    and "unat vend + 4096 < 4294967296"
  shows "freerange_loop p vend s = forK (range_pages p n) kfree s"
  using assms
proof (induction n arbitrary: p s)
  case 0
  then have "\<not> p + PGSIZE \<le> vend" by (simp add: word_le_nat_alt unat_add32)
  then show ?case by (simp add: freerange_loop.simps [of p] range_pages_def kop_simps)
next
  case (Suc n)
  then have u: "unat (p + PGSIZE) = unat p + 4096" by (simp add: unat_add32)
  then have "p + PGSIZE \<le> vend" using Suc.prems by (simp add: word_le_nat_alt)
  moreover have "freerange_loop (p + PGSIZE) vend s' = forK (range_pages (p + PGSIZE) n) kfree s'" for s' :: "'a kmem_scheme"
    using Suc.prems by (intro Suc.IH) (simp_all add: u)
  ultimately show ?case
    by (simp add: freerange_loop.simps [of p] range_pages_Suc kop_simps split: outcome.split)
qed

lemma range_pages_nth:
  assumes "unat p + 4096 * n < 4294967296" and "i < n"
  shows "unat ((p::addr) + of_nat (4096 * i)) = unat p + 4096 * i"
proof -
  have "unat (of_nat (4096 * i) :: addr) = 4096 * i" using assms by (intro unat_of_nat32) simp
  then show ?thesis using assms unat_add32 [of p "of_nat (4096 * i)"] by (simp del: of_nat_mult)
qed

lemma range_pages_distinct:
  assumes "unat p + 4096 * n < 4294967296"
  shows "distinct (range_pages p n)"
proof -
  have "inj_on (\<lambda>i. p + of_nat (4096 * i)) {0..<n}"
  proof (rule inj_onI)
    fix i j assume "i \<in> {0..<n}" "j \<in> {0..<n}" "p + of_nat (4096 * i) = p + of_nat (4096 * j)"
    then have "unat p + 4096 * i = unat p + 4096 * j"
      using range_pages_nth [OF assms, of i] range_pages_nth [OF assms, of j] by simp
    then show "i = j" by simp
  qed
  then show ?thesis by (simp add: range_pages_def distinct_map)
qed

lemma range_pages_valid:
  assumes "page_aligned p" and "k_end s \<le> p" and "2147483648 \<le> unat p"
    and "unat p + 4096 * n \<le> 2382364672" and "q \<in> set (range_pages p n)"
  shows "valid_page s q"
proof -
  obtain i where i: "i < n" "q = p + of_nat (4096 * i)"
    using assms(5) by (auto simp: range_pages_def)
  then have u: "unat q = unat p + 4096 * i" using range_pages_nth [of p n i] assms(4) by simp
  then have "page_aligned q" using assms(1) by (simp add: page_aligned_def)
  moreover have "k_end s \<le> q" using assms(2) u by (simp add: word_le_nat_alt)
  moreover have "V2P q < PHYSTOP"
    using u i(1) assms(3,4) by (simp add: V2P_def word_less_nat_alt unat_diff32)
  ultimately show ?thesis using u assms(3) by (auto simp: valid_page_def)
qed

section \<open>Properties\<close>

text \<open>
  C33. Successive calls of \<^verbatim>\<open>kalloc\<close> hand out the free pages in list order: the results are pairwise
  different, page aligned, between the end of the kernel and the top of physical memory, none of
  them is still on the free list, and after the last page \<^verbatim>\<open>kalloc\<close> returns 0.
\<close>

theorem kalloc_hands_out_free_pages:
  assumes "free_pages s (ps @ qs)" and "KmemLock \<notin> k_held s"
  shows "(\<exists>s'. repeatK (length ps) kalloc s = Ret ps s' \<and> free_pages s' qs \<and>
          (qs = [] \<longrightarrow> kalloc s' = Ret 0 s')) \<and>
    distinct ps \<and> set ps \<inter> set qs = {} \<and> (\<forall>p \<in> set ps. valid_page s p)"
proof -
  have k: "kpages s (ps @ qs)" using assms by (simp add: kpages_def)
  from kalloc.alloc_repeat [OF k] obtain s' where
    "repeatK (length ps) kalloc s = Ret ps s'" "kpages s' qs" by blast
  moreover have "qs = [] \<longrightarrow> kalloc s' = Ret 0 s'" using \<open>kpages s' qs\<close> kalloc.alloc_none by blast
  moreover have "\<forall>p \<in> set ps. valid_page s p" using kalloc.pages_valid [OF k] by simp
  ultimately show ?thesis using kalloc.pages_distinct [OF k] by (auto simp: kpages_def)
qed

definition one_page_kmem :: kmem where
  "one_page_kmem = \<lparr>k_held = {}, k_mem = (\<lambda>_. 0), k_freelist = 2151677952, k_use_lock = True,
     k_end = 2148532224, k_data = 2148564992\<rparr>"

lemma one_page_kmem_simps [simp]:
  "free_pages one_page_kmem [2151677952]" "KmemLock \<notin> k_held one_page_kmem"
  "valid_page one_page_kmem 2151682048"
  by (simp_all add: one_page_kmem_def free_pages_def load32_def join32_def valid_page_def
    page_aligned_def V2P_def)

theorem kalloc_hands_out_free_pages_witness:
  "free_pages one_page_kmem ([2151677952] @ []) \<and>
   (\<exists>s'. repeatK 1 kalloc one_page_kmem = Ret [2151677952] s' \<and> kalloc s' = Ret 0 s')"
  using kalloc_hands_out_free_pages [of one_page_kmem "[2151677952]" "[]"] by auto

text \<open>
  C34. \<^verbatim>\<open>kfree\<close> followed by \<^verbatim>\<open>kalloc\<close> returns the page just freed and restores the list of free
  pages; only bytes of that page change, and from the fifth byte on the page holds the junk value 1
  that \<^verbatim>\<open>kfree\<close> writes to catch dangling references.
\<close>

theorem kfree_kalloc_lifo:
  assumes "free_pages s ps" and "KmemLock \<notin> k_held s" and "valid_page s v" and "v \<notin> set ps"
  shows "\<exists>s'. seqK (kfree v) kalloc s = Ret v s' \<and> free_pages s' ps \<and>
    (\<forall>x. k_mem s' x =
       (if x - v < PGSIZE then if x - v < 4 then byte_of (unat (x - v)) (k_freelist s) else 1
        else k_mem s x))"
proof -
  let ?m = "store32 (memset (k_mem s) v 1 PGSIZE) v (k_freelist s)"
  have f: "kfree v s = Ret () (s\<lparr>k_mem := ?m, k_freelist := v\<rparr>)"
    using assms by (simp add: kfree_eq valid_page_def page_aligned_mod not_less not_le)
  moreover have "v \<noteq> 0" using assms(3) by (simp add: valid_page_def)
  ultimately have "seqK (kfree v) kalloc s = Ret v (s\<lparr>k_mem := ?m, k_freelist := k_freelist s\<rparr>)"
    using assms(2) by (simp add: seqK_apply kalloc_eq)
  moreover have "free_pages (s\<lparr>k_mem := ?m, k_freelist := k_freelist s\<rparr>) ps"
  proof -
    obtain m where m: "kfree v s = Ret () (s\<lparr>k_mem := m, k_freelist := v\<rparr>)"
      and fp: "free_pages (s\<lparr>k_mem := m, k_freelist := v\<rparr>) (v # ps)"
      using kfree_pages [OF assms] by blast
    from f m have "k_mem (s\<lparr>k_mem := ?m, k_freelist := v\<rparr>) = k_mem (s\<lparr>k_mem := m, k_freelist := v\<rparr>)"
      by simp
    then have "m = ?m" by simp
    with fp show ?thesis by (simp add: free_pages_def)
  qed
  moreover have "?m x = (if x - v < PGSIZE then if x - v < 4 then byte_of (unat (x - v)) (k_freelist s)
        else 1 else k_mem s x)" for x
    by (auto simp: store32_apply memset_apply word_less_nat_alt)
  ultimately show ?thesis by auto
qed

theorem kfree_kalloc_lifo_witness:
  "free_pages one_page_kmem [2151677952] \<and>
   (\<exists>s'. seqK (kfree 2151682048) kalloc one_page_kmem = Ret 2151682048 s' \<and>
     free_pages s' [2151677952])"
  using kfree_kalloc_lifo [of one_page_kmem "[2151677952]" 2151682048] by auto

text \<open>
  C35. The first initialisation of the allocator puts exactly the whole pages between \<^verbatim>\<open>vstart\<close> and
  \<^verbatim>\<open>vend\<close> on the free list, each once, whatever the alignment of the bounds, and does not panic.
\<close>

theorem kinit1_frees_range:
  assumes "k_freelist s = 0" and "KmemLock \<notin> k_held s" and "k_end s \<le> vstart"
    and "2147483648 \<le> unat vstart" and "unat (PGROUNDUP vstart) \<le> unat vend"
    and "unat vstart + 4095 < 4294967296" and "unat vend \<le> 2382364672"
  shows "\<exists>s'. kinit1 vstart vend s = Ret () s' \<and> free_pages s'
    (rev (range_pages (PGROUNDUP vstart) ((unat vend - unat (PGROUNDUP vstart)) div 4096)))"
proof -
  let ?p = "PGROUNDUP vstart" and ?s = "s\<lparr>k_use_lock := False\<rparr>"
  define n where "n = (unat vend - unat ?p) div 4096"
  have up: "unat ?p = (unat vstart + 4095) div 4096 * 4096"
    using assms(6) by (rule unat_PGROUNDUP)
  have al: "page_aligned ?p" unfolding page_aligned_def up by simp
  have ge: "unat vstart \<le> unat ?p" unfolding up by linarith
  have n: "unat ?p + 4096 * n \<le> unat vend" "unat vend < unat ?p + 4096 * n + 4096"
    unfolding n_def using assms(5) by linarith+
  have "kpages ?s []" using assms(1,2) by (simp add: kpages_def free_pages_def)
  moreover have "distinct (range_pages ?p n)"
    using n assms(7) by (intro range_pages_distinct) simp
  moreover have "\<forall>q \<in> set (range_pages ?p n). valid_page ?s q"
  proof
    fix q assume q: "q \<in> set (range_pages ?p n)"
    have "k_end ?s \<le> ?p" using assms(3) ge by (simp add: word_le_nat_alt)
    then show "valid_page ?s q"
      using al ge n assms(4,7) q by (intro range_pages_valid [of ?p ?s n]) simp_all
  qed
  ultimately obtain s' where "forK (range_pages ?p n) kfree ?s = Ret () s'"
    "kpages s' (rev (range_pages ?p n))"
    using kalloc.free_list [of ?s "[]" "range_pages ?p n"] by auto
  moreover have "freerange_loop ?p vend ?s = forK (range_pages ?p n) kfree ?s"
    using n assms(7) by (intro freerange_loop_pages) simp_all
  ultimately show ?thesis
    by (auto simp: kinit1_def freerange_def kop_simps kpages_def n_def)
qed

theorem kinit1_frees_range_witness:
  "\<exists>s'. kinit1 2148532232 2148544512 (one_page_kmem\<lparr>k_freelist := 0\<rparr>) = Ret () s' \<and>
     free_pages s' [2148540416, 2148536320]"
  using kinit1_frees_range [of "one_page_kmem\<lparr>k_freelist := 0\<rparr>" 2148532232 2148544512]
  by (auto simp: one_page_kmem_def PGROUNDUP_def range_pages_def upt_rec)

end
