(* ===== verification/Proc.thy ===== *)
theory Proc
  imports Kalloc
begin

text \<open>
  The process table and the primitives of \<^verbatim>\<open>proc.c\<close> that do not touch files or user memory:
  \<^verbatim>\<open>allocproc\<close>, \<^verbatim>\<open>sched\<close>, \<^verbatim>\<open>yield\<close>, \<^verbatim>\<open>sleep\<close>, \<^verbatim>\<open>wakeup\<close>, \<^verbatim>\<open>kill\<close>, and the system calls of \<^verbatim>\<open>sysproc.c\<close>
  built from them alone. A \<^verbatim>\<open>struct proc *\<close> is an index into the table; \<^verbatim>\<open>mycpu()->proc\<close> is
  \<^term>\<open>pt_cur\<close>. \<^verbatim>\<open>sched\<close> switches to the scheduler, which is the outcome \<^term>\<open>Sleep\<close>; what runs
  when the process is chosen again is the second half of the caller (\<open>sleep_wake\<close>, \<open>yield_wake\<close>).
  Using a null process pointer is the panic \<^verbatim>\<open>null\<close> of the model.
\<close>

section \<open>State\<close>

datatype procstate = UNUSED | EMBRYO | SLEEPING | RUNNABLE | RUNNING | ZOMBIE

text \<open>\<^verbatim>\<open>struct proc\<close>. Open files and the current directory are indices into the file table and the
  inode cache; \<^verbatim>\<open>tf\<close> and \<^verbatim>\<open>context\<close> point into the kernel stack page.\<close>

record proc =
  p_sz :: uint
  p_pgdir :: addr
  p_kstack :: addr
  p_state :: procstate
  p_pid :: int
  p_parent :: "nat option"
  p_tf :: addr
  p_context :: addr
  p_chan :: "chan option"
  p_killed :: bool
  p_ofile :: "nat \<Rightarrow> nat option"
  p_cwd :: "nat option"
  p_name :: "nat \<Rightarrow> uchar"
  p_thread :: "nat \<Rightarrow> int"
  p_thread_p :: "nat \<Rightarrow> int"
  p_tid :: uint
  p_osz :: uint
  p_mtid :: uint
  p_retval :: addr

text \<open>\<^verbatim>\<open>ptable\<close>, \<^verbatim>\<open>initproc\<close>, \<^verbatim>\<open>nextpid\<close>, \<^verbatim>\<open>ticks\<close>, the process of this CPU, the addresses of
  the assembly labels \<^verbatim>\<open>forkret\<close> and \<^verbatim>\<open>trapret\<close>, the kernel page directory of \<^verbatim>\<open>vm.c\<close> and the page
  directory register of the processor.\<close>

record ptable = kmem +
  pt_procs :: "nat \<Rightarrow> proc"
  pt_cur :: "nat option"
  pt_initproc :: "nat option"
  pt_nextpid :: int
  pt_ticks :: uint
  pt_forkret :: addr
  pt_trapret :: addr
  pt_kpgdir :: addr
  pt_cr3 :: addr

definition upd_proc :: "nat \<Rightarrow> (proc \<Rightarrow> proc) \<Rightarrow> 'z ptable_scheme \<Rightarrow> 'z ptable_scheme" where
  "upd_proc p f s = s\<lparr>pt_procs := (pt_procs s)(p := f (pt_procs s p))\<rparr>"

definition set_state :: "nat \<Rightarrow> procstate \<Rightarrow> 'z ptable_scheme \<Rightarrow> 'z ptable_scheme" where
  "set_state p st = upd_proc p (\<lambda>q. q\<lparr>p_state := st\<rparr>)"

definition myproc :: "('z ptable_scheme, nat option) kop" where
  "myproc = getK pt_cur"

text \<open>\<^verbatim>\<open>p->field\<close> through a pointer that may be null.\<close>

definition derefK :: "'p option \<Rightarrow> ('p \<Rightarrow> ('s, 'a) kop) \<Rightarrow> ('s, 'a) kop" where
  "derefK p f = (case p of None \<Rightarrow> panic ''null'' | Some q \<Rightarrow> f q)"

lemma derefK_simps [simp, kop_simps]:
  "derefK None f = panic ''null''" "derefK (Some p) f = f p"
  by (simp_all add: derefK_def)

lemma upd_proc_simps [simp]:
  "k_held (upd_proc p f s) = k_held s" "k_mem (upd_proc p f s) = k_mem s"
  "k_freelist (upd_proc p f s) = k_freelist s" "k_use_lock (upd_proc p f s) = k_use_lock s"
  "k_end (upd_proc p f s) = k_end s" "k_data (upd_proc p f s) = k_data s" "pt_cur (upd_proc p f s) = pt_cur s"
  "pt_initproc (upd_proc p f s) = pt_initproc s" "pt_nextpid (upd_proc p f s) = pt_nextpid s"
  "pt_ticks (upd_proc p f s) = pt_ticks s" "pt_forkret (upd_proc p f s) = pt_forkret s"
  "pt_trapret (upd_proc p f s) = pt_trapret s" "pt_kpgdir (upd_proc p f s) = pt_kpgdir s"
  "pt_cr3 (upd_proc p f s) = pt_cr3 s" "ptable.more (upd_proc p f s) = ptable.more s"
  "pt_procs (upd_proc p f s) = (pt_procs s)(p := f (pt_procs s p))"
  by (simp_all add: upd_proc_def)

section \<open>Operations\<close>

subsection \<open>\<^verbatim>\<open>allocproc\<close>\<close>

text \<open>Sizes of \<^verbatim>\<open>struct trapframe\<close> and \<^verbatim>\<open>struct context\<close>; \<^verbatim>\<open>eip\<close> is the last word of a context.\<close>

abbreviation (input) TRAPFRAME :: addr where "TRAPFRAME \<equiv> 76"
abbreviation (input) CONTEXT :: addr where "CONTEXT \<equiv> 20"
abbreviation (input) CONTEXT_EIP :: addr where "CONTEXT_EIP \<equiv> 16"

text \<open>The stack of a new process: trap frame, return address \<^verbatim>\<open>trapret\<close>, context with \<^verbatim>\<open>eip\<close> at
  \<^verbatim>\<open>forkret\<close>.\<close>

definition setup_kstack :: "nat \<Rightarrow> 'z ptable_scheme \<Rightarrow> 'z ptable_scheme" where
  "setup_kstack p s =
     (let sp = p_kstack (pt_procs s p) + KSTACKSIZE;
          sp = sp - TRAPFRAME;
          s = upd_proc p (\<lambda>q. q\<lparr>p_tf := sp\<rparr>) s;
          sp = sp - 4;
          s = s\<lparr>k_mem := store32 (k_mem s) sp (pt_trapret s)\<rparr>;
          sp = sp - CONTEXT;
          s = upd_proc p (\<lambda>q. q\<lparr>p_context := sp\<rparr>) s;
          s = s\<lparr>k_mem := memset (k_mem s) sp 0 CONTEXT\<rparr>
      in s\<lparr>k_mem := store32 (k_mem s) (sp + CONTEXT_EIP) (pt_forkret s)\<rparr>)"

definition allocproc :: "('z ptable_scheme, nat option) kop" where
  "allocproc =
     seqK (acquire PtableLock)
    (bindK (getK (\<lambda>s. List.find (\<lambda>i. p_state (pt_procs s i) = UNUSED) [0..<NPROC])) (\<lambda>found.
     case found of
       None \<Rightarrow> seqK (release PtableLock) (retK None)
     | Some p \<Rightarrow>
         seqK (modifyK (set_state p EMBRYO))
        (seqK (modifyK (\<lambda>s. if pt_nextpid s > 10000 then s\<lparr>pt_nextpid := 3\<rparr> else s))
        (seqK (modifyK (\<lambda>s. upd_proc p (\<lambda>q. q\<lparr>p_pid := pt_nextpid s\<rparr>) s))
        (seqK (modifyK (\<lambda>s. s\<lparr>pt_nextpid := pt_nextpid s + 1\<rparr>))
        (seqK (release PtableLock)
        (bindK kalloc (\<lambda>k.
         seqK (modifyK (upd_proc p (\<lambda>q. q\<lparr>p_kstack := k\<rparr>)))
        (if k = 0 then seqK (modifyK (set_state p UNUSED)) (retK None)
         else seqK (modifyK (setup_kstack p)) (retK (Some p)))))))))))"

subsection \<open>Giving up the CPU\<close>

text \<open>With the interrupt nesting counter equal to the number of locks held, \<^verbatim>\<open>ncli != 1\<close> is that
  another lock is held, and the interrupt flag is off exactly while some lock is held.\<close>

definition sched :: "('z ptable_scheme, unit) kop" where
  "sched = (\<lambda>s. derefK (pt_cur s) (\<lambda>p s.
     if PtableLock \<notin> k_held s then Panic ''sched ptable.lock''
     else if card (k_held s) \<noteq> 1 then Panic ''sched locks''
     else if p_state (pt_procs s p) = RUNNING then Panic ''sched running''
     else if k_held s = {} then Panic ''sched interruptible''
     else Sleep s) s)"

definition yield :: "('z ptable_scheme, unit) kop" where
  "yield =
     seqK (acquire PtableLock)
    (bindK myproc (\<lambda>p. derefK p (\<lambda>p.
     seqK (modifyK (set_state p RUNNABLE))
          sched)))"

text \<open>The rest of \<^verbatim>\<open>yield\<close>, when the scheduler switches back.\<close>

definition yield_wake :: "('z ptable_scheme, int) kop" where
  "yield_wake = seqK (release PtableLock) (retK 0)"

definition sleep :: "chan \<Rightarrow> lockid option \<Rightarrow> ('z ptable_scheme, 'a) kop" where
  "sleep chan lk =
     bindK myproc (\<lambda>cur.
     case cur of
       None \<Rightarrow> panic ''sleep''
     | Some p \<Rightarrow>
       (case lk of
          None \<Rightarrow> panic ''sleep without lk''
        | Some lk \<Rightarrow>
            seqK (whenK (lk \<noteq> PtableLock) (seqK (acquire PtableLock) (release lk)))
           (seqK (modifyK (upd_proc p (\<lambda>q. q\<lparr>p_chan := Some chan\<rparr>)))
           (seqK (modifyK (set_state p SLEEPING))
           (seqK sched (panic ''not reached''))))))"

text \<open>The rest of \<^verbatim>\<open>sleep\<close>, when the scheduler switches back to process \<open>p\<close>. A model of \<^verbatim>\<open>sched\<close> never
  returns, so the last step of \<^term>\<open>sleep\<close> is not reached.\<close>

definition sleep_wake :: "lockid \<Rightarrow> ('z ptable_scheme, unit) kop" where
  "sleep_wake lk =
     bindK myproc (\<lambda>p. derefK p (\<lambda>p.
     seqK (modifyK (upd_proc p (\<lambda>q. q\<lparr>p_chan := None\<rparr>)))
          (whenK (lk \<noteq> PtableLock) (seqK (release PtableLock) (acquire lk)))))"

subsection \<open>Waking and killing\<close>

definition wakeup1 :: "chan \<Rightarrow> ('z ptable_scheme, unit) kop" where
  "wakeup1 chan = forK [0..<NPROC] (\<lambda>p. modifyK (upd_proc p (\<lambda>q.
     if p_state q = SLEEPING \<and> p_chan q = Some chan then q\<lparr>p_state := RUNNABLE\<rparr> else q)))"

definition wakeup :: "chan \<Rightarrow> ('z ptable_scheme, unit) kop" where
  "wakeup chan = seqK (acquire PtableLock) (seqK (wakeup1 chan) (release PtableLock))"

definition kill :: "int \<Rightarrow> ('z ptable_scheme, int) kop" where
  "kill pid =
     seqK (acquire PtableLock)
    (bindK (getK (\<lambda>s. List.find (\<lambda>i. p_pid (pt_procs s i) = pid) [0..<NPROC])) (\<lambda>found.
     case found of
       Some p \<Rightarrow>
         seqK (modifyK (upd_proc p (\<lambda>q. q\<lparr>p_killed := True\<rparr>)))
        (seqK (modifyK (upd_proc p (\<lambda>q. if p_state q = SLEEPING then q\<lparr>p_state := RUNNABLE\<rparr> else q)))
        (seqK (release PtableLock) (retK 0)))
     | None \<Rightarrow> seqK (release PtableLock) (retK (- 1))))"

subsection \<open>Switching address spaces\<close>

text \<open>\<^verbatim>\<open>switchuvm\<close> and \<^verbatim>\<open>switchkvm\<close> of \<^verbatim>\<open>vm.c\<close>, without the task state segment, which only the
  processor reads.\<close>

definition switchuvm :: "nat option \<Rightarrow> ('z ptable_scheme, unit) kop" where
  "switchuvm p =
     (case p of
        None \<Rightarrow> panic ''switchuvm: no process''
      | Some p \<Rightarrow> (\<lambda>s.
          if p_kstack (pt_procs s p) = 0 then Panic ''switchuvm: no kstack''
          else if p_pgdir (pt_procs s p) = 0 then Panic ''switchuvm: no pgdir''
          else Ret () (s\<lparr>pt_cr3 := V2P (p_pgdir (pt_procs s p))\<rparr>)))"

definition switchkvm :: "('z ptable_scheme, unit) kop" where
  "switchkvm = modifyK (\<lambda>s. s\<lparr>pt_cr3 := V2P (pt_kpgdir s)\<rparr>)"

section \<open>What the operations do\<close>

lemma upd_proc_upd_proc [simp]: "upd_proc p f (upd_proc p g s) = upd_proc p (\<lambda>q. f (g q)) s"
  by (simp add: upd_proc_def)

text \<open>Normal form: changes of the table outermost.\<close>

lemma upd_proc_commute [simp]:
  "(upd_proc p f s)\<lparr>k_mem := m\<rparr> = upd_proc p f (s\<lparr>k_mem := m\<rparr>)"
  "(upd_proc p f s)\<lparr>k_held := h\<rparr> = upd_proc p f (s\<lparr>k_held := h\<rparr>)"
  "(upd_proc p f s)\<lparr>k_freelist := fl\<rparr> = upd_proc p f (s\<lparr>k_freelist := fl\<rparr>)"
  "(upd_proc p f s)\<lparr>pt_nextpid := n\<rparr> = upd_proc p f (s\<lparr>pt_nextpid := n\<rparr>)"
  by (cases s, simp add: upd_proc_def)+

text \<open>A loop over the whole table that changes each entry on its own.\<close>

lemma forK_upd_proc:
  "distinct xs \<Longrightarrow> forK xs (\<lambda>p. modifyK (upd_proc p f)) s =
     Ret () (s\<lparr>pt_procs := (\<lambda>i. if i \<in> set xs then f (pt_procs s i) else pt_procs s i)\<rparr>)"
proof (induction xs arbitrary: s)
  case Nil
  then show ?case by (simp add: kop_simps)
next
  case (Cons x xs)
  then have "(\<lambda>i. if i \<in> set xs then f (pt_procs (upd_proc x f s) i) else pt_procs (upd_proc x f s) i) =
      (\<lambda>i. if i \<in> set (x # xs) then f (pt_procs s i) else pt_procs s i)" by auto
  moreover have "(upd_proc x f s)\<lparr>pt_procs := g\<rparr> = s\<lparr>pt_procs := g\<rparr>" for g
    by (simp add: upd_proc_def)
  ultimately show ?case using Cons by (simp only: forK.simps seqK_apply modifyK_apply outcome.case distinct.simps)
qed

definition wake_proc :: "chan \<Rightarrow> proc \<Rightarrow> proc" where
  "wake_proc c q = (if p_state q = SLEEPING \<and> p_chan q = Some c then q\<lparr>p_state := RUNNABLE\<rparr> else q)"

lemma wakeup1_eq:
  "wakeup1 c s = Ret () (s\<lparr>pt_procs := (\<lambda>i. if i < NPROC then wake_proc c (pt_procs s i) else pt_procs s i)\<rparr>)"
  unfolding wakeup1_def wake_proc_def [symmetric] by (subst forK_upd_proc) simp_all

lemma wakeup_eq:
  "PtableLock \<notin> k_held s \<Longrightarrow> wakeup c s =
     Ret () (s\<lparr>pt_procs := (\<lambda>i. if i < NPROC then wake_proc c (pt_procs s i) else pt_procs s i)\<rparr>)"
  by (simp add: wakeup_def kop_simps wakeup1_eq cong: if_cong)

lemma sched_eq:
  "k_held s = {PtableLock} \<Longrightarrow> pt_cur s = Some p \<Longrightarrow> p_state (pt_procs s p) \<noteq> RUNNING \<Longrightarrow> sched s = Sleep s"
  by (simp add: sched_def)

lemma sleep_eq:
  assumes "k_held s = {lk}" and "pt_cur s = Some p"
  shows "sleep c (Some lk) s = Sleep (upd_proc p (\<lambda>q. q\<lparr>p_chan := Some c, p_state := SLEEPING\<rparr>)
    (s\<lparr>k_held := {PtableLock}\<rparr>))"
proof (cases "lk = PtableLock")
  case True
  then have "s\<lparr>k_held := {PtableLock}\<rparr> = s" using assms by simp
  then show ?thesis
    using assms True by (simp add: sleep_def myproc_def kop_simps set_state_def sched_eq [where p = p])
next
  case False
  then have "{PtableLock, lk} - {lk} = {PtableLock}" by auto
  then show ?thesis
    using assms False by (simp add: sleep_def myproc_def kop_simps set_state_def sched_eq [where p = p])
qed

text \<open>The result of \<^verbatim>\<open>setup_kstack\<close>, as one change of the table and one of the memory.\<close>

definition kstack_mem :: "mem \<Rightarrow> addr \<Rightarrow> addr \<Rightarrow> addr \<Rightarrow> mem" where
  "kstack_mem m k tr fr =
     store32 (memset (store32 m (k + 4016) tr) (k + 3996) 0 20) (k + 4012) fr"

lemma setup_kstack_eq:
  "setup_kstack p s = upd_proc p (\<lambda>q. q\<lparr>p_tf := p_kstack (pt_procs s p) + 4020, p_context := p_kstack (pt_procs s p) + 3996\<rparr>)
     (s\<lparr>k_mem := kstack_mem (k_mem s) (p_kstack (pt_procs s p)) (pt_trapret s) (pt_forkret s)\<rparr>)"
  by (simp add: setup_kstack_def kstack_mem_def Let_def add.commute)

lemma kstack_mem_outside:
  assumes "\<not> in_page k x"
  shows "kstack_mem m k tr fr x = m x"
proof -
  have "4096 \<le> unat (x - k)" using assms by (simp add: in_page_def)
  then have "20 \<le> unat (x - (k + 3996))" "4 \<le> unat (x - (k + 4012))" "4 \<le> unat (x - (k + 4016))"
    using unat_lt32 [of "x - k"] by (simp_all add: unat_offset_shift)
  then show ?thesis
    by (simp add: kstack_mem_def store32_apply memset_apply word_less_nat_alt)
qed

lemma load32_store32_disjoint:
  assumes "4 \<le> unat (b - a)" and "4 \<le> unat (a - b)"
  shows "load32 (store32 m a v) b = load32 m b"
proof (rule load32_cong)
  fix x assume x: "unat (x - b) < 4"
  have "x - a = (x - b) + (b - a)" by simp
  then have "unat (x - a) = unat (x - b) + unat (b - a)"
    using x assms unat_add32 [of "x - b" "b - a"] unat_diff32 [of a b] unat_diff32 [of b a]
    by (simp only: split: if_splits) simp_all
  then show "store32 m a v x = m x" using assms by (simp add: store32_apply)
qed

lemma kstack_mem_forkret: "load32 (kstack_mem m k tr fr) (k + 4012) = fr"
  by (simp add: kstack_mem_def)

lemma kstack_mem_trapret: "load32 (kstack_mem m k tr fr) (k + 4016) = tr"
proof -
  have "load32 (memset (store32 m (k + 4016) tr) (k + 3996) 0 20) (k + 4016) =
      load32 (store32 m (k + 4016) tr) (k + 4016)"
  proof (rule load32_cong)
    fix x assume x: "unat (x - (k + 4016)) < 4"
    define y where "y = x - (k + 4016)"
    have "x - (k + 3996) = y + 20" by (simp add: y_def)
    then have "unat (x - (k + 3996)) = unat y + 20"
      using x unat_add32 [of y 20] by (simp only: y_def [symmetric]) simp
    then show "memset (store32 m (k + 4016) tr) (k + 3996) 0 20 x = store32 m (k + 4016) tr x"
      by (simp add: memset_apply word_less_nat_alt)
  qed
  then show ?thesis by (simp add: kstack_mem_def load32_store32_disjoint)
qed

lemmas kstack_mem_words = kstack_mem_forkret kstack_mem_trapret
  kstack_mem_forkret [unfolded add.commute [of _ 4012]] kstack_mem_trapret [unfolded add.commute [of _ 4016]]

definition next_pid :: "int \<Rightarrow> int" where
  "next_pid n = (if n > 10000 then 3 else n)"

lemma allocproc_none:
  assumes "\<And>i. i < NPROC \<Longrightarrow> p_state (pt_procs s i) \<noteq> UNUSED" and "PtableLock \<notin> k_held s"
  shows "allocproc s = Ret None s"
proof -
  have "List.find (\<lambda>i. p_state (pt_procs s i) = UNUSED) [0..<NPROC] = None"
    using assms(1) by (simp add: find_upt_None)
  then show ?thesis using assms(2) by (simp add: allocproc_def kop_simps)
qed

lemma allocproc_eq:
  assumes "List.find (\<lambda>i. p_state (pt_procs s i) = UNUSED) [0..<NPROC] = Some p"
    and "PtableLock \<notin> k_held s" and "KmemLock \<notin> k_held s"
  shows "allocproc s =
    (let n = next_pid (pt_nextpid s); k = k_freelist s in
     if k = 0
     then Ret None (upd_proc p (\<lambda>q. q\<lparr>p_pid := n, p_kstack := 0, p_state := UNUSED\<rparr>)
                     (s\<lparr>pt_nextpid := n + 1\<rparr>))
     else Ret (Some p)
       (upd_proc p (\<lambda>q. q\<lparr>p_state := EMBRYO, p_pid := n, p_kstack := k, p_tf := k + 4020, p_context := k + 3996\<rparr>)
         (s\<lparr>pt_nextpid := n + 1, k_freelist := load32 (k_mem s) k,
            k_mem := kstack_mem (k_mem s) k (pt_trapret s) (pt_forkret s)\<rparr>)))"
proof -
  have "s\<lparr>k_held := insert PtableLock (k_held s)\<rparr>\<lparr>k_held := k_held s\<rparr> = s" by simp
  then show ?thesis using assms
    by (simp add: allocproc_def kop_simps set_state_def next_pid_def Let_def setup_kstack_eq kalloc_eq)
qed


section \<open>Properties\<close>

text \<open>
  C32. \<^verbatim>\<open>allocproc\<close> with a free slot and a free page: it takes the first unused slot, gives it the next
  process id and the first free page as kernel stack, with the trap frame in the top 76 bytes of the
  page, the return address \<^verbatim>\<open>trapret\<close> below it and a context whose \<^verbatim>\<open>eip\<close> is \<^verbatim>\<open>forkret\<close>. The other fields of the slot, the
  other entries and the other pages do not change, the counter of process ids is one past the id given out, the page is no longer
  free, and everything else of the kernel state is as before.
\<close>

theorem allocproc_success:
  assumes slot: "p < NPROC" "p_state (pt_procs s p) = UNUSED"
      "\<And>i. i < p \<Longrightarrow> p_state (pt_procs s i) \<noteq> UNUSED"
    and pages: "free_pages s (k # ks)"
    and locks: "PtableLock \<notin> k_held s" "KmemLock \<notin> k_held s"
  shows "\<exists>s'. allocproc s = Ret (Some p) s' \<and>
    pt_procs s' = (pt_procs s)(p := (pt_procs s p)\<lparr>p_state := EMBRYO, p_pid := next_pid (pt_nextpid s), p_kstack := k,
      p_tf := k + 4096 - 76, p_context := k + 4096 - 76 - 4 - 20\<rparr>) \<and>
    pt_nextpid s' = next_pid (pt_nextpid s) + 1 \<and>
    load32 (k_mem s') (p_tf (pt_procs s' p) - 4) = pt_trapret s \<and>
    load32 (k_mem s') (p_context (pt_procs s' p) + 16) = pt_forkret s \<and>
    (\<forall>x. \<not> in_page k x \<longrightarrow> k_mem s' x = k_mem s x) \<and>
    free_pages s' ks \<and>
    s' = s\<lparr>pt_procs := pt_procs s', pt_nextpid := pt_nextpid s', k_mem := k_mem s', k_freelist := k_freelist s'\<rparr>"
proof -
  let ?m = "kstack_mem (k_mem s) k (pt_trapret s) (pt_forkret s)"
  have "List.find (\<lambda>i. p_state (pt_procs s i) = UNUSED) [0..<NPROC] = Some p"
    using slot by (simp add: find_upt_Some)
  note eq = allocproc_eq [OF this locks]
  have k: "k_freelist s = k" "k \<noteq> 0" "chain (k_mem s) (load32 (k_mem s) k) ks" "page_aligned k"
    "k \<notin> set ks" "\<And>q. q \<in> set ks \<Longrightarrow> page_aligned q"
    using pages by (auto simp: free_pages_def valid_page_def)
  have "chain ?m f ks = chain (k_mem s) f ks" for f
    using k(4-6) by (intro chain_cong load32_outside [of _ k]) (auto simp: kstack_mem_outside)
  then show ?thesis
    using k pages
    by (auto simp: eq Let_def kstack_mem_outside kstack_mem_words
      free_pages_def valid_page_def)
qed

definition blank_proc :: proc where
  "blank_proc = \<lparr>p_sz = 0, p_pgdir = 0, p_kstack = 0, p_state = UNUSED, p_pid = 0, p_parent = None,
     p_tf = 0, p_context = 0, p_chan = None, p_killed = False, p_ofile = (\<lambda>_. None), p_cwd = None,
     p_name = (\<lambda>_. 0), p_thread = (\<lambda>_. 0), p_thread_p = (\<lambda>_. 0), p_tid = 0, p_osz = 0, p_mtid = 0,
     p_retval = 0\<rparr>"

text \<open>The table at boot, with one free page.\<close>

definition boot_ptable :: ptable where
  "boot_ptable = kmem.extend one_page_kmem
     (ptable.fields (\<lambda>_. blank_proc) None None 1 0 2148536320 2148540416 2150629376 0)"

lemma boot_ptable_simps [simp]:
  "k_held boot_ptable = {}" "pt_procs boot_ptable = (\<lambda>_. blank_proc)" "pt_nextpid boot_ptable = 1"
  "p_state blank_proc = UNUSED" "p_pid blank_proc = 0" "pt_cur boot_ptable = None"
  "k_freelist boot_ptable = 2151677952" "p_killed blank_proc = False"
  "free_pages boot_ptable [2151677952]"
  by (simp_all add: boot_ptable_def one_page_kmem_def blank_proc_def ptable.defs kmem.defs free_pages_def
    load32_def join32_def valid_page_def page_aligned_def V2P_def)

theorem allocproc_success_witness:
  "\<exists>s'. allocproc boot_ptable = Ret (Some 0) s' \<and> p_pid (pt_procs s' 0) = 1 \<and> free_pages s' []"
  using allocproc_success [of 0 boot_ptable 2151677952 "[]"] by (auto simp: next_pid_def)

text \<open>
  C37. Process ids stay between 0 and 10000 whatever \<^verbatim>\<open>allocproc\<close> does (success, no free slot, no
  memory), so a process id is always an index inside the scheduler's tables of \<^verbatim>\<open>NSTRIDE\<close> = 20000
  entries, and the counter never overflows.
\<close>

definition pids_ok :: "'z ptable_scheme \<Rightarrow> bool" where
  "pids_ok s \<longleftrightarrow> 1 \<le> pt_nextpid s \<and> pt_nextpid s \<le> 10001 \<and>
     (\<forall>i < NPROC. 0 \<le> p_pid (pt_procs s i) \<and> p_pid (pt_procs s i) \<le> 10000)"

theorem allocproc_pids_ok:
  assumes "pids_ok s" and "PtableLock \<notin> k_held s" and "KmemLock \<notin> k_held s"
  shows "\<exists>r s'. allocproc s = Ret r s' \<and> pids_ok s'"
proof (cases "List.find (\<lambda>i. p_state (pt_procs s i) = UNUSED) [0..<NPROC]")
  case None
  then show ?thesis using assms allocproc_none [of s] by (simp add: find_upt_None)
next
  case (Some p)
  show ?thesis
    using assms by (auto simp: allocproc_eq [OF Some assms(2,3)] Let_def pids_ok_def next_pid_def)
qed

theorem allocproc_pids_ok_witness:
  "pids_ok boot_ptable \<and> (\<exists>r s'. allocproc boot_ptable = Ret r s' \<and> pids_ok s')"
  using allocproc_pids_ok [of boot_ptable] by (simp add: pids_ok_def)

text \<open>
  C36. \<^verbatim>\<open>wakeup\<close> makes exactly the processes that sleep on the channel runnable: for every slot of the
  table the state afterwards is \<^verbatim>\<open>RUNNABLE\<close> if the process slept on this channel and unchanged
  otherwise, and nothing else of the kernel state changes.
\<close>

theorem wakeup_exact:
  assumes "PtableLock \<notin> k_held s"
  shows "\<exists>s'. wakeup c s = Ret () s' \<and> s' = s\<lparr>pt_procs := pt_procs s'\<rparr> \<and>
    (\<forall>i. pt_procs s' i = (if i < NPROC \<and> p_state (pt_procs s i) = SLEEPING \<and> p_chan (pt_procs s i) = Some c
                          then (pt_procs s i)\<lparr>p_state := RUNNABLE\<rparr> else pt_procs s i))"
  using assms by (simp add: wakeup_eq wake_proc_def)

theorem wakeup_exact_witness:
  "\<exists>s'. wakeup ChanLog (upd_proc 5 (\<lambda>q. q\<lparr>p_state := SLEEPING, p_chan := Some ChanLog\<rparr>) boot_ptable) = Ret () s' \<and>
     p_state (pt_procs s' 5) = RUNNABLE"
  using wakeup_exact [of "upd_proc 5 (\<lambda>q. q\<lparr>p_state := SLEEPING, p_chan := Some ChanLog\<rparr>) boot_ptable" ChanLog]
  by auto

text \<open>What can rouse a sleeping process: calls of \<^verbatim>\<open>wakeup\<close> and of \<^verbatim>\<open>kill\<close> by others.\<close>

datatype rouser = Woken chan | Killed int

fun rouse :: "rouser \<Rightarrow> ('z ptable_scheme, unit) kop" where
  "rouse (Woken c) = wakeup c"
| "rouse (Killed pid) = seqK (kill pid) (retK ())"

text \<open>The calls that are meant for process \<open>p\<close> asleep on \<open>c\<close>: a wake-up of the channel, and a \<^verbatim>\<open>kill\<close> that finds the process.\<close>

fun rouses :: "'z ptable_scheme \<Rightarrow> nat \<Rightarrow> chan \<Rightarrow> rouser \<Rightarrow> bool" where
  "rouses s p c (Woken d) \<longleftrightarrow> d = c"
| "rouses s p c (Killed pid) \<longleftrightarrow> List.find (\<lambda>i. p_pid (pt_procs s i) = pid) [0..<NPROC] = Some p"

lemma kill_eq:
  assumes "PtableLock \<notin> k_held s"
  shows "kill pid s =
    (case List.find (\<lambda>i. p_pid (pt_procs s i) = pid) [0..<NPROC] of
       Some p \<Rightarrow> Ret 0 (upd_proc p (\<lambda>q. q\<lparr>p_killed := True,
         p_state := (if p_state q = SLEEPING then RUNNABLE else p_state q)\<rparr>) s)
     | None \<Rightarrow> Ret (- 1) s)"
proof -
  have "(if p_state q = SLEEPING then q\<lparr>p_killed := True, p_state := RUNNABLE\<rparr> else q\<lparr>p_killed := True\<rparr>) =
      q\<lparr>p_killed := True, p_state := (if p_state q = SLEEPING then RUNNABLE else p_state q)\<rparr>" for q
    by (cases q) simp
  then show ?thesis
    using assms by (simp add: kill_def kop_simps split: option.split)
qed

lemma rouses_cong:
  assumes "\<forall>i. p_pid (pt_procs u i) = p_pid (pt_procs s i)"
  shows "rouses u p c = rouses s p c"
proof
  fix e show "rouses u p c e = rouses s p c e" using assms by (cases e) simp_all
qed

definition awaiting :: "nat \<Rightarrow> chan \<Rightarrow> bool \<Rightarrow> 'z ptable_scheme \<Rightarrow> bool" where
  "awaiting p c up s \<longleftrightarrow> k_held s = {} \<and> p_chan (pt_procs s p) = Some c \<and> p_state (pt_procs s p) = (if up then RUNNABLE else SLEEPING)"

lemma rouse_step:
  assumes "awaiting p c up s" "p < NPROC"
  shows "\<exists>t. rouse e s = Ret () t \<and> awaiting p c (up \<or> rouses s p c e) t \<and> (\<forall>i. p_pid (pt_procs t i) = p_pid (pt_procs s i))"
proof (cases e)
  case (Woken d)
  then show ?thesis using assms by (auto simp: wakeup_eq wake_proc_def awaiting_def)
next
  case (Killed pid)
  then show ?thesis using assms
    by (cases "List.find (\<lambda>i. p_pid (pt_procs s i) = pid) [0..<NPROC]") (auto simp: kill_eq awaiting_def kop_simps)
qed

lemma rouse_steps:
  assumes "awaiting p c up s" "p < NPROC"
  shows "\<exists>t. forK es rouse s = Ret () t \<and> awaiting p c (up \<or> (\<exists>e \<in> set es. rouses s p c e)) t"
  using assms(1)
proof (induction es arbitrary: s up)
  case Nil
  then show ?case by (simp add: kop_simps)
next
  case (Cons e es)
  from rouse_step [OF Cons.prems assms(2), of e] obtain u where
    u: "rouse e s = Ret () u" "awaiting p c (up \<or> rouses s p c e) u" "\<forall>i. p_pid (pt_procs u i) = p_pid (pt_procs s i)" by blast
  have "rouses u p c = rouses s p c" by (rule rouses_cong [OF u(3)])
  with Cons.IH [OF u(2)] u(1) show ?case by (auto simp: kop_simps)
qed

text \<open>
  C23. The hand-over in \<^verbatim>\<open>sleep\<close>: called with exactly its lock held, it ends in the scheduler with
  \<^verbatim>\<open>ptable.lock\<close> held instead, so that a waker that needs the lock can run. When the scheduler has released that lock and others
  make any sequence of calls of \<^verbatim>\<open>wakeup\<close> and \<^verbatim>\<open>kill\<close>, the process is runnable afterwards if one of the calls was a wake-up of its
  channel or a \<^verbatim>\<open>kill\<close> that finds it, and is still asleep otherwise. When it is switched to again it leaves
  \<^verbatim>\<open>sleep\<close> with exactly its lock held and no channel.
\<close>

theorem sleep_wakeup_handover:
  fixes s :: "'z ptable_scheme"
  assumes "k_held s = {lk}" and "pt_cur s = Some p" and "p < NPROC"
  shows "\<exists>s1 s2 s3. sleep c (Some lk) s = Sleep s1 \<and> k_held s1 = {PtableLock} \<and>
    forK es rouse (s1\<lparr>k_held := {}, pt_cur := None\<rparr>) = Ret () s2 \<and>
    p_state (pt_procs s2 p) = (if \<exists>e \<in> set es. rouses s p c e then RUNNABLE else SLEEPING) \<and>
    sleep_wake lk (s2\<lparr>k_held := {PtableLock}, pt_cur := Some p\<rparr>) = Ret () s3 \<and> k_held s3 = {lk} \<and> p_chan (pt_procs s3 p) = None"
proof -
  define s1 where "s1 = upd_proc p (\<lambda>q. q\<lparr>p_chan := Some c, p_state := SLEEPING\<rparr>)
    (s\<lparr>k_held := {PtableLock}\<rparr>)"
  define u where "u = s1\<lparr>k_held := {}, pt_cur := None\<rparr>"
  have s1: "sleep c (Some lk) s = Sleep s1" "k_held s1 = {PtableLock}" using assms by (simp_all add: sleep_eq s1_def)
  have "awaiting p c False u" by (simp add: awaiting_def u_def s1_def)
  from rouse_steps [OF this assms(3), of es] obtain s2 where
    s2: "forK es rouse u = Ret () s2" "awaiting p c (\<exists>e \<in> set es. rouses u p c e) s2" by auto
  have "rouses u p c = rouses s p c" by (rule rouses_cong) (simp add: u_def s1_def)
  then have st: "p_state (pt_procs s2 p) = (if \<exists>e \<in> set es. rouses s p c e then RUNNABLE else SLEEPING)"
    using s2(2) by (simp add: awaiting_def)
  have "{lk, PtableLock} - {PtableLock} = {lk} \<or> lk = PtableLock" by auto
  then have "\<exists>s3. sleep_wake lk (s2\<lparr>k_held := {PtableLock}, pt_cur := Some p\<rparr>) = Ret () s3 \<and> k_held s3 = {lk} \<and> p_chan (pt_procs s3 p) = None"
    by (cases "lk = PtableLock") (simp_all add: sleep_wake_def myproc_def kop_simps)
  then show ?thesis using s1 s2(1) st unfolding u_def by blast
qed

theorem sleep_wakeup_handover_witness:
  "\<exists>s1 s2. sleep ChanLog (Some LogLock) (boot_ptable\<lparr>k_held := {LogLock}, pt_cur := Some 3\<rparr>) = Sleep s1 \<and>
     k_held s1 = {PtableLock} \<and>
     forK [Woken ChanTicks, Killed 0, Woken ChanLog] rouse (s1\<lparr>k_held := {}, pt_cur := None\<rparr>) = Ret () s2 \<and>
     p_state (pt_procs s2 3) = RUNNABLE"
  using sleep_wakeup_handover [of "boot_ptable\<lparr>k_held := {LogLock}, pt_cur := Some 3\<rparr>" LogLock 3 ChanLog
    "[Woken ChanTicks, Killed 0, Woken ChanLog]"]
  by fastforce

text \<open>Unused entries have process id 0 and \<^verbatim>\<open>kill\<close> does not look at the state, so \<^verbatim>\<open>kill(0)\<close> succeeds at
  boot, and the process later allocated in that slot starts its life killed.\<close>

lemma kill_zero_marks_unused:
  "\<exists>s1 s2. kill 0 boot_ptable = Ret 0 s1 \<and> allocproc s1 = Ret (Some 0) s2 \<and> p_killed (pt_procs s2 0)"
proof -
  have "List.find (\<lambda>i. p_pid (pt_procs boot_ptable i) = 0) [0..<NPROC] = Some 0" by (simp add: find_upt_Some)
  then have k: "kill 0 boot_ptable = Ret 0 (upd_proc 0 (\<lambda>q. q\<lparr>p_killed := True\<rparr>) boot_ptable)" (is "_ = Ret 0 ?s1")
    by (simp add: kill_def kop_simps upd_proc_def)
  have "List.find (\<lambda>i. p_state (pt_procs ?s1 i) = UNUSED) [0..<NPROC] = Some 0" by (simp add: find_upt_Some)
  from allocproc_eq [OF this] show ?thesis by (simp add: k Let_def)
qed

end
