(* ===== verification/Sched.thy ===== *)
theory Sched
  imports Proc
begin

text \<open>
  The scheduler of \<^verbatim>\<open>proc.c\<close>: stride scheduling over the processes that asked for a CPU share, with
  entry 0 standing for all others, and the multi-level feedback queue meant for those others. The
  tables \<^verbatim>\<open>stride_table\<close>, \<^verbatim>\<open>mlfq\<close> and \<^verbatim>\<open>mlfq_lev\<close> and the counters extend the process table; a
  \<^verbatim>\<open>struct mlfq *\<close> is an index into \<^verbatim>\<open>mlfq\<close>. The scheduler's loop body is cut at \<^verbatim>\<open>swtch\<close> into the part
  that picks a process and the part that runs when the process comes back.
\<close>

section \<open>State\<close>

record stride_ent =
  st_pid :: int
  st_share :: int
  st_full :: int
  st_path :: int
  st_is_stride :: int
  st_proc :: "nat option"

record mlfq_ent =
  ml_my_tick :: int
  ml_spare_tick :: int
  ml_sum_tick :: int
  ml_is_mlfq :: int
  ml_lev :: int
  ml_run :: int
  ml_prev :: "nat option"
  ml_next :: "nat option"
  ml_proc :: "nat option"

record mlfq_level =
  lv_able_tick :: int
  lv_rr_tick_limit :: int
  lv_rr_tick :: int
  lv_size :: int
  lv_next :: "nat option"
  lv_head :: "nat option"
  lv_end :: "nat option"

record schedst = ptable +
  sc_stride :: "nat \<Rightarrow> stride_ent"
  sc_mlfq :: "nat \<Rightarrow> mlfq_ent"
  sc_lev :: "nat \<Rightarrow> mlfq_level"
  sc_table_size :: int
  sc_max_pid :: int
  sc_max_sum :: int
  sc_tick_mlfq :: int

definition upd_st :: "nat \<Rightarrow> (stride_ent \<Rightarrow> stride_ent) \<Rightarrow> 'z schedst_scheme \<Rightarrow> 'z schedst_scheme" where
  "upd_st i f s = s\<lparr>sc_stride := (sc_stride s)(i := f (sc_stride s i))\<rparr>"

definition upd_ml :: "nat \<Rightarrow> (mlfq_ent \<Rightarrow> mlfq_ent) \<Rightarrow> 'z schedst_scheme \<Rightarrow> 'z schedst_scheme" where
  "upd_ml i f s = s\<lparr>sc_mlfq := (sc_mlfq s)(i := f (sc_mlfq s i))\<rparr>"

definition upd_lv :: "nat \<Rightarrow> (mlfq_level \<Rightarrow> mlfq_level) \<Rightarrow> 'z schedst_scheme \<Rightarrow> 'z schedst_scheme" where
  "upd_lv i f s = s\<lparr>sc_lev := (sc_lev s)(i := f (sc_lev s i))\<rparr>"

text \<open>\<^verbatim>\<open>p->pid\<close> as an index of the tables.\<close>

definition pidx :: "'z schedst_scheme \<Rightarrow> nat \<Rightarrow> nat" where
  "pidx s p = nat (p_pid (pt_procs s p))"

lemma upd_st_simps [simp]:
  "sc_stride (upd_st i f s) = (sc_stride s)(i := f (sc_stride s i))" "sc_mlfq (upd_st i f s) = sc_mlfq s"
  "sc_lev (upd_st i f s) = sc_lev s" "sc_max_pid (upd_st i f s) = sc_max_pid s"
  "sc_max_sum (upd_st i f s) = sc_max_sum s" "sc_table_size (upd_st i f s) = sc_table_size s"
  "sc_tick_mlfq (upd_st i f s) = sc_tick_mlfq s"
  "pt_procs (upd_st i f s) = pt_procs s" "pt_cur (upd_st i f s) = pt_cur s" "k_held (upd_st i f s) = k_held s"
  by (simp_all add: upd_st_def)

lemma upd_ml_simps [simp]:
  "sc_stride (upd_ml i g s) = sc_stride s" "sc_mlfq (upd_ml i g s) = (sc_mlfq s)(i := g (sc_mlfq s i))"
  "sc_lev (upd_ml i g s) = sc_lev s" "sc_max_pid (upd_ml i g s) = sc_max_pid s"
  "sc_max_sum (upd_ml i g s) = sc_max_sum s" "sc_table_size (upd_ml i g s) = sc_table_size s"
  "sc_tick_mlfq (upd_ml i g s) = sc_tick_mlfq s"
  "pt_procs (upd_ml i g s) = pt_procs s" "pt_cur (upd_ml i g s) = pt_cur s" "k_held (upd_ml i g s) = k_held s"
  by (simp_all add: upd_ml_def)

lemma upd_lv_simps [simp]:
  "sc_stride (upd_lv i h s) = sc_stride s" "sc_mlfq (upd_lv i h s) = sc_mlfq s"
  "sc_lev (upd_lv i h s) = (sc_lev s)(i := h (sc_lev s i))" "sc_max_pid (upd_lv i h s) = sc_max_pid s"
  "sc_max_sum (upd_lv i h s) = sc_max_sum s" "sc_table_size (upd_lv i h s) = sc_table_size s"
  "sc_tick_mlfq (upd_lv i h s) = sc_tick_mlfq s"
  "pt_procs (upd_lv i h s) = pt_procs s" "pt_cur (upd_lv i h s) = pt_cur s" "k_held (upd_lv i h s) = k_held s"
  by (simp_all add: upd_lv_def)

lemma pidx_upd [simp]:
  "pidx (upd_st i f s) p = pidx s p" "pidx (upd_ml i g s) p = pidx s p" "pidx (upd_lv i h s) p = pidx s p"
  by (simp_all add: pidx_def)

section \<open>The multi-level feedback queue\<close>

definition MLFQ_in :: "nat \<Rightarrow> nat \<Rightarrow> int \<Rightarrow> 'z schedst_scheme \<Rightarrow> 'z schedst_scheme" where
  "MLFQ_in p level code s =
     (case (lv_head (sc_lev s level), lv_end (sc_lev s level)) of
        (Some h, Some en) \<Rightarrow>
          let i = pidx s p;
              s = (if code = 0
                   then upd_ml i (\<lambda>m. m\<lparr>ml_my_tick := 0, ml_sum_tick := 0, ml_is_mlfq := 1,
                                      ml_lev := int level, ml_proc := Some p\<rparr>) s
                   else s);
              s = (if lv_size (sc_lev s level) = 0
                   then upd_lv level (\<lambda>l. l\<lparr>lv_end := Some i, lv_head := Some i\<rparr>)
                          (upd_ml i (\<lambda>m. m\<lparr>ml_prev := Some i, ml_next := Some i\<rparr>) s)
                   else upd_lv level (\<lambda>l. l\<lparr>lv_end := Some i\<rparr>)
                          (upd_ml en (\<lambda>m. m\<lparr>ml_next := Some i\<rparr>)
                          (upd_ml h (\<lambda>m. m\<lparr>ml_prev := Some i\<rparr>)
                          (upd_ml i (\<lambda>m. m\<lparr>ml_prev := Some en, ml_next := Some h\<rparr>) s))))
          in upd_lv level (\<lambda>l. l\<lparr>lv_size := wrap_int (lv_size l + 1)\<rparr>) s
      | _ \<Rightarrow> s)"

text \<open>The part of \<^verbatim>\<open>MLFQ_out\<close> after the queue has been shortened.\<close>

definition MLFQ_out_entry :: "nat \<Rightarrow> nat \<Rightarrow> int \<Rightarrow> ('z schedst_scheme, unit) kop" where
  "MLFQ_out_entry p level code = (\<lambda>s.
     let i = pidx s p in
     if code = 0
     then Ret () (upd_ml i (\<lambda>m. m\<lparr>ml_my_tick := 0, ml_sum_tick := 0, ml_next := None, ml_prev := None,
                                ml_is_mlfq := - 1, ml_lev := - 1, ml_run := 0\<rparr>) s)
     else Ret () (MLFQ_in p level 1 (upd_ml i (\<lambda>m. m\<lparr>ml_next := None, ml_prev := None\<rparr>) s)))"

definition MLFQ_out :: "nat \<Rightarrow> nat \<Rightarrow> int \<Rightarrow> ('z schedst_scheme, unit) kop" where
  "MLFQ_out p level code = (\<lambda>s.
     if lv_size (sc_lev s level) \<le> 0 then Ret () s
     else if lv_size (sc_lev s level) = 1
     then MLFQ_out_entry p level code
            (upd_lv level (\<lambda>l. l\<lparr>lv_size := lv_size l - 1, lv_end := None, lv_head := None\<rparr>) s)
     else (case lv_head (sc_lev s level) of
         None \<Rightarrow> Ret () s
       | Some h \<Rightarrow>
           let nh = ml_next (sc_mlfq s h);
               s = upd_lv level (\<lambda>l. l\<lparr>lv_size := lv_size l - 1, lv_head := nh\<rparr>) s in
           derefK (lv_end (sc_lev s level)) (\<lambda>en s.
             let s = upd_ml en (\<lambda>m. m\<lparr>ml_next := nh\<rparr>) s in
             derefK nh (\<lambda>h s.
               MLFQ_out_entry p level code (upd_ml h (\<lambda>m. m\<lparr>ml_prev := Some en\<rparr>) s)) s) s))"


text \<open>A queue never gets longer by taking a process out, nor does another level's queue by putting
  one in: the loops of \<^verbatim>\<open>MLFQ\<close>, which compare a counter with the current size, end.\<close>

lemma MLFQ_in_size_other: "l \<noteq> level \<Longrightarrow> lv_size (sc_lev (MLFQ_in p level code s) l) = lv_size (sc_lev s l)"
  by (simp add: MLFQ_in_def Let_def split: option.split)

lemma MLFQ_in_size_le:
  "- 2147483648 \<le> lv_size (sc_lev s level) \<Longrightarrow>
   lv_size (sc_lev (MLFQ_in p level code s) level) \<le> lv_size (sc_lev s level) + 1"
  using wrap_int_range [of "lv_size (sc_lev s level) + 1"]
  by (cases "lv_size (sc_lev s level) + 1 < 2147483648")
    (auto simp: MLFQ_in_def Let_def split: option.split)

lemma MLFQ_out_entry_size_le:
  assumes "MLFQ_out_entry p level code s = Ret u s'" and "- 2147483648 \<le> lv_size (sc_lev s level)"
  shows "lv_size (sc_lev s' level) \<le> lv_size (sc_lev s level) + 1"
  using assms MLFQ_in_size_le [of "upd_ml (pidx s p) (\<lambda>m. m\<lparr>ml_next := None, ml_prev := None\<rparr>) s" level p 1]
  by (auto simp: MLFQ_out_entry_def Let_def split: if_splits)

lemma MLFQ_out_size_le:
  assumes "MLFQ_out p level code s = Ret u s'"
  shows "lv_size (sc_lev s' level) \<le> lv_size (sc_lev s level)"
proof (cases "lv_size (sc_lev s level) \<le> 0")
  case True
  then show ?thesis using assms by (simp add: MLFQ_out_def)
next
  case False
  then show ?thesis using assms
    by (auto simp: MLFQ_out_def Let_def panic_def derefK_def split: if_splits option.splits
      dest!: MLFQ_out_entry_size_le)
qed

text \<open>The first loop of \<^verbatim>\<open>MLFQ\<close>: the boost of level \<open>i\<close> back to level 0. The source runs it for levels 1
  and 2 only; the loop of the model stops at once for level 0, where it would not end.\<close>

definition boost_body :: "nat \<Rightarrow> ('z schedst_scheme, unit) kop" where
  "boost_body i = (\<lambda>s.
     case lv_head (sc_lev s i) of
       None \<Rightarrow> Ret () s
     | Some h \<Rightarrow>
         let s = upd_ml h (\<lambda>m. m\<lparr>ml_run := 0\<rparr>) s in
         derefK (ml_proc (sc_mlfq s h)) (\<lambda>p.
           seqK (MLFQ_out p i 0) (modifyK (MLFQ_in p 0 0))) s)"

lemma boost_body_size_le:
  assumes "boost_body i s = Ret u s'" and "i \<noteq> 0"
  shows "lv_size (sc_lev s' i) \<le> lv_size (sc_lev s i)"
proof (cases "s' = s")
  case False
  then obtain h p t where "MLFQ_out p i 0 (upd_ml h (\<lambda>m. m\<lparr>ml_run := 0\<rparr>) s) = Ret () t" "s' = MLFQ_in p 0 0 t"
    using assms(1)
    by (auto simp: boost_body_def Let_def kop_simps derefK_def split: option.splits outcome.splits)
  then show ?thesis
    using MLFQ_out_size_le [of p i 0 "upd_ml h (\<lambda>m. m\<lparr>ml_run := 0\<rparr>) s"] assms(2)
    by (simp add: MLFQ_in_size_other)
qed simp

function boost_loop :: "nat \<Rightarrow> int \<Rightarrow> ('z schedst_scheme, unit) kop" where
  "boost_loop i p s =
     (if i \<noteq> 0 \<and> p < lv_size (sc_lev s i)
      then (case boost_body i s of
              Ret _ s' \<Rightarrow> boost_loop i (p + 1) s'
            | Sleep s' \<Rightarrow> Sleep s' | Panic e \<Rightarrow> Panic e)
      else Ret () s)"
  by pat_completeness auto
termination
proof (relation "measure (\<lambda>(i, p, s). nat (lv_size (sc_lev s i) - p))")
  fix i :: nat and p :: int and s s' :: "'z schedst_scheme" and u :: unit
  assume "i \<noteq> 0 \<and> p < lv_size (sc_lev s i)" "boost_body i s = Ret u s'"
  then show "((i, p + 1, s'), i, p, s) \<in> measure (\<lambda>(i, p, s). nat (lv_size (sc_lev s i) - p))"
    using boost_body_size_le [of i s u s'] by auto
qed simp

text \<open>The loop at the start of each level that rotates past processes that are not runnable.\<close>

definition rotate_body :: "nat \<Rightarrow> ('z schedst_scheme, unit) kop" where
  "rotate_body i = (\<lambda>s.
     case lv_head (sc_lev s i) of
       None \<Rightarrow> Ret () s
     | Some h \<Rightarrow>
         derefK (ml_proc (sc_mlfq s h)) (\<lambda>p s.
           if p_state (pt_procs s p) \<noteq> RUNNABLE
           then MLFQ_out p i 1 (upd_ml h (\<lambda>m. m\<lparr>ml_run := 0\<rparr>) s)
           else Ret () s) s)"

lemma rotate_body_size_le:
  assumes "rotate_body i s = Ret u s'"
  shows "lv_size (sc_lev s' i) \<le> lv_size (sc_lev s i)"
proof (cases "s' = s")
  case False
  then obtain h p where "MLFQ_out p i 1 (upd_ml h (\<lambda>m. m\<lparr>ml_run := 0\<rparr>) s) = Ret u s'"
    using assms by (auto simp: rotate_body_def derefK_def panic_def split: option.splits if_splits)
  then show ?thesis using MLFQ_out_size_le [of p i 1 "upd_ml h (\<lambda>m. m\<lparr>ml_run := 0\<rparr>) s"] by simp
qed simp

function rotate_loop :: "nat \<Rightarrow> int \<Rightarrow> ('z schedst_scheme, unit) kop" where
  "rotate_loop i p s =
     (if p < lv_size (sc_lev s i)
      then (case rotate_body i s of
              Ret _ s' \<Rightarrow> rotate_loop i (p + 1) s'
            | Sleep s' \<Rightarrow> Sleep s' | Panic e \<Rightarrow> Panic e)
      else Ret () s)"
  by pat_completeness auto
termination
proof (relation "measure (\<lambda>(i, p, s). nat (lv_size (sc_lev s i) - p))")
  fix i :: nat and p :: int and s s' :: "'z schedst_scheme" and u :: unit
  assume "p < lv_size (sc_lev s i)" "rotate_body i s = Ret u s'"
  then show "((i, p + 1, s'), i, p, s) \<in> measure (\<lambda>(i, p, s). nat (lv_size (sc_lev s i) - p))"
    using rotate_body_size_le [of i s u s'] by auto
qed simp

declare boost_loop.simps [simp del] rotate_loop.simps [simp del]

text \<open>One turn of the second loop of \<^verbatim>\<open>MLFQ\<close>: \<^term>\<open>None\<close> is \<^verbatim>\<open>continue\<close>, \<^term>\<open>Some q\<close> is \<^verbatim>\<open>return q\<close>.\<close>

definition MLFQ_level :: "nat \<Rightarrow> ('z schedst_scheme, nat option option) kop" where
  "MLFQ_level i = (\<lambda>s.
     if lv_size (sc_lev s i) \<le> 0 then Ret None s
     else seqK (rotate_loop i 0)
       (bindK (getK (\<lambda>s. lv_head (sc_lev s i))) (\<lambda>h. derefK h (\<lambda>h.
        bindK (getK (\<lambda>s. ml_proc (sc_mlfq s h))) (\<lambda>p. derefK p (\<lambda>p s.
        if p_state (pt_procs s p) \<noteq> RUNNABLE then Ret None s
        else
          seqK (\<lambda>s.
            if lv_size (sc_lev s i) > 1 \<and> ml_run (sc_mlfq s h) = 1 \<and>
               lv_rr_tick (sc_lev s i) \<ge> lv_rr_tick_limit (sc_lev s i)
            then MLFQ_out p i 1
                   (upd_lv i (\<lambda>l. l\<lparr>lv_rr_tick := 0\<rparr>) (upd_ml h (\<lambda>m. m\<lparr>ml_run := 0\<rparr>) s))
            else Ret () (upd_ml h (\<lambda>m. m\<lparr>ml_run := 0\<rparr>) s))
          (bindK (getK (\<lambda>s. lv_head (sc_lev s i))) (\<lambda>h. derefK h (\<lambda>h.
           seqK (modifyK (upd_ml h (\<lambda>m. m\<lparr>ml_run := 1\<rparr>)))
          (seqK (modifyK (upd_lv i (\<lambda>l. l\<lparr>lv_rr_tick := wrap_int (lv_rr_tick l + 1)\<rparr>)))
                (getK (\<lambda>s. Some (ml_proc (sc_mlfq s h)))))))) s))))) s)"

definition MLFQ_boost :: "nat \<Rightarrow> ('z schedst_scheme, unit) kop" where
  "MLFQ_boost i = (\<lambda>s.
     if lv_head (sc_lev s i) = None \<or> lv_size (sc_lev s i) \<le> 0 then Ret () s else boost_loop i 0 s)"

definition MLFQ :: "('z schedst_scheme, nat option) kop" where
  "MLFQ =
     seqK (modifyK (\<lambda>s. s\<lparr>sc_tick_mlfq := wrap_int (sc_tick_mlfq s + 1)\<rparr>))
    (seqK (\<lambda>s. whenK (sc_tick_mlfq s mod 100 = 0) (forK [1, 2] MLFQ_boost) s)
    (bindK (MLFQ_level 0) (\<lambda>r0. case r0 of Some q \<Rightarrow> retK q | None \<Rightarrow>
     bindK (MLFQ_level 1) (\<lambda>r1. case r1 of Some q \<Rightarrow> retK q | None \<Rightarrow>
     bindK (MLFQ_level 2) (\<lambda>r2. case r2 of Some q \<Rightarrow> retK q | None \<Rightarrow> retK None)))))"

section \<open>Stride scheduling\<close>

text \<open>A share of 0 makes the division trap, which panics in the kernel (\<^verbatim>\<open>trap.c\<close>).\<close>

definition stride :: "nat \<Rightarrow> ('z schedst_scheme, nat option) kop" where
  "stride destination = (\<lambda>s.
     if st_share (sc_stride s destination) < 0 then Panic ''no!''
     else if st_share (sc_stride s destination) = 0 then Panic ''trap''
     else
       let s = upd_st destination (\<lambda>e. e\<lparr>st_path := wrap_int (st_path e + 10000 div st_share e)\<rparr>) s
       in Ret (st_proc (sc_stride s destination)) s)"

fun path_scan :: "(nat \<Rightarrow> stride_ent) \<Rightarrow> nat list \<Rightarrow> nat \<Rightarrow> int \<Rightarrow> nat" where
  "path_scan t [] destination minimum = destination"
| "path_scan t (i # is) destination minimum =
     (if i = 1 \<or> i = 2 then path_scan t is destination minimum
      else if st_full (t i) = 1 \<and> st_path (t i) < minimum then path_scan t is i (st_path (t i))
      else path_scan t is destination minimum)"

definition path_cal :: "'z schedst_scheme \<Rightarrow> nat" where
  "path_cal s = path_scan (sc_stride s) [0..<nat (sc_max_pid s + 1)] 0 2147483647"

definition set_table :: "int \<Rightarrow> ('z schedst_scheme, unit) kop" where
  "set_table input = (\<lambda>s.
     if sc_max_pid s > NSTRIDE - 1 then Ret () s
     else if wrap_int (sc_max_sum s + input) > 80 then Ret () s
     else derefK (pt_cur s) (\<lambda>p s.
       let s = s\<lparr>sc_max_sum := wrap_int (sc_max_sum s + input)\<rparr>;
           s = s\<lparr>sc_table_size := sc_table_size s + 1\<rparr>;
           pid = p_pid (pt_procs s p);
           s = (if sc_max_pid s < pid then s\<lparr>sc_max_pid := pid\<rparr> else s);
           s = upd_st 0 (\<lambda>e. e\<lparr>st_share := wrap_int (100 - sc_max_sum s)\<rparr>) s;
           s = upd_st (nat pid) (\<lambda>e. e\<lparr>st_share := input, st_pid := pid, st_full := 1, st_path := 0,
                                     st_proc := Some p, st_is_stride := 1\<rparr>) s
       in forK [0..<nat (sc_max_pid s)] (\<lambda>i. modifyK (upd_st i (\<lambda>e. e\<lparr>st_path := 0\<rparr>))) s) s)"

definition set_cpu_share :: "int \<Rightarrow> ('z schedst_scheme, int) kop" where
  "set_cpu_share a =
     seqK (set_table a)
    (bindK myproc (\<lambda>p. derefK p (\<lambda>p s.
       if st_share (sc_stride s (pidx s p)) = a then Ret a s else Ret (- 1) s)))"

definition getlev :: "('z schedst_scheme, int) kop" where
  "getlev = bindK myproc (\<lambda>p. derefK p (\<lambda>p s. Ret (ml_lev (sc_mlfq s (pidx s p))) s))"

text \<open>Giving a process's share back, as the scheduler and \<^verbatim>\<open>thread_exit_os\<close> do it.\<close>

definition stride_drop :: "nat \<Rightarrow> 'z schedst_scheme \<Rightarrow> 'z schedst_scheme" where
  "stride_drop p s =
     (let i = pidx s p in
      if st_is_stride (sc_stride s i) = 1
      then let s = upd_st i (\<lambda>e. e\<lparr>st_full := 0, st_is_stride := 0\<rparr>) s;
               s = s\<lparr>sc_max_sum := wrap_int (sc_max_sum s - st_share (sc_stride s i)),
                     sc_table_size := sc_table_size s - 1\<rparr>
           in upd_st 0 (\<lambda>e. e\<lparr>st_share := wrap_int (100 - sc_max_sum s)\<rparr>) s
      else s)"

section \<open>The scheduler\<close>

definition scheduler_init :: "'z schedst_scheme \<Rightarrow> 'z schedst_scheme" where
  "scheduler_init s =
     (let s = s\<lparr>pt_cur := None\<rparr>;
          s = upd_st 0 (\<lambda>e. e\<lparr>st_share := 100, st_pid := 2, st_full := 1\<rparr>) s;
          s = upd_lv 0 (\<lambda>l. l\<lparr>lv_able_tick := 5\<rparr>) s;
          s = upd_lv 1 (\<lambda>l. l\<lparr>lv_able_tick := 10\<rparr>) s;
          s = upd_lv 0 (\<lambda>l. l\<lparr>lv_rr_tick_limit := 1\<rparr>) s;
          s = upd_lv 0 (\<lambda>l. l\<lparr>lv_rr_tick_limit := 2\<rparr>) s
      in upd_lv 0 (\<lambda>l. l\<lparr>lv_rr_tick_limit := 4\<rparr>) s)"

text \<open>The loop body up to \<^verbatim>\<open>swtch\<close>. The loop variable \<^verbatim>\<open>p\<close> is also the process chosen: \<open>Skip p\<close> goes on with
  the slot after \<open>p\<close>, \<open>Run p\<close> switches to \<open>p\<close>.\<close>

datatype pick = Skip nat | Run nat

definition sched_choose :: "nat \<Rightarrow> ('z schedst_scheme, nat) kop" where
  "sched_choose p = (\<lambda>s.
     let result = path_cal s in
     bindK (if result \<noteq> 0 \<and> p_pid (pt_procs s p) > 2
            then bindK (stride result) (\<lambda>q. derefK q retK)
            else retK p) (\<lambda>p s.
     if result = 0 \<and> p_pid (pt_procs s p) > 2
     then seqK (stride result) (bindK MLFQ (\<lambda>q. case q of Some q \<Rightarrow> retK q | None \<Rightarrow> retK p)) s
     else Ret p s) s)"

definition scheduler_pick :: "nat \<Rightarrow> ('z schedst_scheme, pick) kop" where
  "scheduler_pick p = (\<lambda>s.
     if p_state (pt_procs s p) \<noteq> RUNNABLE then Ret (Skip p) s
     else
       let i = pidx s p;
           s = (if ml_is_mlfq (sc_mlfq s i) = 0 \<and> st_is_stride (sc_stride s i) = 0 \<and> p_pid (pt_procs s p) > 2
                then MLFQ_in p 0 0 s else s) in
       bindK (sched_choose p) (\<lambda>p s.
         if p_state (pt_procs s p) \<noteq> RUNNABLE then Ret (Skip p) s
         else seqK (modifyK (\<lambda>s. s\<lparr>pt_cur := Some p\<rparr>))
             (seqK (switchuvm (Some p))
             (seqK (modifyK (set_state p RUNNING))
             (seqK (modifyK (\<lambda>s. upd_ml (pidx s p) (\<lambda>m. m\<lparr>ml_my_tick := wrap_int (uint (pt_ticks s))\<rparr>) s))
                   (retK (Run p))))) s) s)"

text \<open>The loop body after \<^verbatim>\<open>swtch\<close> has come back from process \<open>p\<close>.\<close>

definition scheduler_back :: "nat \<Rightarrow> ('z schedst_scheme, unit) kop" where
  "scheduler_back p =
     seqK switchkvm
    (seqK (modifyK (\<lambda>s. upd_ml (pidx s p) (\<lambda>m. m\<lparr>ml_sum_tick :=
        wrap_int (ml_sum_tick m + (uint (pt_ticks s) - ml_my_tick m))\<rparr>) s))
    (seqK (\<lambda>s.
       let i = pidx s p; m = sc_mlfq s i in
       if p_state (pt_procs s p) = ZOMBIE
       then (let s = stride_drop p s in
             if ml_is_mlfq (sc_mlfq s i) = 1 then MLFQ_out p (nat (ml_lev (sc_mlfq s i))) 0 s else Ret () s)
       else if ml_is_mlfq m = 1 \<and> st_is_stride (sc_stride s i) = 1 then MLFQ_out p (nat (ml_lev m)) 0 s
       else if ml_is_mlfq m = 1 \<and> ml_sum_tick m \<ge> lv_able_tick (sc_lev s (nat (ml_lev m)))
       then (if ml_lev m \<noteq> 2
             then (let x = nat (ml_lev m) in seqK (MLFQ_out p x 0) (modifyK (MLFQ_in p (x + 1) 0)) s)
             else Ret () s)
       else Ret () s)
    (modifyK (\<lambda>s. s\<lparr>pt_cur := None\<rparr>))))"

section \<open>The state after boot\<close>

definition boot_sched :: schedst where
  "boot_sched = scheduler_init (ptable.extend boot_ptable
     (schedst.fields (\<lambda>_. \<lparr>st_pid = 0, st_share = 0, st_full = 0, st_path = 0, st_is_stride = 0, st_proc = None\<rparr>)
       (\<lambda>_. \<lparr>ml_my_tick = 0, ml_spare_tick = 0, ml_sum_tick = 0, ml_is_mlfq = 0, ml_lev = 0, ml_run = 0,
             ml_prev = None, ml_next = None, ml_proc = None\<rparr>)
       (\<lambda>_. \<lparr>lv_able_tick = 0, lv_rr_tick_limit = 0, lv_rr_tick = 0, lv_size = 0, lv_next = None,
             lv_head = None, lv_end = None\<rparr>) 0 0 0 0))"

lemmas boot_sched_defs = boot_sched_def scheduler_init_def boot_ptable_def one_page_kmem_def
  schedst.defs ptable.defs kmem.defs

end
