(* ===== verification/Stride_Fair.thy ===== *)
theory Stride_Fair
  imports Sched "HOL-Library.Multiset"
begin

text \<open>
  Correctness of the stride part of the scheduler: \<^verbatim>\<open>path_cal\<close> finds the entry with the smallest path,
  repeated scheduling decisions divide the CPU in proportion to the shares, and \<^verbatim>\<open>set_cpu_share\<close> and
  the return of a share keep the accounts of the table.
\<close>

section \<open>The search for the smallest path\<close>

text \<open>The entries that \<^verbatim>\<open>path_cal\<close> compares.\<close>

definition candidate :: "'z schedst_scheme \<Rightarrow> nat \<Rightarrow> bool" where
  "candidate s i \<longleftrightarrow> i < nat (sc_max_pid s + 1) \<and> i \<noteq> 1 \<and> i \<noteq> 2 \<and> st_full (sc_stride s i) = 1"

lemma path_scan_cases:
  "(path_scan t is d m = d \<and> (\<forall>i \<in> set is. i \<noteq> 1 \<and> i \<noteq> 2 \<and> st_full (t i) = 1 \<longrightarrow> m \<le> st_path (t i))) \<or>
   (path_scan t is d m \<in> set is \<and> path_scan t is d m \<noteq> 1 \<and> path_scan t is d m \<noteq> 2 \<and>
    st_full (t (path_scan t is d m)) = 1 \<and> st_path (t (path_scan t is d m)) < m \<and>
    (\<forall>i \<in> set is. i \<noteq> 1 \<and> i \<noteq> 2 \<and> st_full (t i) = 1 \<longrightarrow> st_path (t (path_scan t is d m)) \<le> st_path (t i)))"
proof (induction t "is" d m rule: path_scan.induct)
  case (2 t i "is" d m)
  then show ?case by (cases "i = 1 \<or> i = 2"; cases "st_full (t i) = 1 \<and> st_path (t i) < m") auto
qed simp

lemma path_cal_none:
  "(\<forall>i. candidate s i \<longrightarrow> 2147483647 \<le> st_path (sc_stride s i)) \<Longrightarrow> path_cal s = 0"
  using path_scan_cases [of "sc_stride s" "[0..<nat (sc_max_pid s + 1)]" 0 2147483647]
  by (auto simp: path_cal_def candidate_def)

lemma path_cal_argmin:
  assumes "candidate s j" and "st_path (sc_stride s j) < 2147483647"
  shows "candidate s (path_cal s)"
    and "candidate s i \<Longrightarrow> st_path (sc_stride s (path_cal s)) \<le> st_path (sc_stride s i)"
  using path_scan_cases [of "sc_stride s" "[0..<nat (sc_max_pid s + 1)]" 0 2147483647] assms
  by (auto simp: path_cal_def candidate_def)

section \<open>Rounds of scheduling decisions\<close>

text \<open>The decision of one turn of the scheduler loop: \<^verbatim>\<open>result = path_cal()\<close> and \<^verbatim>\<open>stride(result)\<close>.\<close>

definition stride_round :: "('z schedst_scheme, nat) kop" where
  "stride_round = (\<lambda>s. let result = path_cal s in seqK (stride result) (retK result) s)"

abbreviation stride_of :: "'z schedst_scheme \<Rightarrow> nat \<Rightarrow> int" where
  "stride_of s i \<equiv> 10000 div st_share (sc_stride s i)"

definition fair :: "'z schedst_scheme \<Rightarrow> bool" where
  "fair s \<longleftrightarrow> (\<forall>i j. candidate s i \<and> candidate s j \<longrightarrow>
     st_path (sc_stride s i) - stride_of s i \<le> st_path (sc_stride s j))"

definition paths_below :: "int \<Rightarrow> 'z schedst_scheme \<Rightarrow> bool" where
  "paths_below b s \<longleftrightarrow> candidate s 0 \<and>
     (\<forall>i. candidate s i \<longrightarrow> 0 \<le> st_path (sc_stride s i) \<and> st_path (sc_stride s i) \<le> b \<and>
        0 < st_share (sc_stride s i))"

lemma stride_of_bounds:
  "0 < st_share (sc_stride s i) \<Longrightarrow> 0 \<le> stride_of s i \<and> stride_of s i \<le> 10000"
proof -
  assume sh: "0 < st_share (sc_stride s i)"
  then have "10000 div st_share (sc_stride s i) \<le> 10000 div 1"
    by (intro zdiv_mono2) simp_all
  with sh show ?thesis by (simp add: pos_imp_zdiv_nonneg_iff)
qed

lemma stride_round_step:
  assumes below: "paths_below b s" and fair: "fair s" and b: "b + 10000 < 2147483647"
  obtains d s' where "stride_round s = Ret d s'" "candidate s d"
    "s' = upd_st d (\<lambda>e. e\<lparr>st_path := st_path e + 10000 div st_share e\<rparr>) s"
    "candidate s' = candidate s" "stride_of s' = stride_of s"
    "paths_below (b + 10000) s'" "fair s'"
proof -
  define d where "d = path_cal s"
  have c0: "candidate s 0" "st_path (sc_stride s 0) < 2147483647"
    using below b by (auto simp: paths_below_def)
  have d: "candidate s d" using path_cal_argmin(1) [OF c0] by (simp add: d_def)
  have min: "st_path (sc_stride s d) \<le> st_path (sc_stride s i)" if "candidate s i" for i
    using path_cal_argmin(2) [OF c0 that] by (simp add: d_def)
  have sd: "0 < st_share (sc_stride s d)" "0 \<le> st_path (sc_stride s d)" "st_path (sc_stride s d) \<le> b"
    using below d by (auto simp: paths_below_def)
  note bd = stride_of_bounds [OF sd(1)]
  define s' where "s' = upd_st d (\<lambda>e. e\<lparr>st_path := st_path e + 10000 div st_share e\<rparr>) s"
  have "wrap_int (st_path (sc_stride s d) + stride_of s d) = st_path (sc_stride s d) + stride_of s d"
    using bd sd b by simp
  then have "stride_round s = Ret d s'"
    using sd by (simp add: stride_round_def stride_def kop_simps Let_def s'_def d_def [symmetric] upd_st_def)
  moreover have cand: "candidate s' = candidate s"
    by (auto simp: candidate_def s'_def fun_eq_iff)
  moreover have str: "stride_of s' = stride_of s" by (auto simp: s'_def fun_eq_iff)
  moreover have "paths_below (b + 10000) s'"
    using below bd sd unfolding paths_below_def cand by (auto simp: s'_def)
  moreover have "fair s'"
    unfolding fair_def
  proof (intro allI impI)
    fix i j assume ij: "candidate s' i \<and> candidate s' j"
    then have "st_path (sc_stride s i) - stride_of s i \<le> st_path (sc_stride s j)"
      "st_path (sc_stride s i) - stride_of s i \<le> st_path (sc_stride s d)"
      "st_path (sc_stride s d) \<le> st_path (sc_stride s j)"
      using fair d min cand by (auto simp: fair_def)
    then show "st_path (sc_stride s' i) - stride_of s' i \<le> st_path (sc_stride s' j)"
      using bd by (auto simp: s'_def)
  qed
  ultimately show thesis using that [of d s'] d s'_def by blast
qed

lemma stride_rounds:
  assumes "paths_below b s" and "fair s" and "b + 10000 * int n < 2147483647"
  shows "\<exists>ds s'. repeatK n stride_round s = Ret ds s' \<and> length ds = n \<and> (\<forall>d \<in> set ds. candidate s d) \<and>
    candidate s' = candidate s \<and> stride_of s' = stride_of s \<and> fair s' \<and>
    (\<forall>i. st_path (sc_stride s' i) = st_path (sc_stride s i) + int (count (mset ds) i) * stride_of s i)"
  using assms
proof (induction n arbitrary: b s)
  case 0
  then show ?case by (simp add: kop_simps)
next
  case (Suc n)
  obtain d s1 where s1: "stride_round s = Ret d s1" "candidate s d"
    "s1 = upd_st d (\<lambda>e. e\<lparr>st_path := st_path e + 10000 div st_share e\<rparr>) s"
    "candidate s1 = candidate s" "stride_of s1 = stride_of s" "paths_below (b + 10000) s1" "fair s1"
    using stride_round_step [OF Suc.prems(1,2)] Suc.prems(3) by auto
  have e: "stride_of s1 i = stride_of s i" for i using s1(5) by (rule fun_cong)
  from Suc.IH [OF s1(6,7)] Suc.prems(3) obtain ds s' where r: "repeatK n stride_round s1 = Ret ds s'"
    "length ds = n" "\<forall>d \<in> set ds. candidate s d" "candidate s' = candidate s"
    "stride_of s' = stride_of s" "fair s'"
    "\<forall>i. st_path (sc_stride s' i) = st_path (sc_stride s1 i) + int (count (mset ds) i) * stride_of s i"
    using s1(4) by (auto simp: algebra_simps e)
  have "st_path (sc_stride s' i) = st_path (sc_stride s i) + int (count (mset (d # ds)) i) * stride_of s i" for i
    using r(7) s1(3) by (auto simp: algebra_simps)
  with r s1(1,2) show ?case
    by (intro exI [of _ "d # ds"] exI [of _ s']) (simp add: kop_simps)
qed

section \<open>The accounts of the table\<close>

lemma forK_upd_st:
  "distinct xs \<Longrightarrow> forK xs (\<lambda>i. modifyK (upd_st i f)) s =
     Ret () (s\<lparr>sc_stride := (\<lambda>i. if i \<in> set xs then f (sc_stride s i) else sc_stride s i)\<rparr>)"
proof (induction xs arbitrary: s)
  case Nil
  then show ?case by (simp add: kop_simps)
next
  case (Cons x xs)
  then have "(\<lambda>i. if i \<in> set xs then f (sc_stride (upd_st x f s) i) else sc_stride (upd_st x f s) i) =
      (\<lambda>i. if i \<in> set (x # xs) then f (sc_stride s i) else sc_stride s i)" by auto
  moreover have "(upd_st x f s)\<lparr>sc_stride := g\<rparr> = s\<lparr>sc_stride := g\<rparr>" for g
    by (simp add: upd_st_def)
  ultimately show ?case using Cons
    by (simp only: forK.simps seqK_apply modifyK_apply outcome.case distinct.simps)
qed

text \<open>The sum of the shares handed out, and the invariant of the table: entry 0 has what is left of 100,
  at least 20; a process entry is in use exactly when it is a stride entry, then its share is
  positive and its index is at most \<^verbatim>\<open>max_pid\<close>.\<close>

definition share_sum :: "'z schedst_scheme \<Rightarrow> int" where
  "share_sum s = (\<Sum>i \<in> {3..10000}. if st_is_stride (sc_stride s i) = 1 then st_share (sc_stride s i) else 0)"

definition shares_ok :: "'z schedst_scheme \<Rightarrow> bool" where
  "shares_ok s \<longleftrightarrow> sc_max_sum s = share_sum s \<and> sc_max_sum s \<le> 80 \<and>
     st_share (sc_stride s 0) = 100 - sc_max_sum s \<and> st_full (sc_stride s 0) = 1 \<and>
     0 \<le> sc_max_pid s \<and> sc_max_pid s \<le> 10000 \<and>
     (\<forall>i. 3 \<le> i \<longrightarrow> (st_full (sc_stride s i) = 1 \<longleftrightarrow> st_is_stride (sc_stride s i) = 1) \<and>
        (st_is_stride (sc_stride s i) = 1 \<longrightarrow> 0 < st_share (sc_stride s i) \<and> int i \<le> sc_max_pid s))"

lemma share_sum_nonneg: "shares_ok s \<Longrightarrow> 0 \<le> sc_max_sum s"
  by (simp add: shares_ok_def share_sum_def) (intro sum_nonneg, auto)

lemma share_sum_upd:
  assumes "k \<in> {3..10000}"
    and "\<And>i. i \<in> {3..10000} \<Longrightarrow> i \<noteq> k \<Longrightarrow> st_is_stride (sc_stride s' i) = st_is_stride (sc_stride s i) \<and>
      st_share (sc_stride s' i) = st_share (sc_stride s i)"
  shows "share_sum s' = share_sum s
    - (if st_is_stride (sc_stride s k) = 1 then st_share (sc_stride s k) else 0)
    + (if st_is_stride (sc_stride s' k) = 1 then st_share (sc_stride s' k) else 0)"
proof -
  have "(\<Sum>i \<in> {3..10000} - {k}. if st_is_stride (sc_stride s' i) = 1 then st_share (sc_stride s' i) else 0) =
      (\<Sum>i \<in> {3..10000} - {k}. if st_is_stride (sc_stride s i) = 1 then st_share (sc_stride s i) else 0)"
    using assms(2) by (intro sum.cong) auto
  then show ?thesis unfolding share_sum_def using assms(1) by (simp add: sum.remove [of _ k])
qed

lemma set_table_refuse:
  "sc_max_pid s > 19999 \<or> wrap_int (sc_max_sum s + input) > 80 \<Longrightarrow> set_table input s = Ret () s"
  by (auto simp: set_table_def)

text \<open>What an accepted request does to the table.\<close>

definition accept_entry :: "'z schedst_scheme \<Rightarrow> nat \<Rightarrow> int \<Rightarrow> nat \<Rightarrow> stride_ent" where
  "accept_entry s p input i =
     (let pid = p_pid (pt_procs s p);
          e = (if i = nat pid
               then (sc_stride s i)\<lparr>st_share := input, st_pid := pid, st_full := 1, st_path := 0,
                                    st_proc := Some p, st_is_stride := 1\<rparr>
               else if i = 0 then (sc_stride s i)\<lparr>st_share := 100 - (sc_max_sum s + input)\<rparr>
               else sc_stride s i)
      in if i < nat (max (sc_max_pid s) pid) then e\<lparr>st_path := 0\<rparr> else e)"

lemma set_table_accept:
  assumes "shares_ok s" and "pt_cur s = Some p" and "3 \<le> p_pid (pt_procs s p)"
    and "0 < input" and "sc_max_sum s + input \<le> 80"
  shows "\<exists>s'. set_table input s = Ret () s' \<and> sc_stride s' = accept_entry s p input \<and>
    sc_max_sum s' = sc_max_sum s + input \<and> sc_max_pid s' = max (sc_max_pid s) (p_pid (pt_procs s p)) \<and>
    pt_procs s' = pt_procs s \<and> pt_cur s' = pt_cur s \<and> sc_mlfq s' = sc_mlfq s \<and> sc_lev s' = sc_lev s"
proof -
  have b: "0 \<le> sc_max_sum s" "sc_max_pid s \<le> 10000"
    using share_sum_nonneg [OF assms(1)] assms(1) by (simp_all add: shares_ok_def)
  have w: "wrap_int (sc_max_sum s + input) = sc_max_sum s + input"
    "wrap_int (100 - (sc_max_sum s + input)) = 100 - (sc_max_sum s + input)"
    using assms(4,5) b by simp_all
  show ?thesis
    using assms(2-5) b
    by (auto simp: set_table_def w Let_def forK_upd_st accept_entry_def fun_eq_iff max_def)
qed

lemma set_table_shares_ok:
  assumes "shares_ok s" and "pt_cur s = Some p" and "p_pid (pt_procs s p) \<in> {3..10000}"
    and "st_is_stride (sc_stride s (pidx s p)) \<noteq> 1" and "0 < input" and "sc_max_sum s + input \<le> 80"
  shows "\<exists>s'. set_table input s = Ret () s' \<and> shares_ok s' \<and> sc_max_sum s' = sc_max_sum s + input \<and>
    st_share (sc_stride s' (pidx s p)) = input \<and> st_is_stride (sc_stride s' (pidx s p)) = 1 \<and>
    pt_procs s' = pt_procs s \<and> pt_cur s' = pt_cur s"
proof -
  define k where "k = nat (p_pid (pt_procs s p))"
  have k: "k \<in> {3..10000}" "int k = p_pid (pt_procs s p)" "pidx s p = k"
    using assms(3) by (auto simp: k_def pidx_def)
  obtain s' where s': "set_table input s = Ret () s'" "sc_stride s' = accept_entry s p input"
    "sc_max_sum s' = sc_max_sum s + input" "sc_max_pid s' = max (sc_max_pid s) (p_pid (pt_procs s p))"
    "pt_procs s' = pt_procs s" "pt_cur s' = pt_cur s"
    using set_table_accept [OF assms(1,2) _ assms(5,6)] assms(3) by auto
  have e: "st_is_stride (sc_stride s' i) = (if i = k then 1 else st_is_stride (sc_stride s i))"
    "st_full (sc_stride s' i) = (if i = k then 1 else st_full (sc_stride s i))"
    "st_share (sc_stride s' i) = (if i = k then input else if i = 0 then 100 - (sc_max_sum s + input)
       else st_share (sc_stride s i))" for i
    unfolding s'(2) accept_entry_def k_def using assms(3) by (auto simp: Let_def)
  have "share_sum s' = share_sum s + input"
    using share_sum_upd [OF k(1), of s' s] assms(4) k(3) by (simp add: e)
  then have "shares_ok s'"
    using assms(1,5,6) k s'(3,4) by (auto simp: shares_ok_def e max_def)
  then show ?thesis using s'(1,3-6) by (auto simp: k e)
qed

lemma stride_drop_shares_ok:
  assumes "shares_ok s" and "p_pid (pt_procs s p) \<in> {3..10000}"
  shows "shares_ok (stride_drop p s) \<and> st_is_stride (sc_stride (stride_drop p s) (pidx s p)) \<noteq> 1"
proof (cases "st_is_stride (sc_stride s (pidx s p)) = 1")
  case True
  define k where "k = pidx s p"
  have k: "k \<in> {3..10000}" using assms(2) by (auto simp: k_def pidx_def)
  let ?s' = "stride_drop p s" and ?x = "st_share (sc_stride s k)"
  have "share_sum s = (\<Sum>i \<in> {3..10000} - {k}. if st_is_stride (sc_stride s i) = 1 then st_share (sc_stride s i) else 0) + ?x"
    unfolding share_sum_def using k True by (simp add: sum.remove [of _ k] k_def)
  moreover have "0 \<le> (\<Sum>i \<in> {3..10000} - {k}. if st_is_stride (sc_stride s i) = 1 then st_share (sc_stride s i) else 0)"
    using assms(1) by (intro sum_nonneg) (auto simp: shares_ok_def)
  moreover have "0 < ?x" using assms(1) k True by (auto simp: shares_ok_def k_def)
  ultimately have r: "0 \<le> sc_max_sum s - ?x" "sc_max_sum s - ?x \<le> 80"
    using assms(1) by (auto simp: shares_ok_def)
  have e: "st_is_stride (sc_stride ?s' i) = (if i = k then 0 else st_is_stride (sc_stride s i))"
    "st_full (sc_stride ?s' i) = (if i = k then 0 else st_full (sc_stride s i))"
    "st_share (sc_stride ?s' i) = (if i = 0 then 100 - (sc_max_sum s - ?x) else st_share (sc_stride s i))"
    "sc_max_sum ?s' = sc_max_sum s - ?x" "sc_max_pid ?s' = sc_max_pid s" for i
    using r k True by (simp_all add: stride_drop_def Let_def k_def)
  have "share_sum ?s' = share_sum s - ?x"
    using share_sum_upd [OF k, of ?s' s] True k by (simp add: e k_def)
  then have "shares_ok ?s'" using assms(1) r k by (auto simp: shares_ok_def e)
  then show ?thesis by (simp add: e k_def [symmetric])
qed (simp add: assms stride_drop_def)

section \<open>Properties\<close>

text \<open>
  \<^verbatim>\<open>path_cal\<close> returns an entry in use with the smallest path among all entries in use up to
  \<^verbatim>\<open>max_pid\<close> (entries 1 and 2 excepted), whenever one of them has a path below the initial minimum.
\<close>

theorem path_cal_minimum:
  assumes "candidate s j" and "st_path (sc_stride s j) < 2147483647"
  shows "candidate s (path_cal s) \<and>
    (\<forall>i. candidate s i \<longrightarrow> st_path (sc_stride s (path_cal s)) \<le> st_path (sc_stride s i))"
  using path_cal_argmin [OF assms] by blast

text \<open>
  C5. Stride scheduling is proportional: from fresh paths and positive shares, after any number \<open>n\<close> of
  decisions (up to 214748, where the paths could leave the range of \<^verbatim>\<open>int\<close>) every decision has
  chosen an entry in use, and for any two entries the CPU use weighted by the strides differs by at
  most one stride: an entry that was chosen \<open>c\<close> times has used at most one stride more than any other.
\<close>

theorem stride_proportional:
  assumes "candidate s 0"
    and "\<forall>i. candidate s i \<longrightarrow> st_path (sc_stride s i) = 0 \<and> 0 < st_share (sc_stride s i)"
    and "n \<le> 214748"
  shows "\<exists>ds s'. repeatK n stride_round s = Ret ds s' \<and> length ds = n \<and> (\<forall>d \<in> set ds. candidate s d) \<and>
    (\<forall>i j. candidate s i \<and> candidate s j \<longrightarrow>
      (int (count (mset ds) i) - 1) * (10000 div st_share (sc_stride s i)) \<le>
      int (count (mset ds) j) * (10000 div st_share (sc_stride s j)))"
proof -
  have below: "paths_below 0 s" using assms by (auto simp: paths_below_def)
  have "0 \<le> stride_of s i" if "candidate s i" for i
    using stride_of_bounds [of s i] assms(2) that by auto
  then have "fair s" using assms(2) by (auto simp: fair_def)
  from stride_rounds [OF below this, of n] assms(3) obtain ds s' where
    r: "repeatK n stride_round s = Ret ds s'" "length ds = n" "\<forall>d \<in> set ds. candidate s d"
    and c: "candidate s' = candidate s" and st: "stride_of s' = stride_of s" and f: "fair s'"
    and path: "\<forall>i. st_path (sc_stride s' i) = st_path (sc_stride s i) + int (count (mset ds) i) * stride_of s i"
    by auto
  have "(int (count (mset ds) i) - 1) * stride_of s i \<le> int (count (mset ds) j) * stride_of s j"
    if "candidate s i" "candidate s j" for i j
  proof -
    have "st_path (sc_stride s' i) - stride_of s' i \<le> st_path (sc_stride s' j)"
      using f that by (simp add: fair_def c)
    then show ?thesis using path assms(2) that fun_cong [OF st, of i] by (simp add: algebra_simps)
  qed
  with r show ?thesis by blast
qed

text \<open>The state after boot and one accepted request for 20 percent by the process with id 3 in slot 2.\<close>

definition shared_sched :: schedst where
  "shared_sched = upd_st 3 (\<lambda>e. e\<lparr>st_share := 20, st_full := 1, st_is_stride := 1, st_proc := Some 2\<rparr>)
     (upd_st 0 (\<lambda>e. e\<lparr>st_share := 80\<rparr>) (boot_sched\<lparr>sc_max_pid := 3, sc_max_sum := 20\<rparr>))"

lemma candidate_shared_sched: "candidate shared_sched i \<longleftrightarrow> i = 0 \<or> i = 3"
  by (auto simp: candidate_def shared_sched_def boot_sched_defs Let_def upd_st_def upd_lv_def)

lemma shared_sched_entries:
  "st_path (sc_stride shared_sched i) = 0" "st_share (sc_stride shared_sched 0) = 80"
  "st_share (sc_stride shared_sched 3) = 20"
  by (simp_all add: shared_sched_def boot_sched_defs Let_def upd_st_def upd_lv_def)

theorem path_cal_minimum_witness:
  "candidate shared_sched 0 \<and> candidate shared_sched (path_cal shared_sched)"
  using path_cal_minimum [of shared_sched 0]
  by (simp add: candidate_shared_sched shared_sched_entries)

theorem stride_proportional_witness:
  "\<exists>ds s'. repeatK 100 stride_round shared_sched = Ret ds s' \<and>
     (int (count (mset ds) 0) - 1) * 125 \<le> int (count (mset ds) 3) * 500"
proof -
  have "\<exists>ds s'. repeatK 100 stride_round shared_sched = Ret ds s' \<and> length ds = 100 \<and>
      (\<forall>d \<in> set ds. candidate shared_sched d) \<and>
      (\<forall>i j. candidate shared_sched i \<and> candidate shared_sched j \<longrightarrow>
        (int (count (mset ds) i) - 1) * (10000 div st_share (sc_stride shared_sched i)) \<le>
        int (count (mset ds) j) * (10000 div st_share (sc_stride shared_sched j)))"
    by (rule stride_proportional) (auto simp: candidate_shared_sched shared_sched_entries)
  then obtain ds s' where r: "repeatK 100 stride_round shared_sched = Ret ds s'"
    and le: "\<forall>i j. candidate shared_sched i \<and> candidate shared_sched j \<longrightarrow>
        (int (count (mset ds) i) - 1) * (10000 div st_share (sc_stride shared_sched i)) \<le>
        int (count (mset ds) j) * (10000 div st_share (sc_stride shared_sched j))" by blast
  from le [rule_format, of 0 3] have "(int (count (mset ds) 0) - 1) * 125 \<le> int (count (mset ds) 3) * 500"
    by (simp add: candidate_shared_sched shared_sched_entries)
  with r show ?thesis by blast
qed

text \<open>What \<^verbatim>\<open>set_cpu_share\<close> returns: it looks at the entry of the caller after \<^verbatim>\<open>set_table\<close>.\<close>

lemma set_cpu_share_result:
  assumes "set_table a s = Ret () s'" "pt_cur s = Some p" "pt_cur s' = pt_cur s" "pt_procs s' = pt_procs s"
  shows "set_cpu_share a s = Ret (if st_share (sc_stride s' (pidx s p)) = a then a else - 1) s'"
  using assms by (simp add: set_cpu_share_def myproc_def kop_simps pidx_def)

lemma set_table_take:
  assumes "sc_max_pid s \<le> 19999" "pt_cur s = Some p" "wrap_int (sc_max_sum s + a) \<le> 80"
  shows "\<exists>s'. set_table a s = Ret () s' \<and> sc_max_sum s' = wrap_int (sc_max_sum s + a) \<and>
    st_share (sc_stride s' (pidx s p)) = a \<and> st_full (sc_stride s' (pidx s p)) = 1 \<and> pt_cur s' = pt_cur s \<and> pt_procs s' = pt_procs s"
  using assms by (simp add: set_table_def Let_def forK_upd_st pidx_def)


text \<open>The process in slot 2, with id 3, running after boot.\<close>

definition running_sched :: schedst where
  "running_sched = upd_proc 2 (\<lambda>q. q\<lparr>p_pid := 3, p_state := RUNNING\<rparr>) (boot_sched\<lparr>pt_cur := Some 2\<rparr>)"

lemma running_sched_simps [simp]:
  "pt_cur running_sched = Some 2" "p_pid (pt_procs running_sched 2) = 3" "pidx running_sched 2 = 3"
  "sc_max_sum running_sched = 0" "sc_max_pid running_sched = 0"
  "st_is_stride (sc_stride running_sched i) = 0" "st_share (sc_stride running_sched 3) = 0"
  by (simp_all add: running_sched_def boot_sched_defs Let_def upd_st_def upd_lv_def upd_proc_def pidx_def)

lemma running_sched_shares_ok: "shares_ok running_sched"
proof -
  have "share_sum running_sched = 0" by (simp add: share_sum_def)
  moreover have "st_full (sc_stride running_sched i) = (if i = 0 then 1 else 0)"
    "st_share (sc_stride running_sched 0) = 100" for i
    by (simp_all add: running_sched_def boot_sched_defs Let_def upd_st_def upd_lv_def upd_proc_def)
  ultimately show ?thesis by (simp add: shares_ok_def)
qed


section \<open>Where the accounts go wrong\<close>

text \<open>A refused request is reported as granted when the entry still holds the number from an earlier owner of the process id: with 60
  handed out, a caller whose entry has an old 30 asks for 30.\<close>

lemma stale_share_reported:
  assumes "pt_cur s = Some p" "sc_max_sum s = 60" "st_share (sc_stride s (pidx s p)) = 30" "st_is_stride (sc_stride s (pidx s p)) = 0"
  shows "set_cpu_share 30 s = Ret 30 s"
proof -
  have "set_table 30 s = Ret () s" using assms(2) by (simp add: set_table_refuse)
  from set_cpu_share_result [OF this assms(1) refl refl] assms(3) show ?thesis by simp
qed

text \<open>Giving a share back leaves the number in the entry, so the next owner of the id finds it there.\<close>

lemma stride_drop_leaves_share: "0 < pidx s p \<Longrightarrow> st_share (sc_stride (stride_drop p s) (pidx s p)) = st_share (sc_stride s (pidx s p))"
  by (simp add: stride_drop_def Let_def)

text \<open>A negative request is granted, and the first decision for that process panics; a request near the largest \<^verbatim>\<open>int\<close> wraps the sum
  and is granted as well.\<close>

lemma negative_share_panics:
  "\<exists>s1. set_cpu_share (- 5) running_sched = Ret (- 5) s1 \<and> stride 3 s1 = Panic ''no!''"
proof -
  obtain s1 where s1: "set_table (- 5) running_sched = Ret () s1" "st_share (sc_stride s1 3) = - 5" "pt_cur s1 = pt_cur running_sched"
    "pt_procs s1 = pt_procs running_sched"
    using set_table_take [of running_sched 2 "- 5"] by auto
  then have "stride 3 s1 = Panic ''no!''" by (simp add: stride_def)
  then show ?thesis using set_cpu_share_result [OF s1(1) _ s1(3,4), of 2] s1(2) by auto
qed

lemma huge_share_granted:
  assumes "shares_ok s" "pt_cur s = Some p" "sc_max_sum s = 40"
  shows "\<exists>s1. set_cpu_share 2147483647 s = Ret 2147483647 s1 \<and> sc_max_sum s1 = - 2147483609"
proof -
  have "sc_max_pid s \<le> 19999" using assms(1) by (simp add: shares_ok_def)
  then obtain s1 where s1: "set_table 2147483647 s = Ret () s1" "st_share (sc_stride s1 (pidx s p)) = 2147483647"
    "sc_max_sum s1 = - 2147483609" "pt_cur s1 = pt_cur s" "pt_procs s1 = pt_procs s"
    using set_table_take [of s p 2147483647] assms(2,3) by (auto simp: wrap_int_def)
  then show ?thesis using set_cpu_share_result [OF s1(1) assms(2) s1(4,5)] by simp
qed

text \<open>A second request by the same process is added to the sum although it replaces the share: after
  granting 40 and then 30 the process holds 30, the sum says 70.\<close>

lemma set_table_counts_twice:
  "\<exists>s1 s2. set_table 40 running_sched = Ret () s1 \<and> set_table 30 s1 = Ret () s2 \<and>
     sc_max_sum s2 = 70 \<and> st_share (sc_stride s2 3) = 30"
proof -
  obtain s1 where s1: "set_table 40 running_sched = Ret () s1" "shares_ok s1" "sc_max_sum s1 = 40"
    "pt_procs s1 = pt_procs running_sched" "pt_cur s1 = pt_cur running_sched"
    using set_table_shares_ok [of running_sched 2 40] running_sched_shares_ok by auto
  then obtain s2 where s2: "set_table 30 s1 = Ret () s2" "sc_stride s2 = accept_entry s1 2 30"
    "sc_max_sum s2 = 70"
    using set_table_accept [of s1 2 30] by auto
  then have "st_share (sc_stride s2 3) = 30" using s1(4) by (simp add: accept_entry_def Let_def)
  with s1 s2 show ?thesis by blast
qed

text \<open>A request of 0 is granted, and the first decision for that process divides by zero.\<close>

lemma share_zero_traps:
  "\<exists>s1. set_cpu_share 0 running_sched = Ret 0 s1 \<and> stride 3 s1 = Panic ''trap''"
  by (auto simp: set_cpu_share_def set_table_def kop_simps myproc_def forK_upd_st Let_def stride_def pidx_def)

text \<open>A path near the largest \<^verbatim>\<open>int\<close> wraps around: the entry then has a path far below every other
  one and is chosen again.\<close>

lemma stride_path_wraps:
  assumes "st_share (sc_stride s d) = 100" and "st_path (sc_stride s d) = 2147483600"
  shows "\<exists>s'. stride d s = Ret (st_proc (sc_stride s d)) s' \<and> st_path (sc_stride s' d) = - 2147483596"
  using assms by (simp add: stride_def Let_def wrap_int_def)

end
