(* ===== verification/Mlfq_Ring.thy ===== *)
theory Mlfq_Ring
  imports Stride_Fair
begin

text \<open>
  The queues of the multi-level feedback scheduler. A non-empty level is a doubly linked ring threaded
  through the table \<^verbatim>\<open>mlfq\<close>: on such rings \<^verbatim>\<open>MLFQ_in\<close> appends and \<^verbatim>\<open>MLFQ_out\<close> drops or rotates the
  head, and repeated rotation is round robin. An empty level has null ends, and then \<^verbatim>\<open>MLFQ_in\<close> does
  nothing: since every level starts empty, no process ever enters a queue (last section).
\<close>

section \<open>Rings\<close>

fun linked :: "(nat \<Rightarrow> mlfq_ent) \<Rightarrow> nat list \<Rightarrow> bool" where
  "linked m (x # y # zs) \<longleftrightarrow> ml_next (m x) = Some y \<and> ml_prev (m y) = Some x \<and> linked m (y # zs)"
| "linked m _ \<longleftrightarrow> True"

definition ring :: "'z schedst_scheme \<Rightarrow> nat \<Rightarrow> nat list \<Rightarrow> bool" where
  "ring s l xs \<longleftrightarrow> xs \<noteq> [] \<and> distinct xs \<and> linked (sc_mlfq s) xs \<and>
     ml_next (sc_mlfq s (last xs)) = Some (hd xs) \<and> ml_prev (sc_mlfq s (hd xs)) = Some (last xs) \<and>
     lv_head (sc_lev s l) = Some (hd xs) \<and> lv_end (sc_lev s l) = Some (last xs) \<and>
     lv_size (sc_lev s l) = int (length xs)"

lemma linked_append:
  "linked m (xs @ [i]) \<longleftrightarrow>
     linked m xs \<and> (xs \<noteq> [] \<longrightarrow> ml_next (m (last xs)) = Some i \<and> ml_prev (m i) = Some (last xs))"
  by (induction m xs rule: linked.induct) auto

lemma linked_tl: "linked m xs \<Longrightarrow> linked m (tl xs)"
  by (cases "(m, xs)" rule: linked.cases) auto

lemma linked_cong:
  assumes "\<And>x. x \<in> set (butlast xs) \<Longrightarrow> ml_next (m' x) = ml_next (m x)"
    and "\<And>x. x \<in> set (tl xs) \<Longrightarrow> ml_prev (m' x) = ml_prev (m x)"
  shows "linked m' xs = linked m xs"
  using assms
proof (induction xs rule: induct_list012)
  case (3 x y zs)
  then have "linked m' (y # zs) = linked m (y # zs)" by (intro 3) auto
  with 3 show ?case by simp
qed simp_all

lemma hd_notin_tl: "distinct xs \<Longrightarrow> xs \<noteq> [] \<Longrightarrow> hd xs \<notin> set (tl xs)"
  by (cases xs) auto

lemma last_notin_butlast: "distinct xs \<Longrightarrow> xs \<noteq> [] \<Longrightarrow> last xs \<notin> set (butlast xs)"
  by (cases xs rule: rev_cases) auto

lemma MLFQ_in_ring:
  assumes r: "ring s l xs" and i: "pidx s p \<notin> set xs" and len: "length xs < 2147483647"
  shows "ring (MLFQ_in p l c s) l (xs @ [pidx s p])"
proof -
  define i where "i = pidx s p"
  note r = r [unfolded ring_def]
  let ?s' = "MLFQ_in p l c s"
  have i: "i \<noteq> last xs" "i \<noteq> hd xs" "i \<notin> set xs" using assms(2) r by (auto simp: i_def)
  have lev: "sc_lev ?s' l = (sc_lev s l)\<lparr>lv_end := Some i, lv_size := int (length xs) + 1\<rparr>"
    using r len by (simp add: MLFQ_in_def Let_def i_def)
  have next': "ml_next (sc_mlfq ?s' x) = (if x = last xs then Some i else if x = i then Some (hd xs)
      else ml_next (sc_mlfq s x))"
    and prev': "ml_prev (sc_mlfq ?s' x) = (if x = hd xs then Some i else if x = i then Some (last xs)
      else ml_prev (sc_mlfq s x))" for x
    using r i by (auto simp: MLFQ_in_def Let_def i_def [symmetric])
  have "linked (sc_mlfq ?s') xs = linked (sc_mlfq s) xs"
    using r i last_notin_butlast [of xs] hd_notin_tl [of xs]
    by (intro linked_cong) (auto simp: next' prev' dest: in_set_butlastD list.set_sel(2))
  then have "linked (sc_mlfq ?s') (xs @ [i])" using r i by (simp add: linked_append next' prev')
  then show ?thesis
    using r i by (simp add: ring_def lev next' prev' i_def [symmetric])
qed

lemma MLFQ_out_entry_ring:
  assumes r: "ring s l xs" and i: "pidx s p \<notin> set xs" and len: "length xs < 2147483647"
  shows "\<exists>s'. MLFQ_out_entry p l c s = Ret () s' \<and> ring s' l (if c = 0 then xs else xs @ [pidx s p])"
proof -
  define i where "i = pidx s p"
  have keep: "ring (upd_ml i f s) l xs" for f
  proof -
    have "linked ((sc_mlfq s)(i := e)) xs = linked (sc_mlfq s) xs" for e
      using i r by (intro linked_cong) (auto simp: i_def ring_def dest: in_set_butlastD list.set_sel(2))
    moreover have "last xs \<noteq> i" "hd xs \<noteq> i"
      using i r unfolding ring_def i_def by (metis last_in_set, metis hd_in_set)
    ultimately show ?thesis using r by (simp add: ring_def)
  qed
  show ?thesis
    using keep MLFQ_in_ring [OF keep, where p = p and c = 1] i len
    by (auto simp: MLFQ_out_entry_def Let_def i_def [symmetric])
qed

lemma MLFQ_out_ring:
  assumes r: "ring s l (x # y # zs)" and p: "pidx s p = x" and len: "length zs < 2147483640"
  shows "\<exists>s'. MLFQ_out p l c s = Ret () s' \<and> ring s' l (if c = 0 then y # zs else y # zs @ [x])"
proof -
  let ?xs = "y # zs" and ?en = "last (y # zs)"
  define t where "t = upd_ml y (\<lambda>m. m\<lparr>ml_prev := Some ?en\<rparr>) (upd_ml ?en (\<lambda>m. m\<lparr>ml_next := Some y\<rparr>)
    (upd_lv l (\<lambda>l. l\<lparr>lv_size := lv_size l - 1, lv_head := Some y\<rparr>) s))"
  note r' = r [unfolded ring_def]
  have out: "MLFQ_out p l c s = MLFQ_out_entry p l c t"
    using r' by (simp add: MLFQ_out_def Let_def t_def)
  have nx: "ml_next (sc_mlfq t z) = (if z = ?en then Some y else ml_next (sc_mlfq s z))"
    and pv: "ml_prev (sc_mlfq t z) = (if z = y then Some ?en else ml_prev (sc_mlfq s z))" for z
    by (auto simp: t_def)
  have d: "distinct ?xs" using r' by simp
  have "linked (sc_mlfq t) ?xs = linked (sc_mlfq s) ?xs"
    using last_notin_butlast [OF d] d by (intro linked_cong) (auto simp: nx pv simp del: last.simps butlast.simps)
  then have "ring t l ?xs"
    using r' by (simp add: ring_def nx pv) (simp add: t_def)
  moreover have "pidx t p = x" using p by (simp add: t_def)
  ultimately show ?thesis
    using MLFQ_out_entry_ring [of t l ?xs p c] r' len by (auto simp: out)
qed

section \<open>Round robin\<close>

lemma mset_rotate1: "mset (rotate1 xs) = mset xs"
  by (cases xs) simp_all

text \<open>A queue whose head is moved to the end by an operation; all that matters is that the operation
  returns and rotates.\<close>

locale rotating =
  fixes holds :: "'s \<Rightarrow> 'a list \<Rightarrow> bool"
    and rot :: "('s, unit) kop"
  assumes rot_law: "holds s xs \<Longrightarrow> \<exists>s'. rot s = Ret () s' \<and> holds s' (rotate1 xs)"
    and holds_nonempty: "holds s xs \<Longrightarrow> xs \<noteq> []"
begin

lemma rot_many:
  assumes "holds s xs"
  shows "\<exists>us s'. repeatK n rot s = Ret us s' \<and> holds s' (rotate n xs)"
  using assms
proof (induction n arbitrary: s xs)
  case 0
  then show ?case by (simp add: kop_simps)
next
  case (Suc n)
  then obtain s1 where s1: "rot s = Ret () s1" "holds s1 (rotate1 xs)" using rot_law by blast
  from Suc.IH [OF s1(2)] obtain us s' where "repeatK n rot s1 = Ret us s'" "holds s' (rotate n (rotate1 xs))"
    by blast
  with s1(1) show ?case by (auto simp: kop_simps rotate1_rotate_swap)
qed

lemma round_robin:
  assumes "holds s xs"
  shows "\<exists>us s' ys. repeatK n rot s = Ret us s' \<and> holds s' ys \<and> hd ys = xs ! (n mod length xs) \<and>
    mset ys = mset xs"
proof -
  from rot_many [OF assms, of n] obtain us s' where "repeatK n rot s = Ret us s'" "holds s' (rotate n xs)"
    by blast
  moreover have "hd (rotate n xs) = xs ! (n mod length xs)"
    using holds_nonempty [OF assms] by (rule hd_rotate_conv_nth)
  moreover have "mset (rotate n xs) = mset xs" by (induction n) (simp_all add: mset_rotate1)
  ultimately show ?thesis by blast
qed

end

text \<open>The call \<^verbatim>\<open>MLFQ_out(mlfq_lev[i].head->proc,i,1)\<close> with which \<^verbatim>\<open>MLFQ\<close> passes the turn on.\<close>

definition mlfq_pass :: "nat \<Rightarrow> ('z schedst_scheme, unit) kop" where
  "mlfq_pass l = (\<lambda>s. derefK (lv_head (sc_lev s l)) (\<lambda>h s. derefK (ml_proc (sc_mlfq s h)) (\<lambda>p. MLFQ_out p l 1) s) s)"

definition level_queue :: "nat \<Rightarrow> 'z schedst_scheme \<Rightarrow> nat list \<Rightarrow> bool" where
  "level_queue l s xs \<longleftrightarrow> ring s l xs \<and> 2 \<le> length xs \<and> length xs < 2147483640 \<and>
     (\<forall>x \<in> set xs. \<exists>p. ml_proc (sc_mlfq s x) = Some p \<and> pidx s p = x)"

lemma MLFQ_out_frame:
  assumes "MLFQ_out p l 1 s = Ret u s'"
  shows "ml_proc (sc_mlfq s' i) = ml_proc (sc_mlfq s i)" and "pt_procs s' = pt_procs s"
  using assms
  by (auto simp: MLFQ_out_def MLFQ_out_entry_def MLFQ_in_def Let_def derefK_def panic_def
    split: if_splits option.splits)

lemma mlfq_pass_rotates:
  assumes "level_queue l s xs"
  shows "\<exists>s'. mlfq_pass l s = Ret () s' \<and> level_queue l s' (rotate1 xs)"
proof -
  obtain x y zs where xs: "xs = x # y # zs"
    using assms by (cases xs rule: list.exhaust; cases "tl xs") (auto simp: level_queue_def)
  have q: "ring s l (x # y # zs)" "length zs < 2147483640" using assms xs by (auto simp: level_queue_def)
  obtain p where p: "ml_proc (sc_mlfq s x) = Some p" "pidx s p = x"
    using assms by (auto simp: level_queue_def xs)
  from MLFQ_out_ring [OF q(1) p(2) q(2), of 1] obtain s' where
    s': "MLFQ_out p l 1 s = Ret () s'" "ring s' l (y # zs @ [x])" by auto
  have "mlfq_pass l s = Ret () s'" using q(1) p s' by (simp add: mlfq_pass_def ring_def)
  moreover have "level_queue l s' (rotate1 xs)"
    using s' assms xs MLFQ_out_frame [OF s'(1)] by (auto simp: level_queue_def pidx_def)
  ultimately show ?thesis by blast
qed

interpretation mlfq: rotating "level_queue l" "mlfq_pass l" for l
  by unfold_locales (auto simp: mlfq_pass_rotates, auto simp: level_queue_def)

text \<open>
  A level's queue, if it ever held processes, would be served round robin: after \<open>n\<close> turns have been passed on, the head is the
  process that was at position \<open>n\<close> (modulo the length) of the queue, and the queue still holds exactly
  the same processes. No run of the code meets the condition, since \<^verbatim>\<open>MLFQ_in\<close> leaves an empty
  level empty (last section).
\<close>

lemma mlfq_round_robin:
  assumes "level_queue l s xs"
  shows "\<exists>us s' ys. repeatK n (mlfq_pass l) s = Ret us s' \<and> level_queue l s' ys \<and>
    lv_head (sc_lev s' l) = Some (xs ! (n mod length xs)) \<and> mset ys = mset xs"
proof -
  from mlfq.round_robin [OF assms, of n] obtain us s' ys where
    "repeatK n (mlfq_pass l) s = Ret us s'" "level_queue l s' ys" "hd ys = xs ! (n mod length xs)"
    "mset ys = mset xs" by blast
  moreover from this have "lv_head (sc_lev s' l) = Some (xs ! (n mod length xs))"
    by (simp add: level_queue_def ring_def)
  ultimately show ?thesis by blast
qed

definition two_in_level0 :: schedst where
  "two_in_level0 =
     upd_proc 2 (\<lambda>q. q\<lparr>p_pid := 3\<rparr>) (upd_proc 5 (\<lambda>q. q\<lparr>p_pid := 4\<rparr>)
       (boot_sched\<lparr>sc_mlfq := (sc_mlfq boot_sched)
            (3 := (sc_mlfq boot_sched 3)\<lparr>ml_prev := Some 4, ml_next := Some 4, ml_proc := Some 2\<rparr>,
             4 := (sc_mlfq boot_sched 4)\<lparr>ml_prev := Some 3, ml_next := Some 3, ml_proc := Some 5\<rparr>),
          sc_lev := (sc_lev boot_sched)
            (0 := (sc_lev boot_sched 0)\<lparr>lv_head := Some 3, lv_end := Some 4, lv_size := 2\<rparr>)\<rparr>))"

lemma mlfq_round_robin_witness:
  "\<exists>us s'. repeatK 3 (mlfq_pass 0) two_in_level0 = Ret us s' \<and> lv_head (sc_lev s' 0) = Some 4"
proof -
  have "level_queue 0 two_in_level0 [3, 4]"
    by (simp add: level_queue_def ring_def two_in_level0_def upd_proc_def pidx_def)
  moreover have "[3, 4] ! (3 mod length [3, 4 :: nat]) = (4 :: nat)" by (simp add: numeral_2_eq_2 [symmetric])
  ultimately show ?thesis using mlfq_round_robin [of 0 two_in_level0 "[3, 4]" 3] by metis
qed

section \<open>Empty queues stay empty\<close>

definition mlfq_empty :: "'z schedst_scheme \<Rightarrow> bool" where
  "mlfq_empty s \<longleftrightarrow> (\<forall>l. lv_head (sc_lev s l) = None \<and> lv_size (sc_lev s l) = 0) \<and>
     (\<forall>i. ml_is_mlfq (sc_mlfq s i) = 0 \<and> ml_lev (sc_mlfq s i) = 0)"

lemma mlfq_empty_in [simp]: "mlfq_empty s \<Longrightarrow> MLFQ_in p l c s = s"
  by (simp add: mlfq_empty_def MLFQ_in_def)

lemma mlfq_empty_MLFQ:
  assumes "mlfq_empty s"
  shows "MLFQ s = Ret None (s\<lparr>sc_tick_mlfq := wrap_int (sc_tick_mlfq s + 1)\<rparr>)"
proof -
  have "lv_size (sc_lev s l) = 0" "lv_head (sc_lev s l) = None" for l using assms by (simp_all add: mlfq_empty_def)
  then show ?thesis by (simp add: MLFQ_def kop_simps MLFQ_boost_def MLFQ_level_def)
qed

lemma mlfq_empty_cong:
  "sc_lev s' = sc_lev s \<Longrightarrow> sc_mlfq s' = sc_mlfq s \<Longrightarrow> mlfq_empty s' = mlfq_empty s"
  by (simp add: mlfq_empty_def)

lemma mlfq_empty_tick: "mlfq_empty s \<Longrightarrow> (\<And>m. ml_is_mlfq (f m) = ml_is_mlfq m \<and> ml_lev (f m) = ml_lev m) \<Longrightarrow>
    mlfq_empty (upd_ml i f s)"
  by (simp add: mlfq_empty_def)

lemma stride_keeps_mlfq:
  "stride d s = Ret q s' \<Longrightarrow> sc_lev s' = sc_lev s \<and> sc_mlfq s' = sc_mlfq s"
  by (auto simp: stride_def Let_def split: if_splits)

lemma mlfq_empty_choose:
  assumes "mlfq_empty s" and "sched_choose p s = Ret q s'"
  shows "mlfq_empty s'"
proof -
  define r where "r = path_cal s"
  have one: "mlfq_empty t'" if "(if r \<noteq> 0 \<and> p_pid (pt_procs s p) > 2 then bindK (stride r) (\<lambda>q. derefK q retK)
      else retK p) s = Ret p' t'" for p' t'
    using that assms(1) mlfq_empty_cong [of t' s] stride_keeps_mlfq [of r s]
    by (auto simp: kop_simps derefK_def split: if_splits outcome.splits option.splits)
  have two: "mlfq_empty t'" if t: "mlfq_empty t"
    and h: "(if r = 0 \<and> p_pid (pt_procs t p') > 2
      then seqK (stride r) (bindK MLFQ (\<lambda>q. case q of Some q \<Rightarrow> retK q | None \<Rightarrow> retK p')) t else Ret p' t) = Ret q t'"
    for p' t q t'
  proof (cases "r = 0 \<and> p_pid (pt_procs t p') > 2")
    case True
    then obtain u v where u: "stride r t = Ret v u"
      "bindK MLFQ (\<lambda>q. case q of Some q \<Rightarrow> retK q | None \<Rightarrow> retK p') u = Ret q t'"
      using h by (cases "stride r t") (simp_all add: seqK_apply)
    have "mlfq_empty u" using t u(1) mlfq_empty_cong [of u t] stride_keeps_mlfq by blast
    then show ?thesis using u(2) by (auto simp: bindK_apply mlfq_empty_MLFQ retK_apply mlfq_empty_def)
  qed (use that in auto)
  let ?first = "(if r \<noteq> 0 \<and> p_pid (pt_procs s p) > 2 then bindK (stride r) (\<lambda>q. derefK q retK) else retK p) s"
  have h: "(case ?first of Ret p' t \<Rightarrow>
      (if r = 0 \<and> p_pid (pt_procs t p') > 2
       then seqK (stride r) (bindK MLFQ (\<lambda>q. case q of Some q \<Rightarrow> retK q | None \<Rightarrow> retK p')) t else Ret p' t)
      | Sleep t \<Rightarrow> Sleep t | Panic e \<Rightarrow> Panic e) = Ret q s'"
    using assms(2) unfolding sched_choose_def Let_def bindK_apply r_def .
  show ?thesis
  proof (cases ?first)
    case (Ret p' t)
    then show ?thesis using h one [OF Ret] two [of t p' q s'] by (simp only: outcome.case)
  qed (use h in \<open>simp_all only: outcome.case outcome.distinct\<close>)
qed

lemma mlfq_empty_pick:
  assumes "mlfq_empty s" and "scheduler_pick p s = Ret r s'"
  shows "mlfq_empty s'"
proof (cases "p_state (pt_procs s p) \<noteq> RUNNABLE")
  case True
  then show ?thesis using assms by (simp add: scheduler_pick_def)
next
  case False
  have e: "(if b then MLFQ_in p 0 0 s else s) = s" for b using assms(1) by simp
  from False obtain q t where qt: "sched_choose p s = Ret q t"
    using assms by (cases "sched_choose p s") (auto simp: scheduler_pick_def bindK_apply Let_def e)
  have t: "mlfq_empty t" using mlfq_empty_choose [OF assms(1) qt] .
  show ?thesis
    using False assms t qt
    by (auto simp: scheduler_pick_def Let_def e bindK_apply kop_simps switchuvm_def set_state_def upd_proc_def mlfq_empty_def
      split: if_splits)
qed

lemma mlfq_empty_back:
  assumes "mlfq_empty s" and "scheduler_back p s = Ret u s'"
  shows "mlfq_empty s'"
  using assms
  by (auto simp: scheduler_back_def kop_simps switchkvm_def Let_def stride_drop_def mlfq_empty_def pidx_def
    split: if_splits)

text \<open>
  Runs of the scheduler on one CPU: start, a turn of the outer loop, one slot after the other, a
  process running until it comes back. While a process runs, anything may change except \<^verbatim>\<open>mlfq\<close> and
  \<^verbatim>\<open>mlfq_lev\<close>, which only the scheduler's functions write.
\<close>

datatype sched_loc = Outer | AtSlot nat | InProc nat

inductive scheduler_run :: "sched_loc \<Rightarrow> 'z schedst_scheme \<Rightarrow> bool" where
  start: "(\<And>l. lv_head (sc_lev s l) = None \<and> lv_end (sc_lev s l) = None \<and> lv_size (sc_lev s l) = 0) \<Longrightarrow>
     (\<And>i. ml_is_mlfq (sc_mlfq s i) = 0 \<and> ml_lev (sc_mlfq s i) = 0) \<Longrightarrow> scheduler_run Outer (scheduler_init s)"
| outer: "scheduler_run Outer s \<Longrightarrow> acquire PtableLock s = Ret () s' \<Longrightarrow> scheduler_run (AtSlot 0) s'"
| skip: "scheduler_run (AtSlot p) s \<Longrightarrow> p < NPROC \<Longrightarrow> scheduler_pick p s = Ret (Skip q) s' \<Longrightarrow>
     scheduler_run (AtSlot (q + 1)) s'"
| run: "scheduler_run (AtSlot p) s \<Longrightarrow> p < NPROC \<Longrightarrow> scheduler_pick p s = Ret (Run q) s' \<Longrightarrow>
     scheduler_run (InProc q) s'"
| proc: "scheduler_run (InProc p) s \<Longrightarrow> sc_mlfq s' = sc_mlfq s \<Longrightarrow> sc_lev s' = sc_lev s \<Longrightarrow> scheduler_run (InProc p) s'"
| comeback: "scheduler_run (InProc p) s \<Longrightarrow> scheduler_back p s = Ret () s' \<Longrightarrow> scheduler_run (AtSlot (p + 1)) s'"
| again: "scheduler_run (AtSlot p) s \<Longrightarrow> \<not> p < NPROC \<Longrightarrow> release PtableLock s = Ret () s' \<Longrightarrow> scheduler_run Outer s'"

lemma scheduler_run_empty: "scheduler_run loc s \<Longrightarrow> mlfq_empty s"
proof (induction rule: scheduler_run.induct)
  case (start s)
  then show ?case by (simp add: mlfq_empty_def scheduler_init_def Let_def)
next
  case (outer s s')
  then show ?case by (auto simp: acquire_def mlfq_empty_def split: if_splits)
next
  case (again p s s')
  then show ?case by (auto simp: release_def mlfq_empty_def split: if_splits)
next
  case (proc p s s')
  then show ?case using mlfq_empty_cong by blast
qed (auto intro: mlfq_empty_pick mlfq_empty_back)

text \<open>
  C16. In every run of the scheduler the feedback queues stay empty: \<^verbatim>\<open>MLFQ_in\<close> changes nothing at any
  level, \<^verbatim>\<open>MLFQ\<close> finds no process, and the level \<^verbatim>\<open>getlev\<close> reports is 0 for every process. The
  processes without a share are therefore served by the order of the process table alone.
\<close>

theorem mlfq_never_holds_a_process:
  assumes "scheduler_run loc s"
  shows "MLFQ_in p l c s = s \<and> (\<exists>s'. MLFQ s = Ret None s') \<and>
    (pt_cur s = Some q \<longrightarrow> getlev s = Ret 0 s)"
  using scheduler_run_empty [OF assms] mlfq_empty_MLFQ [of s]
  by (simp add: getlev_def myproc_def kop_simps) (simp add: mlfq_empty_def)

theorem mlfq_never_holds_a_process_witness:
  "\<exists>s :: schedst. scheduler_run Outer s \<and> pt_procs s 0 = blank_proc \<and> MLFQ_in 0 0 0 s = s"
proof -
  have "scheduler_run Outer (scheduler_init boot_sched)"
    by (rule scheduler_run.start) (simp_all add: boot_sched_defs Let_def upd_st_def upd_lv_def)
  moreover have "pt_procs (scheduler_init boot_sched) 0 = blank_proc"
    by (simp add: boot_sched_defs Let_def upd_st_def upd_lv_def)
  ultimately show ?thesis
    using mlfq_never_holds_a_process [of Outer "scheduler_init boot_sched" 0 0 0] by blast
qed

end
