(* ===== verification/Vm.thy ===== *)
theory Vm
  imports Proc
begin

text \<open>
  Page tables (\<^verbatim>\<open>vm.c\<close>). Directories and tables are pages of the byte memory, read and written
  through their kernel addresses; a \<^verbatim>\<open>pte_t *\<close> is the address of the entry. The functions that load or copy
  program data take the bytes as a stream, since their source is kernel data or a file.
\<close>

section \<open>Walking and mapping\<close>

definition get_pte :: "mem \<Rightarrow> addr \<Rightarrow> uint" where
  "get_pte m a = load32 m a"

definition set_pte :: "addr \<Rightarrow> uint \<Rightarrow> 'z kmem_scheme \<Rightarrow> 'z kmem_scheme" where
  "set_pte a v s = s\<lparr>k_mem := store32 (k_mem s) a v\<rparr>"

definition pde_addr :: "addr \<Rightarrow> addr \<Rightarrow> addr" where
  "pde_addr pgdir va = pgdir + 4 * of_nat (PDX va)"

definition pte_addr :: "addr \<Rightarrow> addr \<Rightarrow> addr" where
  "pte_addr pgtab va = pgtab + 4 * of_nat (PTX va)"

definition present :: "uint \<Rightarrow> bool" where
  "present e \<longleftrightarrow> e AND PTE_P \<noteq> 0"

definition walkpgdir :: "addr \<Rightarrow> addr \<Rightarrow> bool \<Rightarrow> ('z kmem_scheme, addr option) kop" where
  "walkpgdir pgdir va alloc = (\<lambda>s.
     let pde = pde_addr pgdir va; e = get_pte (k_mem s) pde in
     if present e then Ret (Some (pte_addr (P2V (PTE_ADDR e)) va)) s
     else if \<not> alloc then Ret None s
     else bindK kalloc (\<lambda>pgtab.
       if pgtab = 0 then retK None
       else seqK (modifyK (\<lambda>s. s\<lparr>k_mem := memset (k_mem s) pgtab 0 PGSIZE\<rparr>))
           (seqK (modifyK (set_pte pde (V2P pgtab OR PTE_P OR PTE_W OR PTE_U)))
                 (retK (Some (pte_addr pgtab va))))) s)"

text \<open>The loop of \<^verbatim>\<open>mappages\<close>. Both \<^verbatim>\<open>a\<close> and \<^verbatim>\<open>last\<close> are page aligned, so the loop meets \<^verbatim>\<open>last\<close> and the branch
  for a smaller distance is never taken.\<close>

function mappages_loop :: "addr \<Rightarrow> addr \<Rightarrow> addr \<Rightarrow> addr \<Rightarrow> uint \<Rightarrow> ('z kmem_scheme, int) kop" where
  "mappages_loop pgdir a lst pa perm s =
     (case walkpgdir pgdir a True s of
        Ret None s \<Rightarrow> Ret (- 1) s
      | Ret (Some pte) s \<Rightarrow>
          if present (get_pte (k_mem s) pte) then Panic ''remap''
          else let s = set_pte pte (pa OR perm OR PTE_P) s in
            if a = lst then Ret 0 s
            else if unat (lst - a) < 4096 then Panic ''not aligned''
            else mappages_loop pgdir (a + PGSIZE) lst (pa + PGSIZE) perm s
      | Sleep s \<Rightarrow> Sleep s
      | Panic e \<Rightarrow> Panic e)"
  by pat_completeness auto
termination
proof (relation "measure (\<lambda>(pgdir, a, lst, pa, perm, s). unat (lst - a))")
  fix a lst :: addr
  assume "\<not> unat (lst - a) < 4096"
  moreover have "unat (lst - (a + PGSIZE)) = unat (lst - a) - 4096" if "4096 \<le> unat (lst - a)"
    using that unat_offset_shift [of lst a PGSIZE] by simp
  ultimately show "((pgdir, a + PGSIZE, lst, pa', perm, s''), pgdir, a, lst, pa, perm, s)
      \<in> measure (\<lambda>(pgdir, a, lst, pa, perm, s). unat (lst - a))" for pgdir pa pa' perm and s s'' :: "'z kmem_scheme"
    by (simp add: not_less)
qed simp

declare mappages_loop.simps [simp del]

definition mappages :: "addr \<Rightarrow> addr \<Rightarrow> uint \<Rightarrow> addr \<Rightarrow> uint \<Rightarrow> ('z kmem_scheme, int) kop" where
  "mappages pgdir va size' pa perm =
     mappages_loop pgdir (PGROUNDDOWN va) (PGROUNDDOWN (va + size' - 1)) pa perm"

section \<open>Freeing\<close>

text \<open>The loop of \<^verbatim>\<open>deallocuvm\<close> skips to the next directory entry where there is no page table. Sizes are at
  most \<^verbatim>\<open>KERNBASE\<close> everywhere in the kernel; the loop of the model stops at once for a larger one, where
  the address could wrap.\<close>

lemma PGADDR_next:
  assumes "unat a < 2147483648"
  shows "unat a < unat (PGADDR (of_nat (PDX a + 1)) 0 0)"
    and "unat (PGADDR (of_nat (PDX a + 1)) 0 0) = (unat a div 4194304 + 1) * 4194304"
proof -
  have "drop_bit 22 a AND 1023 = take_bit 10 (drop_bit 22 a)"
    by (simp add: take_bit_eq_mask mask_eq_exp_minus_1)
  then have p: "PDX a = unat a div 4194304"
    using unat_lt32 [of a]
    by (simp add: PDX_def unsigned_take_bit_eq unsigned_drop_bit_eq drop_bit_nat_def take_bit_nat_def)
  have small: "PDX a + 1 \<le> 512" using assms unfolding p by auto
  have "unat (of_nat (PDX a + 1) :: addr) = PDX a + 1" using small by (intro unat_of_nat32) simp
  then have "unat (push_bit 22 (of_nat (PDX a + 1)) :: addr) = (PDX a + 1) * 4194304"
    using small by (simp add: push_bit_eq_mult unat_word_ariths(2) del: of_nat_Suc of_nat_add)
  then show eq: "unat (PGADDR (of_nat (PDX a + 1)) 0 0) = (unat a div 4194304 + 1) * 4194304"
    by (simp add: PGADDR_def p)
  show "unat a < unat (PGADDR (of_nat (PDX a + 1)) 0 0)" unfolding eq
    using dividend_less_div_times [of 4194304 "unat a"] by simp
qed

function deallocuvm_loop :: "addr \<Rightarrow> addr \<Rightarrow> uint \<Rightarrow> ('z kmem_scheme, unit) kop" where
  "deallocuvm_loop pgdir a oldsz s =
     (if a < oldsz \<and> oldsz \<le> KERNBASE
      then (case walkpgdir pgdir a False s of
          Ret None s \<Rightarrow> deallocuvm_loop pgdir (PGADDR (of_nat (PDX a + 1)) 0 0 - PGSIZE + PGSIZE) oldsz s
        | Ret (Some pte) s \<Rightarrow>
            (let e = get_pte (k_mem s) pte in
             if present e
             then if PTE_ADDR e = 0 then Panic ''kfree''
                  else (case kfree (P2V (PTE_ADDR e)) s of
                          Ret _ s \<Rightarrow> deallocuvm_loop pgdir (a + PGSIZE) oldsz (set_pte pte 0 s)
                        | Sleep s \<Rightarrow> Sleep s
                        | Panic m \<Rightarrow> Panic m)
             else deallocuvm_loop pgdir (a + PGSIZE) oldsz s)
        | Sleep s \<Rightarrow> Sleep s
        | Panic m \<Rightarrow> Panic m)
      else Ret () s)"
  by pat_completeness auto

termination
proof (relation "measure (\<lambda>(pgdir, a, oldsz, s). unat oldsz - unat a)", goal_cases)
  case 1
  show ?case by simp
next
  case (2 pgdir a oldsz s x1 s')
  then have "unat a < 2147483648" "unat a < unat oldsz" by (simp_all add: word_less_nat_alt word_le_nat_alt)
  then show ?case using PGADDR_next(1) [of a] by simp
next
  case (3 pgdir a oldsz s x1 s' pte e x y)
  then have "unat a < 2147483648" "unat a < unat oldsz" by (simp_all add: word_less_nat_alt word_le_nat_alt)
  then show ?case by (simp add: unat_add32)
next
  case (4 pgdir a oldsz s x1 s' pte e)
  then have "unat a < 2147483648" "unat a < unat oldsz" by (simp_all add: word_less_nat_alt word_le_nat_alt)
  then show ?case by (simp add: unat_add32)
qed

declare deallocuvm_loop.simps [simp del]

definition deallocuvm :: "addr \<Rightarrow> uint \<Rightarrow> uint \<Rightarrow> ('z kmem_scheme, uint) kop" where
  "deallocuvm pgdir oldsz newsz =
     (if newsz \<ge> oldsz then retK oldsz
      else seqK (deallocuvm_loop pgdir (PGROUNDUP newsz) oldsz) (retK newsz))"

definition freevm :: "addr \<Rightarrow> ('z kmem_scheme, unit) kop" where
  "freevm pgdir =
     (if pgdir = 0 then panic ''freevm: no pgdir''
      else seqK (deallocuvm pgdir KERNBASE 0)
          (seqK (forK [0..<NPDENTRIES] (\<lambda>i s.
              let e = get_pte (k_mem s) (pgdir + 4 * of_nat i) in
              if present e then kfree (P2V (PTE_ADDR e)) s else Ret () s))
                (kfree pgdir)))"

section \<open>Kernel mappings\<close>

text \<open>\<^verbatim>\<open>kmap\<close>: virtual start, physical start and end, permissions.\<close>

definition kmap :: "'z kmem_scheme \<Rightarrow> (addr \<times> addr \<times> addr \<times> uint) list" where
  "kmap s =
     [(KERNBASE, 0, EXTMEM, PTE_W),
      (KERNLINK, V2P KERNLINK, V2P (k_data s), 0),
      (k_data s, V2P (k_data s), PHYSTOP, PTE_W),
      (DEVSPACE, DEVSPACE, 0, PTE_W)]"

primrec setupkvm_loop :: "addr \<Rightarrow> (addr \<times> addr \<times> addr \<times> uint) list \<Rightarrow> ('z kmem_scheme, addr) kop" where
  "setupkvm_loop pgdir [] = retK pgdir"
| "setupkvm_loop pgdir (k # ks) =
     (case k of (virt, phys_start, phys_end, perm) \<Rightarrow>
        bindK (mappages pgdir virt (phys_end - phys_start) phys_start perm) (\<lambda>r.
          if r < 0 then seqK (freevm pgdir) (retK 0) else setupkvm_loop pgdir ks))"

definition setupkvm :: "('z kmem_scheme, addr) kop" where
  "setupkvm =
     bindK kalloc (\<lambda>pgdir.
     if pgdir = 0 then retK 0
     else seqK (modifyK (\<lambda>s. s\<lparr>k_mem := memset (k_mem s) pgdir 0 PGSIZE\<rparr>))
         (if P2V PHYSTOP > DEVSPACE then panic ''PHYSTOP too high''
          else (\<lambda>s. setupkvm_loop pgdir (kmap s) s)))"

definition kvmalloc :: "('z ptable_scheme, unit) kop" where
  "kvmalloc = bindK setupkvm (\<lambda>d. seqK (modifyK (\<lambda>s. s\<lparr>pt_kpgdir := d\<rparr>)) switchkvm)"

section \<open>User memory\<close>

definition write_bytes :: "mem \<Rightarrow> addr \<Rightarrow> stream \<Rightarrow> uint \<Rightarrow> mem" where
  "write_bytes m a f n = (\<lambda>x. if x - a < n then f (unat (x - a)) else m x)"

definition inituvm :: "addr \<Rightarrow> stream \<Rightarrow> uint \<Rightarrow> ('z kmem_scheme, unit) kop" where
  "inituvm pgdir init sz =
     (if sz \<ge> PGSIZE then panic ''inituvm: more than a page''
      else bindK kalloc (\<lambda>mem.
        seqK (modifyK (\<lambda>s. s\<lparr>k_mem := memset (k_mem s) mem 0 PGSIZE\<rparr>))
       (seqK (mappages pgdir 0 PGSIZE (V2P mem) (PTE_W OR PTE_U))
             (modifyK (\<lambda>s. s\<lparr>k_mem := write_bytes (k_mem s) mem init sz\<rparr>)))))"

text \<open>The loop of \<^verbatim>\<open>allocuvm\<close>, whose caller has checked that \<^verbatim>\<open>newsz\<close> is below \<^verbatim>\<open>KERNBASE\<close>.\<close>

function allocuvm_loop :: "addr \<Rightarrow> addr \<Rightarrow> uint \<Rightarrow> uint \<Rightarrow> ('z kmem_scheme, uint) kop" where
  "allocuvm_loop pgdir a oldsz newsz s =
     (if a < newsz \<and> newsz < KERNBASE
      then (case kalloc s of
          Ret mem s \<Rightarrow>
            if mem = 0 then seqK (deallocuvm pgdir newsz oldsz) (retK 0) s
            else (case mappages pgdir a PGSIZE (V2P mem) (PTE_W OR PTE_U)
                         (s\<lparr>k_mem := memset (k_mem s) mem 0 PGSIZE\<rparr>) of
                    Ret r s \<Rightarrow>
                      if r < 0 then seqK (deallocuvm pgdir newsz oldsz) (seqK (kfree mem) (retK 0)) s
                      else allocuvm_loop pgdir (a + PGSIZE) oldsz newsz s
                  | Sleep s \<Rightarrow> Sleep s
                  | Panic m \<Rightarrow> Panic m)
        | Sleep s \<Rightarrow> Sleep s
        | Panic m \<Rightarrow> Panic m)
      else Ret newsz s)"
  by pat_completeness auto
termination
proof (relation "measure (\<lambda>(pgdir, a, oldsz, newsz, s). unat newsz - unat a)", goal_cases)
  case 1
  show ?case by simp
next
  case (2 pgdir a oldsz newsz s mem s' r s'')
  then have "unat a < 2147483648" "unat a < unat newsz" by (simp_all add: word_less_nat_alt)
  then show ?case by (simp add: unat_add32)
qed

declare allocuvm_loop.simps [simp del]

definition allocuvm :: "addr \<Rightarrow> uint \<Rightarrow> uint \<Rightarrow> ('z kmem_scheme, uint) kop" where
  "allocuvm pgdir oldsz newsz =
     (if newsz \<ge> KERNBASE then retK 0
      else if newsz < oldsz then retK oldsz
      else allocuvm_loop pgdir (PGROUNDUP oldsz) oldsz newsz)"

definition clearpteu :: "addr \<Rightarrow> addr \<Rightarrow> ('z kmem_scheme, unit) kop" where
  "clearpteu pgdir uva =
     bindK (walkpgdir pgdir uva False) (\<lambda>pte.
     case pte of
       None \<Rightarrow> panic ''clearpteu''
     | Some pte \<Rightarrow> modifyK (\<lambda>s. set_pte pte (get_pte (k_mem s) pte AND NOT PTE_U) s))"

text \<open>The loop of \<^verbatim>\<open>copyuvm\<close>; the sizes of processes are below \<^verbatim>\<open>KERNBASE\<close>.\<close>

function copyuvm_loop :: "addr \<Rightarrow> addr \<Rightarrow> uint \<Rightarrow> uint \<Rightarrow> ('z kmem_scheme, addr) kop" where
  "copyuvm_loop pgdir d i sz s =
     (if i < sz \<and> sz \<le> KERNBASE
      then (case walkpgdir pgdir i False s of
          Ret None s \<Rightarrow> Panic ''copyuvm: pte should exist''
        | Ret (Some pte) s \<Rightarrow>
            (let e = get_pte (k_mem s) pte in
             if \<not> present e then Panic ''copyuvm: page not present''
             else (case kalloc s of
                 Ret mem s \<Rightarrow>
                   if mem = 0 then seqK (freevm d) (retK 0) s
                   else (case mappages d i PGSIZE (V2P mem) (PTE_FLAGS e)
                                (s\<lparr>k_mem := memmove (k_mem s) mem (P2V (PTE_ADDR e)) PGSIZE\<rparr>) of
                           Ret r s \<Rightarrow>
                             if r < 0 then seqK (freevm d) (retK 0) s
                             else copyuvm_loop pgdir d (i + PGSIZE) sz s
                         | Sleep s \<Rightarrow> Sleep s
                         | Panic m \<Rightarrow> Panic m)
               | Sleep s \<Rightarrow> Sleep s
               | Panic m \<Rightarrow> Panic m))
        | Sleep s \<Rightarrow> Sleep s
        | Panic m \<Rightarrow> Panic m)
      else Ret d s)"
  by pat_completeness auto
termination
proof (relation "measure (\<lambda>(pgdir, d, i, sz, s). unat sz - unat i)", goal_cases)
  case 1
  show ?case by simp
next
  case (2 pgdir d i sz)
  then have "unat i < 2147483648" "unat i < unat sz" by (simp_all add: word_less_nat_alt word_le_nat_alt)
  then show ?case by (simp add: unat_add32)
qed

declare copyuvm_loop.simps [simp del]

definition copyuvm :: "addr \<Rightarrow> uint \<Rightarrow> ('z kmem_scheme, addr) kop" where
  "copyuvm pgdir sz = bindK setupkvm (\<lambda>d. if d = 0 then retK 0 else copyuvm_loop pgdir d 0 sz)"

definition uva2ka :: "addr \<Rightarrow> addr \<Rightarrow> ('z kmem_scheme, addr) kop" where
  "uva2ka pgdir uva =
     bindK (walkpgdir pgdir uva False) (\<lambda>pte. derefK pte (\<lambda>pte s.
       let e = get_pte (k_mem s) pte in
       if e AND PTE_P = 0 then Ret 0 s
       else if e AND PTE_U = 0 then Ret 0 s
       else Ret (P2V (PTE_ADDR e)) s))"

text \<open>\<^verbatim>\<open>copyout\<close>: at most a page per turn; at least one byte, so the loop ends.\<close>

lemma unat_page_offset: "unat (va - PGROUNDDOWN va) = unat va mod 4096"
proof -
  have "unat va div 4096 * 4096 \<le> unat va" by simp
  then show ?thesis
    using unat_diff32 [of va "PGROUNDDOWN va"] by (simp add: unat_PGROUNDDOWN minus_div_mult_eq_mod)
qed

lemma copyout_step:
  fixes len va :: uint
  assumes "len \<noteq> 0"
  shows "unat (len - (let n = PGSIZE - (va - PGROUNDDOWN va) in if n > len then len else n)) < unat len"
proof -
  define n where "n = PGSIZE - (va - PGROUNDDOWN va)"
  have n: "0 < unat n"
    using unat_diff32 [of PGSIZE "va - PGROUNDDOWN va"] unat_page_offset [of va] by (simp add: n_def [symmetric])
  have "0 < unat len" using assms by (simp add: unat_gt_0)
  then show ?thesis
    using n unfolding n_def [symmetric] Let_def
    by (cases "n > len") (simp_all add: word_less_nat_alt not_less unat_diff32)
qed

function copyout :: "addr \<Rightarrow> uint \<Rightarrow> stream \<Rightarrow> uint \<Rightarrow> ('z kmem_scheme, int) kop" where
  "copyout pgdir va buf len s =
     (if len = 0 then Ret 0 s
      else let va0 = PGROUNDDOWN va in
        (case uva2ka pgdir va0 s of
           Ret pa0 s \<Rightarrow>
             if pa0 = 0 then Ret (- 1) s
             else let n = (let n = PGSIZE - (va - va0) in if n > len then len else n) in
               copyout pgdir (va0 + PGSIZE) (\<lambda>i. buf (unat n + i)) (len - n)
                 (s\<lparr>k_mem := write_bytes (k_mem s) (pa0 + (va - va0)) buf n\<rparr>)
         | Sleep s \<Rightarrow> Sleep s
         | Panic m \<Rightarrow> Panic m))"
  by pat_completeness auto
termination
proof (relation "measure (\<lambda>(pgdir, va, buf, len, s). unat len)", goal_cases)
  case 1
  show ?case by simp
next
  case (2 pgdir va buf len)
  then show ?case using copyout_step [of len va] by simp
qed

declare copyout.simps [simp del]

text \<open>What the processor reads at a user address under a page directory; a missing mapping faults.\<close>

definition user_addr :: "mem \<Rightarrow> addr \<Rightarrow> addr \<Rightarrow> addr option" where
  "user_addr m pgdir va =
     (let e = get_pte m (pde_addr pgdir va) in
      if \<not> present e then None
      else let e = get_pte m (pte_addr (P2V (PTE_ADDR e)) va) in
        if \<not> present e then None else Some (P2V (PTE_ADDR e) + (va - PGROUNDDOWN va)))"

definition user_byte :: "mem \<Rightarrow> addr \<Rightarrow> addr \<Rightarrow> uchar option" where
  "user_byte m pgdir va = map_option m (user_addr m pgdir va)"

section \<open>\<^verbatim>\<open>growproc\<close>\<close>

definition growproc :: "int \<Rightarrow> ('z ptable_scheme, int) kop" where
  "growproc n =
     bindK myproc (\<lambda>p. derefK p (\<lambda>p s.
       let pd = p_pgdir (pt_procs s p); sz = p_sz (pt_procs s p);
           finish = (\<lambda>sz. seqK (modifyK (upd_proc p (\<lambda>q. q\<lparr>p_sz := sz\<rparr>)))
                             (seqK (switchuvm (Some p)) (retK 0))) in
       if n > 0
       then bindK (allocuvm pd sz (sz + word_of_int n)) (\<lambda>sz. if sz = 0 then retK (- 1) else finish sz) s
       else if n < 0
       then bindK (deallocuvm pd sz (sz + word_of_int n)) (\<lambda>sz. if sz = 0 then retK (- 1) else finish sz) s
       else finish sz s))"

end
