(* ===== verification/Vm_Map.thy ===== *)
theory Vm_Map
  imports Vm
begin

text \<open>
  What the page table functions do to the mapping a page directory denotes. The invariant says that
  the directory and its tables are different pages, none of them free; under it a store to one
  entry changes the mapping of one page only.
\<close>

section \<open>Entries of a page\<close>

lemma unat_entry: "i < 1024 \<Longrightarrow> unat ((4 * of_nat i) :: addr) = 4 * i"
proof -
  assume i: "i < 1024"
  have "(4 * of_nat i :: addr) = of_nat (4 * i)" by simp
  also have "unat (of_nat (4 * i) :: addr) = 4 * i" using i by (intro unat_of_nat32) simp
  finally show ?thesis .
qed

lemma entries_apart:
  assumes "i < 1024" "j < 1024" "i \<noteq> j"
  shows "4 \<le> unat ((p + 4 * of_nat i :: addr) - (p + 4 * of_nat j))"
proof -
  have "(p + 4 * of_nat i :: addr) - (p + 4 * of_nat j) = 4 * of_nat i - 4 * of_nat j" by simp
  then show ?thesis
    using assms unat_diff32 [of "4 * of_nat i" "4 * of_nat j"] by (simp add: unat_entry split: if_splits)
qed

lemma load32_other_entry:
  assumes "i < 1024" "j < 1024" "i \<noteq> j"
  shows "load32 (store32 m (p + 4 * of_nat i) v) (p + 4 * of_nat j) = load32 m (p + 4 * of_nat j)"
  using assms entries_apart [of i j p] entries_apart [of j i p] by (intro load32_store32_disjoint) auto

lemma in_page_entry:
  assumes "i < 1024" and "unat (x - (p + 4 * of_nat i)) < 4"
  shows "in_page p x"
proof -
  define y where "y = x - (p + 4 * of_nat i)"
  have "x - p = y + 4 * of_nat i" by (simp add: y_def)
  then have "unat (x - p) = unat y + 4 * i"
    using assms unat_add32 [of y "4 * of_nat i"] by (simp add: unat_entry y_def [symmetric])
  then show ?thesis using assms by (simp add: in_page_def y_def [symmetric])
qed

lemma load32_other_page:
  assumes "page_aligned p" "page_aligned q" "p \<noteq> q" "i < 1024"
    and "\<And>x. \<not> in_page q x \<Longrightarrow> m' x = m x"
  shows "load32 m' (p + 4 * of_nat i) = load32 m (p + 4 * of_nat i)"
proof (rule load32_cong)
  fix x assume "unat (x - (p + 4 * of_nat i)) < 4"
  then have "in_page p x" using in_page_entry assms(4) by blast
  then show "m' x = m x" using in_page_unique [OF assms(1,2)] assms(3,5) by blast
qed

lemma store32_outside_page:
  assumes "i < 1024" "\<not> in_page p x"
  shows "store32 m (p + 4 * of_nat i) v x = m x"
  using in_page_entry [OF assms(1), of x p] assms(2) by (auto simp: store32_apply)

lemma memset_outside_page: "\<not> in_page p x \<Longrightarrow> memset m p c PGSIZE x = m x"
  by (simp add: memset_apply in_page_def word_less_nat_alt)

lemma memset_zero_entry:
  assumes "i < 1024"
  shows "load32 (memset m p 0 PGSIZE) (p + 4 * of_nat i) = 0"
proof -
  have "memset m p 0 PGSIZE x = 0" if "unat (x - (p + 4 * of_nat i)) < 4" for x
    using in_page_entry [OF assms that] by (simp add: memset_apply in_page_def word_less_nat_alt)
  then have "load32 (memset m p 0 PGSIZE) (p + 4 * of_nat i) = load32 (\<lambda>_. 0) (p + 4 * of_nat i)"
    by (intro load32_cong)
  then show ?thesis by (simp add: load32_def join32_def)
qed

lemma PDX_less: "PDX va < 1024" and PTX_less: "PTX va < 1024"
proof -
  have "w AND 1023 = take_bit 10 w" for w :: addr
    by (simp add: take_bit_eq_mask mask_eq_exp_minus_1)
  then have "unat ((w :: addr) AND 1023) < 1024" for w
    by (simp add: unsigned_take_bit_eq take_bit_nat_def)
  then show "PDX va < 1024" "PTX va < 1024" by (simp_all add: PDX_def PTX_def)
qed

text \<open>Directory and table index determine the page of an address.\<close>

lemma PDX_eq: "PDX a = unat a div 4194304"
  and PTX_eq: "PTX a = unat a div 4096 mod 1024"
proof -
  have t: "w AND 1023 = take_bit 10 w" for w :: addr
    by (simp add: take_bit_eq_mask mask_eq_exp_minus_1)
  show "PDX a = unat a div 4194304"
    using unat_lt32 [of a]
    by (simp add: PDX_def t unsigned_take_bit_eq unsigned_drop_bit_eq drop_bit_nat_def take_bit_nat_def)
  show "PTX a = unat a div 4096 mod 1024"
    using unat_lt32 [of a] by (simp add: PTX_def t unsigned_take_bit_eq unsigned_drop_bit_eq drop_bit_nat_def take_bit_nat_def)
qed

lemma same_entry_iff: "PDX a = PDX b \<and> PTX a = PTX b \<longleftrightarrow> PGROUNDDOWN a = PGROUNDDOWN b"
proof -
  have "PGROUNDDOWN a = PGROUNDDOWN b \<longleftrightarrow> unat a div 4096 = unat b div 4096"
    by (simp add: word_unat_eq_iff unat_PGROUNDDOWN)
  moreover have "unat x div 4194304 = unat x div 4096 div 1024" for x :: addr
    by (simp add: div_mult2_eq [symmetric])
  ultimately show ?thesis
    unfolding PDX_eq PTX_eq by (metis div_mult_mod_eq)
qed

section \<open>Flags\<close>

lemma PTE_ADDR_or:
  assumes "page_aligned a" "f AND 4095 = f"
  shows "PTE_ADDR (a OR f) = a"
proof (rule bit_word_eqI)
  have low: "n < 12" if "bit f n" for n
  proof -
    have "bit (f AND mask 12) n" using that assms(2) by (simp add: mask12 [symmetric])
    then show ?thesis by (simp add: bit_simps)
  qed
  have "a AND mask 12 = 0"
    using assms(1) by (simp add: page_aligned_def word_unat_eq_iff and_4095 mask12 [symmetric])
  then have "\<not> bit (a AND mask 12) n" for n by simp
  then have high: "bit a n \<Longrightarrow> 12 \<le> n" for n
    using bit_imp_le_length [of a n] by (auto simp: bit_simps not_less [symmetric])
  fix n assume "n < LENGTH(32)"
  then show "bit (PTE_ADDR (a OR f)) n = bit a n"
    using low [of n] high [of n] unfolding PTE_ADDR_def mask12 by (auto simp: bit_simps)
qed

lemma page_aligned_P2V [simp]: "page_aligned (P2V (PTE_ADDR e))"
proof -
  have "unat (PTE_ADDR e) mod 4096 = 0" by (simp add: unat_PTE_ADDR)
  then show ?thesis by (auto simp: page_aligned_def P2V_def unat_add32)
qed

lemma page_aligned_V2P: "page_aligned k \<Longrightarrow> page_aligned (V2P k)"
  by (auto simp: page_aligned_def V2P_def unat_diff32)

lemma present_bit: "present e \<longleftrightarrow> bit e 0"
  by (simp add: present_def and_one_eq mod2_eq_if bit_0)

lemma present_or [simp]: "present (a OR b OR PTE_P)" "present (a OR 7)"
  unfolding present_bit by (simp_all add: bit_or_iff)

lemma table_entry_addr:
  assumes "page_aligned k"
  shows "P2V (PTE_ADDR (V2P k OR PTE_P OR PTE_W OR PTE_U)) = k"
proof -
  have "PTE_ADDR (V2P k OR (PTE_P OR PTE_W OR PTE_U)) = V2P k"
    by (rule PTE_ADDR_or) (simp_all add: page_aligned_V2P assms)
  then show ?thesis by (simp add: P2V_def V2P_def word_bw_assocs)
qed

section \<open>The mapping of a directory\<close>

definition has_table :: "mem \<Rightarrow> addr \<Rightarrow> nat \<Rightarrow> bool" where
  "has_table m pgdir i \<longleftrightarrow> present (load32 m (pgdir + 4 * of_nat i))"

definition table_of :: "mem \<Rightarrow> addr \<Rightarrow> nat \<Rightarrow> addr" where
  "table_of m pgdir i = P2V (PTE_ADDR (load32 m (pgdir + 4 * of_nat i)))"

text \<open>The entry that maps the page of an address, if there is one.\<close>

definition mapped :: "mem \<Rightarrow> addr \<Rightarrow> addr \<Rightarrow> uint option" where
  "mapped m pgdir va =
     (if has_table m pgdir (PDX va)
      then let e = load32 m (table_of m pgdir (PDX va) + 4 * of_nat (PTX va)) in
           if present e then Some e else None
      else None)"

definition pgdir_ok :: "'z kmem_scheme \<Rightarrow> addr \<Rightarrow> addr list \<Rightarrow> bool" where
  "pgdir_ok s pgdir ps \<longleftrightarrow> page_aligned pgdir \<and> pgdir \<notin> set ps \<and> free_pages s ps \<and> KmemLock \<notin> k_held s \<and>
     (\<forall>i < 1024. has_table (k_mem s) pgdir i \<longrightarrow>
        table_of (k_mem s) pgdir i \<noteq> pgdir \<and> table_of (k_mem s) pgdir i \<notin> set ps) \<and>
     (\<forall>i < 1024. \<forall>j < 1024. has_table (k_mem s) pgdir i \<and> has_table (k_mem s) pgdir j \<and>
        table_of (k_mem s) pgdir i = table_of (k_mem s) pgdir j \<longrightarrow> i = j)"

lemma walkpgdir_present:
  "has_table (k_mem s) pgdir (PDX va) \<Longrightarrow>
   walkpgdir pgdir va alloc s = Ret (Some (table_of (k_mem s) pgdir (PDX va) + 4 * of_nat (PTX va))) s"
  by (simp add: walkpgdir_def has_table_def table_of_def Let_def pde_addr_def pte_addr_def get_pte_def)

lemma walkpgdir_absent:
  "\<not> has_table (k_mem s) pgdir (PDX va) \<Longrightarrow> walkpgdir pgdir va False s = Ret None s"
  by (simp add: walkpgdir_def has_table_def Let_def pde_addr_def get_pte_def)

text \<open>A change confined to one page that is not free keeps the free list.\<close>

lemma free_pages_other_page:
  assumes "free_pages s ps" "page_aligned q" "q \<notin> set ps" "\<And>x. \<not> in_page q x \<Longrightarrow> m' x = k_mem s x"
  shows "free_pages (s\<lparr>k_mem := m'\<rparr>) ps"
proof -
  have "chain m' f ps = chain (k_mem s) f ps" for f
    using assms by (intro chain_cong load32_outside [of _ q]) (auto simp: free_pages_def valid_page_def)
  then show ?thesis using assms(1) by (simp add: free_pages_def)
qed

text \<open>A store to a table entry changes the mapping of that page alone.\<close>

lemma set_pte_mapped:
  fixes e :: uint
  assumes ok: "pgdir_ok s pgdir ps" and has: "has_table (k_mem s) pgdir (PDX va)"
    and s'_def: "s' = set_pte (table_of (k_mem s) pgdir (PDX va) + 4 * of_nat (PTX va)) e s"
  shows "pgdir_ok s' pgdir ps"
    and "mapped (k_mem s') pgdir va' =
      (if PGROUNDDOWN va' = PGROUNDDOWN va then (if present e then Some e else None)
       else mapped (k_mem s) pgdir va')"
proof -
  define t where "t = table_of (k_mem s) pgdir (PDX va)"
  have t: "page_aligned t" "t \<noteq> pgdir" "t \<notin> set ps" "page_aligned pgdir"
    using ok has PDX_less [of va] by (auto simp: t_def pgdir_ok_def table_of_def)
  have m: "k_mem s' = store32 (k_mem s) (t + 4 * of_nat (PTX va)) e" by (simp add: s'_def set_pte_def t_def)
  have out: "\<not> in_page t x \<Longrightarrow> k_mem s' x = k_mem s x" for x
    unfolding m by (rule store32_outside_page [OF PTX_less])
  have dir: "load32 (k_mem s') (pgdir + 4 * of_nat i) = load32 (k_mem s) (pgdir + 4 * of_nat i)" if "i < 1024" for i
    using t that out by (intro load32_other_page [of _ t]) auto
  then have same: "has_table (k_mem s') pgdir i = has_table (k_mem s) pgdir i"
    "table_of (k_mem s') pgdir i = table_of (k_mem s) pgdir i" if "i < 1024" for i
    using that by (simp_all add: has_table_def table_of_def)
  have "s' = s\<lparr>k_mem := k_mem s'\<rparr>" by (simp add: s'_def set_pte_def)
  then have "free_pages s' ps" "k_held s' = k_held s"
    using free_pages_other_page [of s ps t "k_mem s'"] ok t out by (auto simp: pgdir_ok_def s'_def set_pte_def)
  then show "pgdir_ok s' pgdir ps" using ok by (simp add: pgdir_ok_def same)
  show "mapped (k_mem s') pgdir va' =
      (if PGROUNDDOWN va' = PGROUNDDOWN va then (if present e then Some e else None)
       else mapped (k_mem s) pgdir va')"
  proof (cases "PDX va' = PDX va")
    case True
    have "load32 (k_mem s') (t + 4 * of_nat (PTX va')) =
        (if PTX va' = PTX va then e else load32 (k_mem s) (t + 4 * of_nat (PTX va')))"
      using PTX_less load32_other_entry [of "PTX va" "PTX va'"] unfolding m by auto
    then show ?thesis
      using True has same_entry_iff [of va' va] PDX_less [of va]
      by (auto simp: mapped_def same t_def [symmetric] Let_def)
  next
    case False
    then have ne: "PGROUNDDOWN va' \<noteq> PGROUNDDOWN va" using same_entry_iff [of va' va] by auto
    have "load32 (k_mem s') (table_of (k_mem s) pgdir (PDX va') + 4 * of_nat (PTX va')) =
        load32 (k_mem s) (table_of (k_mem s) pgdir (PDX va') + 4 * of_nat (PTX va'))"
      if "has_table (k_mem s) pgdir (PDX va')"
    proof (rule load32_other_page [of _ t])
      show "table_of (k_mem s) pgdir (PDX va') \<noteq> t"
        using ok that has False PDX_less [of va] PDX_less [of va'] by (auto simp: pgdir_ok_def t_def)
    qed (use t PTX_less out in \<open>auto simp: table_of_def\<close>)
    then show ?thesis using ne PDX_less [of va'] by (simp add: mapped_def same Let_def)
  qed
qed

section \<open>New tables\<close>

lemma walkpgdir_alloc:
  assumes ok: "pgdir_ok s pgdir (k # ks)" and no: "\<not> has_table (k_mem s) pgdir (PDX va)"
  obtains s' where "walkpgdir pgdir va True s = Ret (Some (k + 4 * of_nat (PTX va))) s'"
    "pgdir_ok s' pgdir ks" "has_table (k_mem s') pgdir (PDX va)" "table_of (k_mem s') pgdir (PDX va) = k"
    "\<And>va'. mapped (k_mem s') pgdir va' = mapped (k_mem s) pgdir va'"
proof -
  let ?e = "V2P k OR PTE_P OR PTE_W OR PTE_U"
  define m1 where "m1 = memset (k_mem s) k 0 PGSIZE"
  define m2 where "m2 = store32 m1 (pgdir + 4 * of_nat (PDX va)) ?e"
  define s' where "s' = s\<lparr>k_freelist := load32 (k_mem s) k, k_mem := m2\<rparr>"
  have k: "page_aligned k" "k \<noteq> 0" "k \<noteq> pgdir" "k \<notin> set ks" "page_aligned pgdir" "pgdir \<notin> set ks"
    "k_freelist s = k" "KmemLock \<notin> k_held s"
    and nt: "\<And>i. i < 1024 \<Longrightarrow> has_table (k_mem s) pgdir i \<Longrightarrow>
      table_of (k_mem s) pgdir i \<noteq> k \<and> table_of (k_mem s) pgdir i \<noteq> pgdir \<and> table_of (k_mem s) pgdir i \<notin> set ks"
    using ok by (auto simp: pgdir_ok_def free_pages_def valid_page_def)
  have o1: "\<not> in_page k x \<Longrightarrow> m1 x = k_mem s x" for x by (simp add: m1_def memset_outside_page)
  have o2: "\<not> in_page pgdir x \<Longrightarrow> m2 x = m1 x" for x
    unfolding m2_def by (rule store32_outside_page [OF PDX_less])
  have d1: "load32 m1 (pgdir + 4 * of_nat i) = load32 (k_mem s) (pgdir + 4 * of_nat i)" if "i < 1024" for i
    using k that o1 by (intro load32_other_page [of _ k]) auto
  have d2: "load32 m2 (pgdir + 4 * of_nat i) = (if i = PDX va then ?e else load32 (k_mem s) (pgdir + 4 * of_nat i))"
    if "i < 1024" for i
    using load32_other_entry [of "PDX va" i m1 pgdir ?e] PDX_less [of va] that d1 by (auto simp: m2_def)
  have h2: "has_table m2 pgdir i = (i = PDX va \<or> has_table (k_mem s) pgdir i)"
    "table_of m2 pgdir i = (if i = PDX va then k else table_of (k_mem s) pgdir i)" if "i < 1024" for i
    using d2 [OF that] table_entry_addr [OF k(1)] by (auto simp: has_table_def table_of_def)
  have run: "walkpgdir pgdir va True s = Ret (Some (k + 4 * of_nat (PTX va))) s'"
    using no k
    by (simp add: walkpgdir_def has_table_def Let_def pde_addr_def pte_addr_def get_pte_def kop_simps kalloc_eq
      set_pte_def s'_def m1_def m2_def)
  have "free_pages (s\<lparr>k_freelist := load32 (k_mem s) k\<rparr>) ks"
    using ok by (auto simp: pgdir_ok_def free_pages_def valid_page_def)
  then have "free_pages (s\<lparr>k_freelist := load32 (k_mem s) k, k_mem := m1\<rparr>) ks"
    using k o1 by (intro free_pages_other_page [of _ _ k]) auto
  from free_pages_other_page [OF this k(5,6), of m2] o2
  have "free_pages s' ks" by (simp add: s'_def)
  then have "pgdir_ok s' pgdir ks"
    using ok k unfolding pgdir_ok_def by (auto simp: h2 s'_def dest: nt)
  moreover have "mapped (k_mem s') pgdir va' = mapped (k_mem s) pgdir va'" for va'
  proof (cases "PDX va' = PDX va")
    case True
    have "load32 m2 (k + 4 * of_nat (PTX va')) = load32 m1 (k + 4 * of_nat (PTX va'))"
      using k o2 PTX_less by (intro load32_other_page [of _ pgdir]) auto
    also have "\<dots> = 0" unfolding m1_def by (rule memset_zero_entry [OF PTX_less])
    finally show ?thesis
      using True no PDX_less [of va] by (simp add: mapped_def s'_def h2 present_def)
  next
    case False
    have "load32 m2 (table_of (k_mem s) pgdir (PDX va') + 4 * of_nat (PTX va')) =
        load32 (k_mem s) (table_of (k_mem s) pgdir (PDX va') + 4 * of_nat (PTX va'))"
      if "has_table (k_mem s) pgdir (PDX va')"
    proof -
      have t: "page_aligned (table_of (k_mem s) pgdir (PDX va'))" by (simp add: table_of_def)
      note n = nt [OF PDX_less that]
      have "load32 m2 (table_of (k_mem s) pgdir (PDX va') + 4 * of_nat (PTX va')) =
          load32 m1 (table_of (k_mem s) pgdir (PDX va') + 4 * of_nat (PTX va'))"
        using n by (intro load32_other_page [OF t k(5) _ PTX_less] o2) simp
      also have "\<dots> = load32 (k_mem s) (table_of (k_mem s) pgdir (PDX va') + 4 * of_nat (PTX va'))"
        using n by (intro load32_other_page [OF t k(1) _ PTX_less] o1) simp
      finally show ?thesis .
    qed
    then show ?thesis using False PDX_less [of va'] by (simp add: mapped_def s'_def h2 Let_def)
  qed
  ultimately show thesis
    using that run PDX_less [of va] by (simp add: s'_def h2)
qed

lemma walkpgdir_no_page:
  "pgdir_ok s pgdir [] \<Longrightarrow> \<not> has_table (k_mem s) pgdir (PDX va) \<Longrightarrow> walkpgdir pgdir va True s = Ret None s"
  by (simp add: walkpgdir_def has_table_def Let_def pde_addr_def get_pte_def kop_simps pgdir_ok_def kalloc_empty)

text \<open>All cases of a walk that may allocate.\<close>

lemma walkpgdir_cases:
  assumes ok: "pgdir_ok s pgdir ps"
  obtains (fail) "ps = []" "walkpgdir pgdir va True s = Ret None s"
  | (pte) s' ps' where "walkpgdir pgdir va True s = Ret (Some (table_of (k_mem s') pgdir (PDX va) + 4 * of_nat (PTX va))) s'"
      "pgdir_ok s' pgdir ps'" "has_table (k_mem s') pgdir (PDX va)" "ps' = ps \<or> ps' = tl ps"
      "\<And>va'. mapped (k_mem s') pgdir va' = mapped (k_mem s) pgdir va'"
proof (cases "has_table (k_mem s) pgdir (PDX va)")
  case True
  then show thesis using pte [of s ps] ok walkpgdir_present [OF True] by simp
next
  case False
  show thesis
  proof (cases ps)
    case Nil
    then show thesis using fail ok walkpgdir_no_page [of s pgdir va] False by simp
  next
    case (Cons k ks)
    with ok have ok': "pgdir_ok s pgdir (k # ks)" by simp
    obtain s' where "walkpgdir pgdir va True s = Ret (Some (k + 4 * of_nat (PTX va))) s'"
      "pgdir_ok s' pgdir ks" "has_table (k_mem s') pgdir (PDX va)" "table_of (k_mem s') pgdir (PDX va) = k"
      "\<And>va'. mapped (k_mem s') pgdir va' = mapped (k_mem s) pgdir va'"
      by (rule walkpgdir_alloc [OF ok' False]) blast
    then show thesis using pte [of s' ks] Cons by simp
  qed
qed

section \<open>\<^verbatim>\<open>mappages\<close>\<close>

abbreviation page_no :: "addr \<Rightarrow> nat" where
  "page_no a \<equiv> unat a div 4096"

lemma PGROUNDDOWN_eq_iff: "PGROUNDDOWN a = PGROUNDDOWN b \<longleftrightarrow> page_no a = page_no b"
  by (simp add: word_unat_eq_iff unat_PGROUNDDOWN)

lemma PGROUNDDOWN_aligned: "page_aligned a \<Longrightarrow> PGROUNDDOWN a = a"
  by (auto simp: word_unat_eq_iff unat_PGROUNDDOWN page_aligned_def)

text \<open>The mapping after the pages \<open>a, \<dots>\<close> (\<open>n + 1\<close> of them) have been mapped to consecutive frames from \<open>pa\<close>.\<close>

definition with_range :: "(addr \<Rightarrow> uint option) \<Rightarrow> addr \<Rightarrow> nat \<Rightarrow> addr \<Rightarrow> uint \<Rightarrow> addr \<Rightarrow> uint option" where
  "with_range f a n pa perm va =
     (if page_no a \<le> page_no va \<and> page_no va \<le> page_no a + n
      then Some (pa + of_nat (4096 * (page_no va - page_no a)) OR perm OR PTE_P) else f va)"

lemma map_one:
  assumes ok: "pgdir_ok s pgdir ps" and free: "mapped (k_mem s) pgdir a = None"
  obtains (fail) "ps = []" "walkpgdir pgdir a True s = Ret None s"
  | (done') pte s1 s2 ps' where "walkpgdir pgdir a True s = Ret (Some pte) s1"
      "\<not> present (get_pte (k_mem s1) pte)" "s2 = set_pte pte (pa OR perm OR PTE_P) s1" "pgdir_ok s2 pgdir ps'"
      "ps' = ps \<or> ps' = tl ps" "mapped (k_mem s2) pgdir = with_range (mapped (k_mem s) pgdir) a 0 pa perm"
proof (cases rule: walkpgdir_cases [OF ok, of a, case_names fail pte])
  case fail
  then show ?thesis using that(1) by blast
next
  case (pte s1 ps')
  let ?p = "table_of (k_mem s1) pgdir (PDX a) + 4 * of_nat (PTX a)"
  let ?s2 = "set_pte ?p (pa OR perm OR PTE_P) s1"
  have "\<not> present (load32 (k_mem s1) ?p)"
    using free pte(3) pte(5) [of a] by (auto simp: mapped_def Let_def split: if_splits)
  then have "\<not> present (get_pte (k_mem s1) ?p)" by (simp add: get_pte_def)
  moreover have "mapped (k_mem ?s2) pgdir = with_range (mapped (k_mem s) pgdir) a 0 pa perm"
    using set_pte_mapped(2) [OF pte(2,3) refl, of "pa OR perm OR PTE_P"] pte(5)
    by (auto simp: fun_eq_iff with_range_def PGROUNDDOWN_eq_iff)
  ultimately show ?thesis
    using that(2) [OF pte(1) _ refl _ pte(4)] set_pte_mapped(1) [OF pte(2,3) refl] by blast
qed

lemma mappages_loop_maps:
  assumes "pgdir_ok s pgdir ps" and "page_aligned a" and "unat a + 4096 * n < 4294967296"
    and "lst = a + of_nat (4096 * n)"
    and "\<And>va. page_no a \<le> page_no va \<Longrightarrow> page_no va \<le> page_no a + n \<Longrightarrow> mapped (k_mem s) pgdir va = None"
  shows "\<exists>r s' ps'. mappages_loop pgdir a lst pa perm s = Ret r s' \<and> pgdir_ok s' pgdir ps' \<and>
    (r = 0 \<and> mapped (k_mem s') pgdir = with_range (mapped (k_mem s) pgdir) a n pa perm \<or>
     r = - 1 \<and> length ps \<le> n)"
  using assms
proof (induction n arbitrary: a pa s ps)
  case 0
  have free: "mapped (k_mem s) pgdir a = None" using 0(5) [of a] by simp
  show ?case
  proof (cases rule: map_one [OF 0(1) free, where pa = pa and perm = perm, case_names fail done'])
    case fail
    then show ?thesis using 0 by (auto simp: mappages_loop.simps [of pgdir a])
  next
    case (done' pte s1 s2 ps')
    then show ?thesis using 0 by (auto simp: mappages_loop.simps [of pgdir a] Let_def)
  qed
next
  case (Suc n)
  let ?b = "a + PGSIZE"
  have ub: "unat ?b = unat a + 4096" using Suc.prems(3) by (simp add: unat_add32)
  have pb: "page_no ?b = page_no a + 1" "page_aligned ?b" using Suc.prems(2) ub by (auto simp: page_aligned_def)
  have lst: "lst = ?b + of_nat (4096 * n)" using Suc.prems(4) by simp
  have "lst - a = of_nat (4096 * Suc n)" using Suc.prems(4) by simp
  then have far: "unat (lst - a) = 4096 * Suc n"
    using unat_of_nat32 [of "4096 * Suc n"] Suc.prems(3) by (simp only:)
  then have ne: "a \<noteq> lst" by auto
  have free: "mapped (k_mem s) pgdir a = None" using Suc.prems(5) [of a] by simp
  show ?case
  proof (cases rule: map_one [OF Suc.prems(1) free, where pa = pa and perm = perm, case_names fail done'])
    case fail
    then show ?thesis using Suc.prems(1) by (auto simp: mappages_loop.simps [of pgdir a])
  next
    case (done' pte s1 s2 ps')
    have step: "mappages_loop pgdir a lst pa perm s = mappages_loop pgdir ?b lst (pa + PGSIZE) perm s2"
      using done'(1-3) ne far by (simp add: mappages_loop.simps [of pgdir a] Let_def)
    have "mapped (k_mem s2) pgdir va = None" if "page_no ?b \<le> page_no va" "page_no va \<le> page_no ?b + n" for va
      using Suc.prems(5) [of va] that pb(1) unfolding done'(6) by (simp add: with_range_def)
    from Suc.IH [OF done'(4) pb(2) _ lst this, of "pa + PGSIZE"] ub Suc.prems(3)
    obtain r s' qs where r: "mappages_loop pgdir ?b lst (pa + PGSIZE) perm s2 = Ret r s'" "pgdir_ok s' pgdir qs"
      "r = 0 \<and> mapped (k_mem s') pgdir = with_range (mapped (k_mem s2) pgdir) ?b n (pa + PGSIZE) perm \<or>
       r = - 1 \<and> length ps' \<le> n" by auto
    have "with_range (with_range f a 0 pa perm) ?b n (pa + PGSIZE) perm = with_range f a (Suc n) pa perm" for f
    proof
      fix va
      show "with_range (with_range f a 0 pa perm) ?b n (pa + PGSIZE) perm va = with_range f a (Suc n) pa perm va"
      proof (cases "page_no ?b \<le> page_no va")
        case True
        then obtain i where "page_no va = page_no a + 1 + i" using pb(1) le_Suc_ex [of "page_no ?b"] by auto
        then show ?thesis using pb(1) by (simp add: with_range_def algebra_simps)
      next
        case False
        then show ?thesis using pb(1) by (auto simp: with_range_def)
      qed
    qed
    moreover have "length ps \<le> Suc (length ps')" using done'(5) by auto
    ultimately show ?thesis using r unfolding step done'(6) by auto
  qed
qed

text \<open>
  C15. \<^verbatim>\<open>mappages\<close> on a well-formed directory: it maps the pages of the range to consecutive frames with the
  given permissions and leaves the mapping of every other page as it was, keeping the directory
  well formed; it returns -1 only when fewer free pages were left than pages to map.
\<close>

theorem mappages_maps_range:
  assumes "pgdir_ok s pgdir ps" and "page_aligned va" and "unat va + 4096 * n < 4294967296"
    and "\<And>x. page_no va \<le> page_no x \<Longrightarrow> page_no x \<le> page_no va + n \<Longrightarrow> mapped (k_mem s) pgdir x = None"
  shows "\<exists>r s' ps'. mappages pgdir va (of_nat (4096 * n + 4096)) pa perm s = Ret r s' \<and> pgdir_ok s' pgdir ps' \<and>
    (r = 0 \<and> mapped (k_mem s') pgdir = with_range (mapped (k_mem s) pgdir) va n pa perm \<or>
     r = - 1 \<and> length ps \<le> n)"
proof -
  obtain k where k: "unat va = 4096 * k" using assms(2) by (auto simp: page_aligned_def mod_eq_0_iff_dvd)
  have "4096 * (k + n) < 4096 * 1048576" using assms(3) k by simp
  then have kn: "k + n < 1048576" by (simp only: mult_less_cancel1)
  have "va + of_nat (4096 * n + 4096) - 1 = va + of_nat (4096 * n + 4095)" by simp
  moreover have "unat (va + of_nat (4096 * n + 4095)) = 4096 * (k + n) + 4095"
    using kn k unat_of_nat32 [of "4096 * n + 4095"] unat_add32 [of va "of_nat (4096 * n + 4095)"] by simp
  moreover have "(4096 * (k + n) + 4095) div 4096 = k + n" by (rule div_nat_eqI) simp_all
  ultimately have "unat (PGROUNDDOWN (va + of_nat (4096 * n + 4096) - 1)) = unat va + 4096 * n"
    using k by (simp only: unat_PGROUNDDOWN) simp
  moreover have "unat (va + of_nat (4096 * n)) = unat va + 4096 * n"
    using assms(3) unat_of_nat32 [of "4096 * n"] unat_add32 [of va "of_nat (4096 * n)"] by simp
  ultimately have "PGROUNDDOWN (va + of_nat (4096 * n + 4096) - 1) = va + of_nat (4096 * n)"
    by (simp only: word_unat_eq_iff)
  then show ?thesis
    unfolding mappages_def PGROUNDDOWN_aligned [OF assms(2)]
    by (rule mappages_loop_maps [OF assms(1-3) _ assms(4)])
qed

theorem mappages_maps_range_witness:
  "\<exists>s' ps'. mappages 2152726528 0 4096 4096 PTE_U one_page_kmem = Ret 0 s' \<and> pgdir_ok s' 2152726528 ps' \<and>
     mapped (k_mem s') 2152726528 12 = Some (4096 OR PTE_U OR PTE_P) \<and> mapped (k_mem s') 2152726528 4096 = None"
proof -
  have z: "load32 (k_mem one_page_kmem) a = 0" for a
    by (simp add: one_page_kmem_def load32_def join32_def)
  have nt: "\<not> has_table (k_mem one_page_kmem) 2152726528 i" for i
    by (simp add: has_table_def z present_def)
  have "pgdir_ok one_page_kmem 2152726528 [2151677952]"
    by (simp add: pgdir_ok_def nt page_aligned_def)
  moreover have "mapped (k_mem one_page_kmem) 2152726528 va = None" for va
    by (simp add: mapped_def nt)
  ultimately obtain s' ps' where "mappages 2152726528 0 4096 4096 PTE_U one_page_kmem = Ret 0 s'"
    "pgdir_ok s' 2152726528 ps'"
    "mapped (k_mem s') 2152726528 = with_range (mapped (k_mem one_page_kmem) 2152726528) 0 0 4096 PTE_U"
    using mappages_maps_range [of one_page_kmem 2152726528 "[2151677952]" 0 0 4096 PTE_U]
    by (auto simp: page_aligned_def)
  moreover from this have "mapped (k_mem s') 2152726528 12 = Some (4096 OR PTE_U OR PTE_P)"
    "mapped (k_mem s') 2152726528 4096 = None"
    by (simp_all add: with_range_def mapped_def nt)
  ultimately show ?thesis by blast
qed

end
