(* ===== verification/Sleeplock.thy ===== *)
theory Sleeplock
  imports Sched
begin

text \<open>
  Sleeping locks (\<^verbatim>\<open>sleeplock.c\<close>), on top of \<^verbatim>\<open>sleep\<close> and \<^verbatim>\<open>wakeup\<close>. A lock that is taken puts the caller
  to sleep; when it runs again it goes through \<open>acquiresleep_wake\<close>, the rest of the loop.
\<close>

record sleepst = schedst +
  sl_locked :: "slid \<Rightarrow> bool"
  sl_pid :: "slid \<Rightarrow> int"

definition upd_sl :: "slid \<Rightarrow> bool \<Rightarrow> int \<Rightarrow> 'z sleepst_scheme \<Rightarrow> 'z sleepst_scheme" where
  "upd_sl l b p s = s\<lparr>sl_locked := (sl_locked s)(l := b), sl_pid := (sl_pid s)(l := p)\<rparr>"

definition initsleeplock :: "slid \<Rightarrow> 'z sleepst_scheme \<Rightarrow> 'z sleepst_scheme" where
  "initsleeplock l = upd_sl l False 0"

text \<open>The loop of \<^verbatim>\<open>acquiresleep\<close> and what follows it, with \<^verbatim>\<open>lk->lk\<close> held.\<close>

definition acquiresleep_loop :: "slid \<Rightarrow> ('z sleepst_scheme, unit) kop" where
  "acquiresleep_loop l = (\<lambda>s.
     if sl_locked s l then sleep (ChanSleeplock l) (Some (SleepLk l)) s
     else seqK (\<lambda>s. derefK (pt_cur s) (\<lambda>p s. Ret () (upd_sl l True (p_pid (pt_procs s p)) s)) s)
               (release (SleepLk l)) s)"

definition acquiresleep :: "slid \<Rightarrow> ('z sleepst_scheme, unit) kop" where
  "acquiresleep l = seqK (acquire (SleepLk l)) (acquiresleep_loop l)"

definition acquiresleep_wake :: "slid \<Rightarrow> ('z sleepst_scheme, unit) kop" where
  "acquiresleep_wake l = seqK (sleep_wake (SleepLk l)) (acquiresleep_loop l)"

definition releasesleep :: "slid \<Rightarrow> ('z sleepst_scheme, unit) kop" where
  "releasesleep l =
     seqK (acquire (SleepLk l))
    (seqK (modifyK (upd_sl l False 0))
    (seqK (wakeup (ChanSleeplock l))
          (release (SleepLk l))))"

definition holdingsleep :: "slid \<Rightarrow> ('z sleepst_scheme, bool) kop" where
  "holdingsleep l =
     seqK (acquire (SleepLk l))
    (bindK (getK (\<lambda>s. sl_locked s l)) (\<lambda>r.
     seqK (release (SleepLk l)) (retK r)))"

section \<open>What the operations do\<close>

lemma upd_sl_simps [simp]:
  "k_held (upd_sl l b p s) = k_held s" "pt_procs (upd_sl l b p s) = pt_procs s" "pt_cur (upd_sl l b p s) = pt_cur s"
  "sl_locked (upd_sl l b p s) = (sl_locked s)(l := b)" "sl_pid (upd_sl l b p s) = (sl_pid s)(l := p)"
  "sleepst.more (upd_sl l b p s) = sleepst.more s"
  by (simp_all add: upd_sl_def)

lemma holdingsleep_eq [simp]:
  "SleepLk l \<notin> k_held s \<Longrightarrow> holdingsleep l s = Ret (sl_locked s l) s"
  by (simp add: holdingsleep_def kop_simps)

lemma acquiresleep_free:
  "SleepLk l \<notin> k_held s \<Longrightarrow> \<not> sl_locked s l \<Longrightarrow> pt_cur s = Some p \<Longrightarrow>
   acquiresleep l s = Ret () (upd_sl l True (p_pid (pt_procs s p)) s)"
  by (cases s) (simp add: acquiresleep_def acquiresleep_loop_def kop_simps upd_sl_def)

lemma acquiresleep_taken:
  assumes "k_held s = {}" and "sl_locked s l" and "pt_cur s = Some p"
  shows "acquiresleep l s = Sleep (upd_proc p (\<lambda>q. q\<lparr>p_chan := Some (ChanSleeplock l), p_state := SLEEPING\<rparr>)
    (s\<lparr>k_held := {PtableLock}\<rparr>))"
  using assms by (simp add: acquiresleep_def acquiresleep_loop_def kop_simps sleep_eq)

definition wake_all :: "chan \<Rightarrow> 'z ptable_scheme \<Rightarrow> 'z ptable_scheme" where
  "wake_all c s = s\<lparr>pt_procs := (\<lambda>i. if i < NPROC then wake_proc c (pt_procs s i) else pt_procs s i)\<rparr>"

lemma releasesleep_eq:
  assumes "SleepLk l \<notin> k_held s" and "PtableLock \<notin> k_held s"
  shows "releasesleep l s = Ret () (wake_all (ChanSleeplock l) (upd_sl l False 0 s))"
  using assms
  by (cases s) (simp add: releasesleep_def kop_simps wakeup_eq upd_sl_def wake_all_def cong: if_cong)

text \<open>
  C24. Sleep locks hand over: a second process that asks for a taken lock goes to sleep; when the
  holder releases the lock that process is runnable, and when it runs again, and no one took the
  lock in between, it leaves \<^verbatim>\<open>acquiresleep\<close> as the holder, with no spin lock held.
\<close>

theorem sleeplock_handover:
  assumes "k_held s = {}" and "sl_locked s l" and "pt_cur s = Some p" and "p < NPROC" and "q \<noteq> p"
  shows "\<exists>s1 s2 s3 s4. acquiresleep l s = Sleep s1 \<and> k_held s1 = {PtableLock} \<and>
    release PtableLock s1 = Ret () s2 \<and>
    releasesleep l (s2\<lparr>pt_cur := Some q\<rparr>) = Ret () s3 \<and> p_state (pt_procs s3 p) = RUNNABLE \<and>
    acquiresleep_wake l (s3\<lparr>pt_cur := Some p, k_held := {PtableLock}\<rparr>) = Ret () s4 \<and>
    sl_locked s4 l \<and> sl_pid s4 l = p_pid (pt_procs s p) \<and> k_held s4 = {}"
proof -
  define s1 where "s1 = upd_proc p (\<lambda>q. q\<lparr>p_chan := Some (ChanSleeplock l), p_state := SLEEPING\<rparr>)
    (s\<lparr>k_held := {PtableLock}\<rparr>)"
  define s2 where "s2 = s1\<lparr>k_held := {}\<rparr>"
  define s3 where "s3 = wake_all (ChanSleeplock l) (upd_sl l False 0 (s2\<lparr>pt_cur := Some q\<rparr>))"
  have "acquiresleep l s = Sleep s1" using acquiresleep_taken [OF assms(1-3)] by (simp add: s1_def)
  moreover have k1: "k_held s1 = {PtableLock}" by (simp add: s1_def)
  moreover have "release PtableLock s1 = Ret () s2" by (simp add: k1 s2_def)
  moreover have "releasesleep l (s2\<lparr>pt_cur := Some q\<rparr>) = Ret () s3"
    by (simp add: releasesleep_eq s3_def s2_def)
  moreover have r3: "p_state (pt_procs s3 p) = RUNNABLE" "p_pid (pt_procs s3 p) = p_pid (pt_procs s p)"
    "\<not> sl_locked s3 l"
    using assms(4) by (simp_all add: s3_def s2_def s1_def wake_all_def wake_proc_def)
  moreover have "\<exists>s4. acquiresleep_wake l (s3\<lparr>pt_cur := Some p, k_held := {PtableLock}\<rparr>) = Ret () s4 \<and>
      sl_locked s4 l \<and> sl_pid s4 l = p_pid (pt_procs s p) \<and> k_held s4 = {}"
    using r3 by (simp add: acquiresleep_wake_def sleep_wake_def myproc_def kop_simps acquiresleep_loop_def upd_proc_def)
  ultimately show ?thesis by blast
qed

definition boot_sleep :: sleepst where
  "boot_sleep = schedst.extend boot_sched (sleepst.fields (\<lambda>_. False) (\<lambda>_. 0))"

lemma boot_sleep_simps [simp]: "k_held boot_sleep = {}"
  by (simp add: boot_sleep_def sleepst.defs boot_sched_defs Let_def upd_st_def upd_lv_def)

theorem sleeplock_handover_witness:
  "\<exists>s1. acquiresleep (BufSleep 4) (boot_sleep\<lparr>pt_cur := Some 5, sl_locked := (\<lambda>_. True)\<rparr>) = Sleep s1 \<and>
     k_held s1 = {PtableLock}"
  using sleeplock_handover [of "boot_sleep\<lparr>pt_cur := Some 5, sl_locked := (\<lambda>_. True)\<rparr>" "BufSleep 4" 5 6]
  by auto

end
