(* ===== verification/Disk_Layout.thy ===== *)
theory Disk_Layout
  imports Mem_String
begin

text \<open>
  The on-disk format (\<^verbatim>\<open>fs.h\<close>): superblock, inodes, directory entries and the log header, as bytes
  of a block and as the records the kernel casts a block to. All numbers are little endian.
\<close>

section \<open>Numbers in a block\<close>

definition get16 :: "stream \<Rightarrow> nat \<Rightarrow> ushort" where
  "get16 d o' = ucast (d o') OR push_bit 8 (ucast (d (o' + 1)))"

definition put16 :: "stream \<Rightarrow> nat \<Rightarrow> ushort \<Rightarrow> stream" where
  "put16 d o' v = d(o' := ucast v, o' + 1 := ucast (drop_bit 8 v))"

definition get32 :: "stream \<Rightarrow> nat \<Rightarrow> uint" where
  "get32 d o' = join32 (d o') (d (o' + 1)) (d (o' + 2)) (d (o' + 3))"

definition put32 :: "stream \<Rightarrow> nat \<Rightarrow> uint \<Rightarrow> stream" where
  "put32 d o' v = d(o' := byte_of 0 v, o' + 1 := byte_of 1 v, o' + 2 := byte_of 2 v, o' + 3 := byte_of 3 v)"

text \<open>\<^verbatim>\<open>memmove\<close> of \<open>n\<close> bytes into a block at an offset, and \<^verbatim>\<open>memset\<close> of a part of a block.\<close>

definition put_bytes :: "stream \<Rightarrow> nat \<Rightarrow> stream \<Rightarrow> nat \<Rightarrow> stream" where
  "put_bytes d o' b n = (\<lambda>i. if o' \<le> i \<and> i < o' + n then b (i - o') else d i)"

section \<open>Structures\<close>

abbreviation (input) BSIZE :: nat where "BSIZE \<equiv> 512"
abbreviation (input) NDIRECT :: nat where "NDIRECT \<equiv> 10"
abbreviation (input) NINDIRECT :: nat where "NINDIRECT \<equiv> 128"
abbreviation (input) MAXFILE :: nat where "MAXFILE \<equiv> 2113674"
abbreviation (input) IPB :: nat where "IPB \<equiv> 8"
abbreviation (input) BPB :: nat where "BPB \<equiv> 4096"
abbreviation (input) DIRSIZ :: nat where "DIRSIZ \<equiv> 14"
abbreviation (input) ROOTINO :: uint where "ROOTINO \<equiv> 1"
abbreviation (input) T_DIR :: ushort where "T_DIR \<equiv> 1"
abbreviation (input) T_FILE :: ushort where "T_FILE \<equiv> 2"
abbreviation (input) T_DEV :: ushort where "T_DEV \<equiv> 3"

record superblock =
  sb_size :: uint
  sb_nblocks :: uint
  sb_ninodes :: uint
  sb_nlog :: uint
  sb_logstart :: uint
  sb_inodestart :: uint
  sb_bmapstart :: uint

definition get_superblock :: "stream \<Rightarrow> superblock" where
  "get_superblock d = \<lparr>sb_size = get32 d 0, sb_nblocks = get32 d 4, sb_ninodes = get32 d 8, sb_nlog = get32 d 12,
     sb_logstart = get32 d 16, sb_inodestart = get32 d 20, sb_bmapstart = get32 d 24\<rparr>"

record dinode =
  d_type :: ushort
  d_major :: ushort
  d_minor :: ushort
  d_nlink :: ushort
  d_size :: uint
  d_addrs :: "uint list"

text \<open>The inode in slot \<open>k\<close> of an inode block: \<^verbatim>\<open>(struct dinode* )bp->data + k\<close>, of 64 bytes.\<close>

definition get_dinode :: "stream \<Rightarrow> nat \<Rightarrow> dinode" where
  "get_dinode d k = \<lparr>d_type = get16 d (64 * k), d_major = get16 d (64 * k + 2), d_minor = get16 d (64 * k + 4),
     d_nlink = get16 d (64 * k + 6), d_size = get32 d (64 * k + 8),
     d_addrs = map (\<lambda>i. get32 d (64 * k + 12 + 4 * i)) [0..<NDIRECT + 3]\<rparr>"

definition put_dinode :: "stream \<Rightarrow> nat \<Rightarrow> dinode \<Rightarrow> stream" where
  "put_dinode d k x =
     fold (\<lambda>i d. put32 d (64 * k + 12 + 4 * i) (d_addrs x ! i)) [0..<NDIRECT + 3]
       (put32 (put16 (put16 (put16 (put16 d (64 * k) (d_type x)) (64 * k + 2) (d_major x)) (64 * k + 4) (d_minor x))
          (64 * k + 6) (d_nlink x)) (64 * k + 8) (d_size x))"

definition IBLOCK :: "uint \<Rightarrow> superblock \<Rightarrow> uint" where
  "IBLOCK i sb = i div of_nat IPB + sb_inodestart sb"

definition BBLOCK :: "uint \<Rightarrow> superblock \<Rightarrow> uint" where
  "BBLOCK b sb = b div of_nat BPB + sb_bmapstart sb"

text \<open>A directory entry, 16 bytes: the inode number and a name of at most \<^verbatim>\<open>DIRSIZ\<close> bytes, padded with
  NUL.\<close>

record dirent =
  de_inum :: ushort
  de_name :: "uchar list"

definition get_dirent :: "stream \<Rightarrow> dirent" where
  "get_dirent d = \<lparr>de_inum = get16 d 0, de_name = map (\<lambda>i. d (2 + i)) [0..<DIRSIZ]\<rparr>"

definition put_dirent :: "dirent \<Rightarrow> stream" where
  "put_dirent de = put_bytes (put16 (\<lambda>_. 0) 0 (de_inum de)) 2 (\<lambda>i. de_name de ! i) DIRSIZ"

section \<open>Reading back what was written\<close>

lemma get16_put16 [simp]: "get16 (put16 d a v) a = v"
  by (rule bit_word_eqI) (auto simp: get16_def put16_def bit_simps)

lemma get32_put32 [simp]: "get32 (put32 d a v) a = v"
  by (simp add: get32_def put32_def join32_bytes [unfolded One_nat_def])

lemma put16_other [simp]: "i < a \<or> a + 1 < i \<Longrightarrow> put16 d a v i = d i"
  by (auto simp: put16_def)

lemma put32_other [simp]: "i < a \<or> a + 3 < i \<Longrightarrow> put32 d a v i = d i"
  by (auto simp: put32_def)

lemma get16_cong: "d a = e a \<Longrightarrow> d (Suc a) = e (Suc a) \<Longrightarrow> get16 d a = get16 e a"
  by (simp add: get16_def)

lemma get32_cong: "(\<And>i. a \<le> i \<Longrightarrow> i < a + 4 \<Longrightarrow> d i = e i) \<Longrightarrow> get32 d a = get32 e a"
  by (simp add: get32_def)

lemma get32_put32_other: "a + 4 \<le> b \<or> b + 4 \<le> a \<Longrightarrow> get32 (put32 d b v) a = get32 d a"
  by (rule get32_cong) auto

lemma get16_put16_other: "a + 2 \<le> b \<or> b + 2 \<le> a \<Longrightarrow> get16 (put16 d b v) a = get16 d a"
  by (rule get16_cong) auto

lemma get16_put32_other: "a + 2 \<le> b \<or> b + 4 \<le> a \<Longrightarrow> get16 (put32 d b v) a = get16 d a"
  by (rule get16_cong) auto

lemmas get_put_other = get16_put16_other get16_put32_other get32_put32_other

text \<open>A row of 32-bit numbers.\<close>

lemma put32_row_other:
  "i < b \<or> b + 4 * n \<le> i \<Longrightarrow> fold (\<lambda>i d. put32 d (b + 4 * i) (v i)) [0..<n] d i = d i"
  by (induction n) auto

lemma get32_put32_row:
  "j < n \<Longrightarrow> get32 (fold (\<lambda>i d. put32 d (b + 4 * i) (v i)) [0..<n] d) (b + 4 * j) = v j"
  by (induction n) (auto simp: less_Suc_eq get32_put32_other)

lemma get_dinode_put_dinode:
  assumes "length (d_addrs x) = NDIRECT + 3"
  shows "get_dinode (put_dinode d k x) k = x"
proof -
  define e where "e = put32 (put16 (put16 (put16 (put16 d (64 * k) (d_type x)) (64 * k + 2) (d_major x)) (64 * k + 4) (d_minor x))
          (64 * k + 6) (d_nlink x)) (64 * k + 8) (d_size x)"
  have p: "put_dinode d k x = fold (\<lambda>i d. put32 d (64 * k + 12 + 4 * i) (d_addrs x ! i)) [0..<NDIRECT + 3] e"
    by (simp only: put_dinode_def e_def)
  have low: "put_dinode d k x i = e i" if "i < 64 * k + 12" for i
    unfolding p by (rule put32_row_other) (use that in simp)
  have h: "get16 (put_dinode d k x) a = get16 e a" if "a + 1 < 64 * k + 12" for a
    by (rule get16_cong) (use that in \<open>simp_all add: low\<close>)
  have "get16 e (64 * k) = d_type x" "get16 e (64 * k + 2) = d_major x" "get16 e (64 * k + 4) = d_minor x"
    "get16 e (64 * k + 6) = d_nlink x" "get32 e (64 * k + 8) = d_size x"
    by (simp_all add: e_def get_put_other)
  moreover have "get32 (put_dinode d k x) (64 * k + 8) = get32 e (64 * k + 8)"
    by (rule get32_cong) (simp add: low)
  moreover have "map (\<lambda>i. get32 (put_dinode d k x) (64 * k + 12 + 4 * i)) [0..<NDIRECT + 3] = d_addrs x"
    unfolding p by (rule nth_equalityI) (simp_all only: assms length_map length_upt nth_map nth_upt add_0 get32_put32_row diff_zero)
  ultimately show ?thesis by (simp only: get_dinode_def) (simp add: h)
qed

text \<open>Writing one inode leaves the bytes outside its slot alone, so the other inodes of the block.\<close>

lemma put_dinode_other: "i < 64 * k \<or> 64 * k + 64 \<le> i \<Longrightarrow> put_dinode d k x i = d i"
  unfolding put_dinode_def by (subst put32_row_other) auto

lemma get_dinode_cong: "(\<And>i. 64 * k \<le> i \<Longrightarrow> i < 64 * k + 64 \<Longrightarrow> d i = e i) \<Longrightarrow> get_dinode d k = get_dinode e k"
  by (auto simp: get_dinode_def intro!: get16_cong get32_cong)

lemma get_dinode_put_other:
  assumes "j \<noteq> k"
  shows "get_dinode (put_dinode d k x) j = get_dinode d j"
  by (rule get_dinode_cong, rule put_dinode_other) (use assms in linarith)

lemma length_get_dinode [simp]: "length (d_addrs (get_dinode d k)) = NDIRECT + 3"
  by (simp add: get_dinode_def)

lemma get_dirent_put_dirent:
  assumes "length (de_name de) = DIRSIZ"
  shows "get_dirent (put_dirent de) = de"
proof -
  have "map (\<lambda>i. put_dirent de (2 + i)) [0..<DIRSIZ] = de_name de"
    by (rule nth_equalityI) (simp_all add: assms put_dirent_def put_bytes_def)
  moreover have "get16 (put_dirent de) 0 = de_inum de"
    unfolding put_dirent_def by (subst get16_cong [of _ _ "put16 (\<lambda>_. 0) 0 (de_inum de)"]) (simp_all add: put_bytes_def)
  ultimately show ?thesis by (simp only: get_dirent_def) simp
qed

end
