(* ===== verification/Bio.thy ===== *)
theory Bio
  imports Sleeplock Disk_Layout
begin

text \<open>
  The buffer cache (\<^verbatim>\<open>bio.c\<close>) over the in-memory disk driver (\<^verbatim>\<open>memide.c\<close>). A \<^verbatim>\<open>struct buf *\<close> is an index
  below \<^verbatim>\<open>NBUF\<close>; the doubly linked list through \<^verbatim>\<open>bcache.head\<close> is the list of buffers from
  \<^verbatim>\<open>head.next\<close> on. The data of a block is a function from offsets, of which the first \<^verbatim>\<open>BSIZE\<close> are
  the block; copying \<^verbatim>\<open>BSIZE\<close> bytes is an assignment. \<open>dk_hist\<close> records the disk contents before each write, for the
  crash arguments of the log.
\<close>

section \<open>State\<close>

record buf =
  b_valid :: bool
  b_dirty :: bool
  b_dev :: uint
  b_blockno :: uint
  b_refcnt :: int
  b_data :: stream

type_synonym disk = "nat \<Rightarrow> stream"

record bio = sleepst +
  bc_bufs :: "nat \<Rightarrow> buf"
  bc_list :: "nat list"
  dk :: disk
  dk_size :: uint
  dk_hist :: "disk list"

definition upd_buf :: "nat \<Rightarrow> (buf \<Rightarrow> buf) \<Rightarrow> 'z bio_scheme \<Rightarrow> 'z bio_scheme" where
  "upd_buf b f s = s\<lparr>bc_bufs := (bc_bufs s)(b := f (bc_bufs s b))\<rparr>"

section \<open>Operations\<close>

text \<open>\<^verbatim>\<open>binit\<close>: every buffer is inserted after the head, so the last one comes first.\<close>

definition binit :: "('z bio_scheme, unit) kop" where
  "binit =
     seqK (modifyK (\<lambda>s. s\<lparr>bc_list := []\<rparr>))
          (forK [0..<NBUF] (\<lambda>b. modifyK (\<lambda>s. (initsleeplock (BufSleep b) s)\<lparr>bc_list := b # bc_list s\<rparr>)))"

definition iderw :: "nat \<Rightarrow> ('z bio_scheme, unit) kop" where
  "iderw b =
     bindK (holdingsleep (BufSleep b)) (\<lambda>h.
     if \<not> h then panic ''iderw: buf not locked''
     else (\<lambda>s.
       let B = bc_bufs s b in
       if b_valid B \<and> \<not> b_dirty B then Panic ''iderw: nothing to do''
       else if b_dev B \<noteq> 1 then Panic ''iderw: request not for disk 1''
       else if b_blockno B \<ge> dk_size s then Panic ''iderw: block out of range''
       else if b_dirty B
       then Ret () (upd_buf b (\<lambda>B. B\<lparr>b_dirty := False, b_valid := True\<rparr>)
              (s\<lparr>dk_hist := dk s # dk_hist s, dk := (dk s)(unat (b_blockno B) := b_data B)\<rparr>))
       else Ret () (upd_buf b (\<lambda>B. B\<lparr>b_data := dk s (unat (b_blockno B)), b_valid := True\<rparr>) s)))"

definition bget :: "uint \<Rightarrow> uint \<Rightarrow> ('z bio_scheme, nat) kop" where
  "bget dev blockno =
     seqK (acquire BcacheLock) (\<lambda>s.
     case List.find (\<lambda>b. b_dev (bc_bufs s b) = dev \<and> b_blockno (bc_bufs s b) = blockno) (bc_list s) of
       Some b \<Rightarrow>
         seqK (modifyK (upd_buf b (\<lambda>B. B\<lparr>b_refcnt := b_refcnt B + 1\<rparr>)))
        (seqK (release BcacheLock)
        (seqK (acquiresleep (BufSleep b)) (retK b))) s
     | None \<Rightarrow>
        (case List.find (\<lambda>b. b_refcnt (bc_bufs s b) = 0 \<and> \<not> b_dirty (bc_bufs s b)) (rev (bc_list s)) of
           Some b \<Rightarrow>
             seqK (modifyK (upd_buf b (\<lambda>B. B\<lparr>b_dev := dev, b_blockno := blockno, b_valid := False,
                                         b_dirty := False, b_refcnt := 1\<rparr>)))
            (seqK (release BcacheLock)
            (seqK (acquiresleep (BufSleep b)) (retK b))) s
         | None \<Rightarrow> Panic ''bget: no buffers''))"

definition bread :: "uint \<Rightarrow> uint \<Rightarrow> ('z bio_scheme, nat) kop" where
  "bread dev blockno =
     bindK (bget dev blockno) (\<lambda>b.
     seqK (\<lambda>s. whenK (\<not> b_valid (bc_bufs s b)) (iderw b) s) (retK b))"

definition bwrite :: "nat \<Rightarrow> ('z bio_scheme, unit) kop" where
  "bwrite b =
     bindK (holdingsleep (BufSleep b)) (\<lambda>h.
     if \<not> h then panic ''bwrite''
     else seqK (modifyK (upd_buf b (\<lambda>B. B\<lparr>b_dirty := True\<rparr>))) (iderw b))"

definition brelse :: "nat \<Rightarrow> ('z bio_scheme, unit) kop" where
  "brelse b =
     bindK (holdingsleep (BufSleep b)) (\<lambda>h.
     if \<not> h then panic ''brelse''
     else
       seqK (releasesleep (BufSleep b))
      (seqK (acquire BcacheLock)
      (seqK (modifyK (upd_buf b (\<lambda>B. B\<lparr>b_refcnt := b_refcnt B - 1\<rparr>)))
      (seqK (\<lambda>s. whenK (b_refcnt (bc_bufs s b) = 0)
                  (modifyK (\<lambda>s. s\<lparr>bc_list := b # remove1 b (bc_list s)\<rparr>)) s)
            (release BcacheLock)))))"

section \<open>The invariant\<close>

text \<open>Changes that do not concern the cache and the locks.\<close>

lemma upd_buf_simps [simp]:
  "k_held (upd_buf b f s) = k_held s" "pt_procs (upd_buf b f s) = pt_procs s" "pt_cur (upd_buf b f s) = pt_cur s"
  "sl_locked (upd_buf b f s) = sl_locked s" "bc_bufs (upd_buf b f s) = (bc_bufs s)(b := f (bc_bufs s b))"
  "bc_list (upd_buf b f s) = bc_list s" "dk (upd_buf b f s) = dk s" "dk_size (upd_buf b f s) = dk_size s"
  "dk_hist (upd_buf b f s) = dk_hist s" "bio.more (upd_buf b f s) = bio.more s"
  by (simp_all add: upd_buf_def)

lemma upd_sl_bio [simp]:
  "bc_bufs (upd_sl l b p s) = bc_bufs s" "bc_list (upd_sl l b p s) = bc_list s" "dk (upd_sl l b p s) = dk s"
  "dk_size (upd_sl l b p s) = dk_size s" "dk_hist (upd_sl l b p s) = dk_hist s" "bio.more (upd_sl l b p s) = bio.more s"
  by (simp_all add: upd_sl_def)

lemma wake_all_bio [simp]:
  "bc_bufs (wake_all c s) = bc_bufs s" "bc_list (wake_all c s) = bc_list s" "dk (wake_all c s) = dk s"
  "dk_size (wake_all c s) = dk_size s" "dk_hist (wake_all c s) = dk_hist s" "bio.more (wake_all c s) = bio.more s"
  "k_held (wake_all c s) = k_held s" "pt_cur (wake_all c s) = pt_cur s" "sl_locked (wake_all c s) = sl_locked s"
  by (simp_all add: wake_all_def)

lemma k_held_id: "k_held s = h \<Longrightarrow> s\<lparr>k_held := h\<rparr> = s"
  by simp

lemma k_held_commute [simp]:
  "(upd_buf b f s)\<lparr>k_held := h\<rparr> = upd_buf b f (s\<lparr>k_held := h\<rparr>)"
  "(upd_sl l c p s)\<lparr>k_held := h\<rparr> = upd_sl l c p (s\<lparr>k_held := h\<rparr>)"
  by (cases s, simp add: upd_buf_def upd_sl_def)+

lemma bc_list_k_held: "s\<lparr>bc_list := l, k_held := h\<rparr> = s\<lparr>k_held := h, bc_list := l\<rparr>"
  by simp

lemma upd_buf_upd_sl [simp]: "upd_buf b f (upd_sl l c p s) = upd_sl l c p (upd_buf b f s)"
  by (cases s) (simp add: upd_buf_def upd_sl_def)

lemma upd_buf_upd_buf [simp]: "upd_buf b f (upd_buf b g s) = upd_buf b (\<lambda>B. f (g B)) s"
  by (simp add: upd_buf_def)

lemma upd_buf_eqI: "f (bc_bufs s b) = g (bc_bufs s b) \<Longrightarrow> upd_buf b f s = upd_buf b g s"
  by (simp add: upd_buf_def)

text \<open>
  The cache as one process sees it that holds the buffers \<open>H\<close> while no other process is inside the
  cache: the list holds every buffer once; a block of the disk is in at most one buffer; exactly the
  buffers in \<open>H\<close> are locked and referenced; a buffer with a block of the disk is valid, and if
  it is clean and not held it has the data of the disk.
\<close>

definition bc_inv :: "nat set \<Rightarrow> 'z bio_scheme \<Rightarrow> bool" where
  "bc_inv H s \<longleftrightarrow> distinct (bc_list s) \<and> set (bc_list s) = {..<NBUF} \<and> H \<subseteq> {..<NBUF} \<and>
     k_held s = {} \<and> pt_cur s \<noteq> None \<and>
     (\<forall>a < NBUF. \<forall>b < NBUF. b_dev (bc_bufs s a) = 1 \<and> b_dev (bc_bufs s b) = 1 \<and>
        b_blockno (bc_bufs s a) = b_blockno (bc_bufs s b) \<longrightarrow> a = b) \<and>
     (\<forall>b < NBUF. sl_locked s (BufSleep b) = (b \<in> H) \<and> b_refcnt (bc_bufs s b) = (if b \<in> H then 1 else 0) \<and>
        (b_dev (bc_bufs s b) = 1 \<longrightarrow> b_valid (bc_bufs s b)) \<and>
        (b_dirty (bc_bufs s b) \<or> b \<in> H \<longrightarrow> b_dev (bc_bufs s b) = 1) \<and>
        (\<not> b_dirty (bc_bufs s b) \<and> b \<notin> H \<and> b_dev (bc_bufs s b) = 1 \<longrightarrow>
           b_data (bc_bufs s b) = dk s (unat (b_blockno (bc_bufs s b)))))"

text \<open>The buffer of a block, and the contents of a block as the kernel sees it.\<close>

definition cached :: "'z bio_scheme \<Rightarrow> uint \<Rightarrow> nat option" where
  "cached s n = List.find (\<lambda>b. b_dev (bc_bufs s b) = 1 \<and> b_blockno (bc_bufs s b) = n) [0..<NBUF]"

definition blk :: "'z bio_scheme \<Rightarrow> uint \<Rightarrow> stream" where
  "blk s n = (case cached s n of
       Some b \<Rightarrow> if b_valid (bc_bufs s b) then b_data (bc_bufs s b) else dk s (unat n)
     | None \<Rightarrow> dk s (unat n))"

definition dirty_bufs :: "'z bio_scheme \<Rightarrow> nat set" where
  "dirty_bufs s = {b. b < NBUF \<and> b_dirty (bc_bufs s b)}"

definition dirty_blocks :: "'z bio_scheme \<Rightarrow> uint set" where
  "dirty_blocks s = (\<lambda>b. b_blockno (bc_bufs s b)) ` dirty_bufs s"

text \<open>What the cache operations leave alone.\<close>

definition bio_frame :: "'z bio_scheme \<Rightarrow> 'z bio_scheme \<Rightarrow> bool" where
  "bio_frame s s' \<longleftrightarrow> dk_size s' = dk_size s \<and> bio.more s' = bio.more s \<and> pt_cur s' = pt_cur s \<and>
     (\<forall>i. sl_locked s' (InodeSleep i) = sl_locked s (InodeSleep i))"

lemma bio_frame_refl [simp]: "bio_frame s s"
  by (simp add: bio_frame_def)

lemma bio_frame_trans: "bio_frame s t \<Longrightarrow> bio_frame t u \<Longrightarrow> bio_frame s u"
  by (auto simp: bio_frame_def)

lemma bc_invD:
  assumes "bc_inv H s"
  shows "k_held s = {}" "\<exists>p. pt_cur s = Some p" "set (bc_list s) = {..<NBUF}" "distinct (bc_list s)"
    "H \<subseteq> {..<NBUF}"
    "b < NBUF \<Longrightarrow> sl_locked s (BufSleep b) = (b \<in> H)"
    "b < NBUF \<Longrightarrow> b_refcnt (bc_bufs s b) = (if b \<in> H then 1 else 0)"
    "b < NBUF \<Longrightarrow> b_dev (bc_bufs s b) = 1 \<Longrightarrow> b_valid (bc_bufs s b)"
    "b \<in> H \<Longrightarrow> b < NBUF \<and> b_dev (bc_bufs s b) = 1"
    "b < NBUF \<Longrightarrow> b_dev (bc_bufs s b) = 1 \<Longrightarrow> \<not> b_dirty (bc_bufs s b) \<Longrightarrow> b \<notin> H \<Longrightarrow>
       b_data (bc_bufs s b) = dk s (unat (b_blockno (bc_bufs s b)))"
    "a < NBUF \<Longrightarrow> b < NBUF \<Longrightarrow> b_dev (bc_bufs s a) = 1 \<Longrightarrow> b_dev (bc_bufs s b) = 1 \<Longrightarrow>
       b_blockno (bc_bufs s a) = b_blockno (bc_bufs s b) \<Longrightarrow> a = b"
  using assms unfolding bc_inv_def by auto

lemma bc_inv_other:
  assumes "bc_inv H s" "b < NBUF" "b_dev (bc_bufs s b) = 1" "a < NBUF" "a \<noteq> b" "b_dev (bc_bufs s a) = 1"
  shows "b_blockno (bc_bufs s a) \<noteq> b_blockno (bc_bufs s b)"
  using bc_invD(11) [OF assms(1,4,2,6,3)] assms(5) by blast

lemma cached_eq_Some:
  assumes "bc_inv H s"
  shows "cached s n = Some b \<longleftrightarrow> b < NBUF \<and> b_dev (bc_bufs s b) = 1 \<and> b_blockno (bc_bufs s b) = n"
proof -
  have "j = b" if "b < NBUF" "j < NBUF" "b_dev (bc_bufs s b) = 1" "b_dev (bc_bufs s j) = 1"
      "b_blockno (bc_bufs s j) = b_blockno (bc_bufs s b)" for j
    using that by (intro bc_invD(11) [OF assms])
  then show ?thesis unfolding cached_def find_upt_Some by (metis le0 less_irrefl less_trans)
qed

lemma cached_eq_None:
  "cached s n = None \<longleftrightarrow> (\<forall>b < NBUF. b_dev (bc_bufs s b) = 1 \<longrightarrow> b_blockno (bc_bufs s b) \<noteq> n)"
  by (auto simp: cached_def find_upt_None)

text \<open>The contents of a block, without the search.\<close>

lemma blk_buf:
  assumes "bc_inv H s" "b < NBUF" "b_dev (bc_bufs s b) = 1"
  shows "blk s (b_blockno (bc_bufs s b)) = b_data (bc_bufs s b)"
proof -
  have "cached s (b_blockno (bc_bufs s b)) = Some b" using assms by (simp add: cached_eq_Some)
  then show ?thesis using assms bc_invD(8) [OF assms(1)] by (simp add: blk_def)
qed

lemma blk_disk: "cached s n = None \<Longrightarrow> blk s n = dk s (unat n)"
  by (simp add: blk_def)

lemma blk_eqI:
  assumes "bc_inv H s"
    and "\<And>b. b < NBUF \<Longrightarrow> b_dev (bc_bufs s b) = 1 \<Longrightarrow> b_blockno (bc_bufs s b) = n \<Longrightarrow> b_data (bc_bufs s b) = d"
    and "cached s n = None \<Longrightarrow> dk s (unat n) = d"
  shows "blk s n = d"
proof (cases "cached s n")
  case None
  then show ?thesis using assms(3) by (simp add: blk_def)
next
  case (Some b)
  then have "b < NBUF" "b_dev (bc_bufs s b) = 1" "b_blockno (bc_bufs s b) = n"
    using cached_eq_Some [OF assms(1)] by auto
  then show ?thesis using assms(2) blk_buf [OF assms(1), of b] by simp
qed

text \<open>A step that changes one buffer, its lock and its block of the disk keeps the invariant.\<close>

lemma bc_inv_upd:
  assumes "bc_inv H s" and "b < NBUF"
    and "k_held s' = {}" "pt_cur s' \<noteq> None" "distinct (bc_list s')" "set (bc_list s') = {..<NBUF}"
    and same: "\<And>a. a \<noteq> b \<Longrightarrow> bc_bufs s' a = bc_bufs s a" "\<And>a. a \<noteq> b \<Longrightarrow> sl_locked s' (BufSleep a) = sl_locked s (BufSleep a)"
    and uniq: "\<And>a. a < NBUF \<Longrightarrow> a \<noteq> b \<Longrightarrow> b_dev (bc_bufs s a) = 1 \<Longrightarrow> b_dev (bc_bufs s' b) = 1 \<Longrightarrow>
      b_blockno (bc_bufs s a) \<noteq> b_blockno (bc_bufs s' b)"
    and disk: "\<And>k. k \<noteq> unat (b_blockno (bc_bufs s' b)) \<Longrightarrow> dk s' k = dk s k"
    and nodisk: "b_dev (bc_bufs s' b) \<noteq> 1 \<Longrightarrow> dk s' = dk s"
    and H: "\<And>a. a \<noteq> b \<Longrightarrow> (a \<in> H') = (a \<in> H)"
    and lock: "sl_locked s' (BufSleep b) = (b \<in> H')" "b_refcnt (bc_bufs s' b) = (if b \<in> H' then 1 else 0)"
    and dev: "b_dev (bc_bufs s' b) = 1 \<Longrightarrow> b_valid (bc_bufs s' b)" "b_dirty (bc_bufs s' b) \<Longrightarrow> b_dev (bc_bufs s' b) = 1"
      "b \<in> H' \<Longrightarrow> b_dev (bc_bufs s' b) = 1"
    and data: "\<not> b_dirty (bc_bufs s' b) \<Longrightarrow> b \<notin> H' \<Longrightarrow> b_dev (bc_bufs s' b) = 1 \<Longrightarrow>
      b_data (bc_bufs s' b) = dk s' (unat (b_blockno (bc_bufs s' b)))"
  shows "bc_inv H' s'"
proof -
  note d = bc_invD [OF assms(1)]
  have sub: "H' \<subseteq> {..<NBUF}" using H d(5) assms(2) by (metis in_mono lessThan_iff subsetI)
  have u: "a = c" if "a < NBUF" "c < NBUF" "b_dev (bc_bufs s' a) = 1" "b_dev (bc_bufs s' c) = 1"
    "b_blockno (bc_bufs s' a) = b_blockno (bc_bufs s' c)" for a c
    using that d(11) [of a c] uniq [of a] uniq [of c] same(1) [of a] same(1) [of c]
    by (cases "a = b"; cases "c = b") simp_all
  have o: "sl_locked s' (BufSleep a) = (a \<in> H') \<and> b_refcnt (bc_bufs s' a) = (if a \<in> H' then 1 else 0) \<and>
        (b_dev (bc_bufs s' a) = 1 \<longrightarrow> b_valid (bc_bufs s' a)) \<and>
        (b_dirty (bc_bufs s' a) \<or> a \<in> H' \<longrightarrow> b_dev (bc_bufs s' a) = 1) \<and>
        (\<not> b_dirty (bc_bufs s' a) \<and> a \<notin> H' \<and> b_dev (bc_bufs s' a) = 1 \<longrightarrow>
           b_data (bc_bufs s' a) = dk s' (unat (b_blockno (bc_bufs s' a))))" if a: "a < NBUF" for a
  proof (cases "a = b")
    case True
    then show ?thesis using lock dev data by blast
  next
    case False
    have "dk s' (unat (b_blockno (bc_bufs s a))) = dk s (unat (b_blockno (bc_bufs s a)))" if "b_dev (bc_bufs s a) = 1"
      using disk nodisk uniq [OF a False that] by (metis word_unat_eq_iff)
    moreover have "b_dirty (bc_bufs s a) \<Longrightarrow> b_dev (bc_bufs s a) = 1"
      using assms(1) a unfolding bc_inv_def by blast
    ultimately show ?thesis
      using d(6) [OF a] d(7) [OF a] d(8) [OF a] d(9) [of a] d(10) [OF a] False
      by (simp add: same H)
  qed
  show ?thesis unfolding bc_inv_def using assms(3-6) sub u o by blast
qed

section \<open>Reading and releasing\<close>

lemma bget_cached:
  assumes inv: "bc_inv H s" and b: "b < NBUF" "b_dev (bc_bufs s b) = 1" "b_blockno (bc_bufs s b) = n" "b \<notin> H"
    and p: "pt_cur s = Some p"
  shows "bget 1 n s = Ret b (upd_sl (BufSleep b) True (p_pid (pt_procs s p))
    (upd_buf b (\<lambda>B. B\<lparr>b_refcnt := b_refcnt B + 1\<rparr>) s))"
proof -
  note d = bc_invD [OF inv]
  have "List.find (\<lambda>b. b_dev (bc_bufs s b) = 1 \<and> b_blockno (bc_bufs s b) = n) (bc_list s) = Some b"
  proof (cases "List.find (\<lambda>b. b_dev (bc_bufs s b) = 1 \<and> b_blockno (bc_bufs s b) = n) (bc_list s)")
    case None
    then show ?thesis using b d(3) by (auto dest: find_NoneD)
  next
    case (Some a)
    then have "a = b" using find_SomeD [OF Some] b d(3) d(11) [of a b] by auto
    with Some show ?thesis by simp
  qed
  moreover have "\<not> sl_locked s (BufSleep b)" using d(6) [OF b(1)] b by simp
  ultimately show ?thesis
    using d(1) p by (simp add: bget_def kop_simps acquiresleep_free k_held_id)
qed

lemma bget_recycle:
  assumes inv: "bc_inv H s" and none: "cached s n = None" and room: "card (H \<union> dirty_bufs s) < NBUF"
    and p: "pt_cur s = Some p"
  obtains b where "b < NBUF" "b \<notin> H" "\<not> b_dirty (bc_bufs s b)"
    "bget 1 n s = Ret b (upd_sl (BufSleep b) True (p_pid (pt_procs s p))
      (upd_buf b (\<lambda>B. B\<lparr>b_dev := 1, b_blockno := n, b_valid := False, b_dirty := False, b_refcnt := 1\<rparr>) s))"
proof -
  note d = bc_invD [OF inv]
  have f1: "List.find (\<lambda>b. b_dev (bc_bufs s b) = 1 \<and> b_blockno (bc_bufs s b) = n) (bc_list s) = None"
    using none d(3) by (auto simp: find_None_iff cached_eq_None)
  have "H \<union> dirty_bufs s \<subseteq> {..<NBUF}" using d(5) by (auto simp: dirty_bufs_def)
  moreover have "H \<union> dirty_bufs s \<noteq> {..<NBUF}" using room by (metis card_lessThan less_irrefl)
  ultimately obtain c where c: "c < NBUF" "c \<notin> H" "c \<notin> dirty_bufs s" by blast
  then have "b_refcnt (bc_bufs s c) = 0 \<and> \<not> b_dirty (bc_bufs s c)" "c \<in> set (rev (bc_list s))"
    using d(7) [OF c(1)] by (simp_all add: d(3) dirty_bufs_def)
  then obtain b where f2: "List.find (\<lambda>b. b_refcnt (bc_bufs s b) = 0 \<and> \<not> b_dirty (bc_bufs s b)) (rev (bc_list s)) = Some b"
    by (cases "List.find (\<lambda>b. b_refcnt (bc_bufs s b) = 0 \<and> \<not> b_dirty (bc_bufs s b)) (rev (bc_list s))")
      (auto dest: find_NoneD)
  then have b: "b_refcnt (bc_bufs s b) = 0" "\<not> b_dirty (bc_bufs s b)" "b < NBUF"
    using find_SomeD [OF f2] by (simp_all add: d(3))
  then have "b \<notin> H" using d(7) [OF b(3)] by (simp split: if_splits)
  moreover from this have "\<not> sl_locked s (BufSleep b)" using d(6) [OF b(3)] by simp
  ultimately show thesis
    using that [of b] b d(1) p f1 f2 by (simp add: bget_def kop_simps acquiresleep_free k_held_id)
qed

text \<open>What \<^verbatim>\<open>bread\<close> promises: a buffer with the block's contents, held from now on; no block and nothing
  outside the cache changes.\<close>

definition bread_post :: "nat set \<Rightarrow> 'z bio_scheme \<Rightarrow> uint \<Rightarrow> nat \<Rightarrow> 'z bio_scheme \<Rightarrow> bool" where
  "bread_post H s n b s' \<longleftrightarrow> b \<notin> H \<and> b < NBUF \<and> bc_inv (insert b H) s' \<and> b_blockno (bc_bufs s' b) = n \<and>
     b_data (bc_bufs s' b) = blk s n \<and> blk s' = blk s \<and> dk s' = dk s \<and> dk_hist s' = dk_hist s \<and>
     bio_frame s s' \<and> dirty_bufs s' = dirty_bufs s \<and>
     (\<forall>a. a \<noteq> b \<longrightarrow> bc_bufs s' a = bc_bufs s a) \<and> dirty_blocks s' = dirty_blocks s \<and>
     (\<not> b_dirty (bc_bufs s' b) \<longrightarrow> b_data (bc_bufs s' b) = dk s' (unat n)) \<and> (b_dirty (bc_bufs s' b) = (n \<in> dirty_blocks s))"

lemma bread_cached:
  assumes inv: "bc_inv H s" and c: "cached s n = Some b" and b: "b \<notin> H"
  shows "\<exists>s'. bread 1 n s = Ret b s' \<and> bread_post H s n b s'"
proof -
  note d = bc_invD [OF inv]
  have m: "b < NBUF" "b_dev (bc_bufs s b) = 1" "b_blockno (bc_bufs s b) = n"
    using c cached_eq_Some [OF inv] by auto
  obtain p where p: "pt_cur s = Some p" using d(2) by blast
  define s' where "s' = upd_sl (BufSleep b) True (p_pid (pt_procs s p)) (upd_buf b (\<lambda>B. B\<lparr>b_refcnt := b_refcnt B + 1\<rparr>) s)"
  have g: "bget 1 n s = Ret b s'" using bget_cached [OF inv m b p] by (simp add: s'_def)
  have "b_valid (bc_bufs s' b)" using d(8) m by (simp add: s'_def)
  then have r: "bread 1 n s = Ret b s'" by (simp add: bread_def kop_simps g)
  have inv': "bc_inv (insert b H) s'"
  proof (rule bc_inv_upd [OF inv m(1)])
    show "b_blockno (bc_bufs s a) \<noteq> b_blockno (bc_bufs s' b)"
      if "a < NBUF" "a \<noteq> b" "b_dev (bc_bufs s a) = 1" "b_dev (bc_bufs s' b) = 1" for a
      using that d(11) [OF that(1) m(1) that(3) m(2)] by (auto simp: s'_def)
    show "pt_cur s' \<noteq> None" using p by (simp add: s'_def)
  qed (use d(1,3,4) d(7,8) [OF m(1)] m b in \<open>simp_all add: s'_def\<close>)
  have ded: "b_data (bc_bufs s' a) = b_data (bc_bufs s a)" "b_dev (bc_bufs s' a) = b_dev (bc_bufs s a)"
    "b_blockno (bc_bufs s' a) = b_blockno (bc_bufs s a)" "b_dirty (bc_bufs s' a) = b_dirty (bc_bufs s a)"
    "b_valid (bc_bufs s' a) = b_valid (bc_bufs s a)" "dk s' = dk s" for a by (simp_all add: s'_def)
  have "cached s' k = cached s k" for k by (simp add: cached_def ded)
  then have blk: "blk s' = blk s" by (simp add: fun_eq_iff blk_def ded split: option.split)
  have dirty: "dirty_bufs s' = dirty_bufs s" "dirty_blocks s' = dirty_blocks s"
    by (simp_all add: dirty_bufs_def dirty_blocks_def ded)
  have "b_dirty (bc_bufs s b) \<longleftrightarrow> n \<in> dirty_blocks s"
  proof
    assume "n \<in> dirty_blocks s"
    then obtain a where a: "a < NBUF" "b_dirty (bc_bufs s a)" "b_blockno (bc_bufs s a) = n"
      by (auto simp: dirty_blocks_def dirty_bufs_def)
    then have "b_dev (bc_bufs s a) = 1" using inv by (simp add: bc_inv_def)
    then have "a = b" using a m by (intro d(11)) auto
    then show "b_dirty (bc_bufs s b)" using a by simp
  qed (use m in \<open>auto simp: dirty_blocks_def dirty_bufs_def\<close>)
  then show ?thesis
    using r b m inv' blk dirty blk_buf [OF inv m(1,2)] d(10) [OF m(1,2) _ b]
    by (simp add: bread_post_def ded bio_frame_def) (simp add: s'_def)
qed

lemma bread_uncached:
  assumes inv: "bc_inv H s" and none: "cached s n = None" and n: "n < dk_size s"
    and room: "card (H \<union> dirty_bufs s) < NBUF"
  shows "\<exists>b s'. bread 1 n s = Ret b s' \<and> bread_post H s n b s'"
proof -
  note d = bc_invD [OF inv]
  obtain p where p: "pt_cur s = Some p" using d(2) by blast
  from bget_recycle [OF inv none room p] obtain b where
    b: "b < NBUF" "b \<notin> H" "\<not> b_dirty (bc_bufs s b)" and
    g: "bget 1 n s = Ret b (upd_sl (BufSleep b) True (p_pid (pt_procs s p))
      (upd_buf b (\<lambda>B. B\<lparr>b_dev := 1, b_blockno := n, b_valid := False, b_dirty := False, b_refcnt := 1\<rparr>) s))" .
  define B where "B = \<lparr>b_valid = True, b_dirty = False, b_dev = 1, b_blockno = n, b_refcnt = 1, b_data = dk s (unat n)\<rparr>"
  define s' where "s' = upd_sl (BufSleep b) True (p_pid (pt_procs s p)) (upd_buf b (\<lambda>_. B) s)"
  have r: "bread 1 n s = Ret b s'"
    using n d(1) unfolding s'_def
    by (simp add: bread_def kop_simps g iderw_def Let_def not_le [symmetric] B_def)
      (rule arg_cong [where f = "upd_sl _ _ _"], rule upd_buf_eqI, simp)
  have bufs: "bc_bufs s' = (bc_bufs s)(b := B)" "dk s' = dk s" by (simp_all add: s'_def)
  have nc: "\<And>a. a < NBUF \<Longrightarrow> b_dev (bc_bufs s a) = 1 \<Longrightarrow> b_blockno (bc_bufs s a) \<noteq> n"
    using none by (auto simp: cached_eq_None)
  have inv': "bc_inv (insert b H) s'"
  proof (rule bc_inv_upd [OF inv b(1)])
    show "pt_cur s' \<noteq> None" using p by (simp add: s'_def)
  qed (use d(1,3,4) nc in \<open>simp_all add: s'_def B_def\<close>)
  have blk: "blk s' k = blk s k" for k
  proof (rule blk_eqI [OF inv'])
    show "b_data (bc_bufs s' a) = blk s k"
      if a: "a < NBUF" "b_dev (bc_bufs s' a) = 1" "b_blockno (bc_bufs s' a) = k" for a
      using a blk_buf [OF inv, of a] blk_disk [OF none] by (auto simp: bufs B_def split: if_splits)
    show "dk s' (unat k) = blk s k" if c: "cached s' k = None"
    proof (cases "cached s k")
      case None
      then show ?thesis by (simp add: blk_disk bufs)
    next
      case (Some a)
      then have a: "a < NBUF" "b_dev (bc_bufs s a) = 1" "b_blockno (bc_bufs s a) = k"
        using cached_eq_Some [OF inv] by auto
      have "a = b" using c a by (auto simp: cached_eq_None bufs split: if_splits)
      then show ?thesis using a blk_buf [OF inv a(1,2)] d(10) [OF a(1,2)] b by (simp add: bufs)
    qed
  qed
  have db: "dirty_bufs s' = dirty_bufs s" using b by (auto simp: dirty_bufs_def bufs B_def)
  have nb: "b \<notin> dirty_bufs s" using b by (simp add: dirty_bufs_def)
  have dd: "dirty_blocks s' = dirty_blocks s"
    unfolding dirty_blocks_def db using nb by (intro image_cong) (auto simp: bufs)
  have "n \<notin> dirty_blocks s"
  proof
    assume "n \<in> dirty_blocks s"
    then obtain a where a: "a < NBUF" "b_dirty (bc_bufs s a)" "b_blockno (bc_bufs s a) = n"
      by (auto simp: dirty_blocks_def dirty_bufs_def)
    then have "b_dev (bc_bufs s a) = 1" using inv by (simp add: bc_inv_def)
    then show False using nc a by blast
  qed
  then have "bread_post H s n b s'"
    using b inv' blk db dd blk_disk [OF none]
    by (simp add: bread_post_def bufs B_def bio_frame_def fun_eq_iff) (simp add: s'_def)
  with r show ?thesis by blast
qed

lemma bread_spec:
  assumes "bc_inv H s" "n < dk_size s" "\<And>b. b \<in> H \<Longrightarrow> b_blockno (bc_bufs s b) \<noteq> n" "card (H \<union> dirty_bufs s) < NBUF"
  shows "\<exists>b s'. bread 1 n s = Ret b s' \<and> bread_post H s n b s'"
proof (cases "cached s n")
  case None
  then show ?thesis using bread_uncached assms by blast
next
  case (Some b)
  then have "b \<notin> H" using assms(3) cached_eq_Some [OF assms(1)] by blast
  then show ?thesis using bread_cached [OF assms(1) Some] by blast
qed

lemma cached_cong:
  "(\<And>a. b_dev (bc_bufs s' a) = b_dev (bc_bufs s a)) \<Longrightarrow> (\<And>a. b_blockno (bc_bufs s' a) = b_blockno (bc_bufs s a)) \<Longrightarrow>
   cached s' = cached s"
  by (simp add: cached_def fun_eq_iff)

text \<open>Two states with the same blocks and the same dirty buffers.\<close>

lemma same_bufs:
  assumes "\<And>a. b_dev (bc_bufs s' a) = b_dev (bc_bufs s a)" "\<And>a. b_blockno (bc_bufs s' a) = b_blockno (bc_bufs s a)"
    "\<And>a. b_dirty (bc_bufs s' a) = b_dirty (bc_bufs s a)" "\<And>a. b_data (bc_bufs s' a) = b_data (bc_bufs s a)"
    "\<And>a. b_valid (bc_bufs s' a) = b_valid (bc_bufs s a)" "dk s' = dk s"
  shows "cached s' = cached s" "blk s' = blk s" "dirty_bufs s' = dirty_bufs s" "dirty_blocks s' = dirty_blocks s"
proof -
  show c: "cached s' = cached s" by (intro cached_cong assms)
  show "blk s' = blk s" by (simp add: fun_eq_iff blk_def assms c split: option.split)
  show "dirty_bufs s' = dirty_bufs s" "dirty_blocks s' = dirty_blocks s"
    by (simp_all add: dirty_bufs_def dirty_blocks_def assms)
qed

definition brelse_post :: "nat set \<Rightarrow> 'z bio_scheme \<Rightarrow> nat \<Rightarrow> 'z bio_scheme \<Rightarrow> bool" where
  "brelse_post H s b s' \<longleftrightarrow> bc_inv (H - {b}) s' \<and> blk s' = blk s \<and> dk s' = dk s \<and> dk_hist s' = dk_hist s \<and>
     bio_frame s s' \<and> dirty_bufs s' = dirty_bufs s \<and> dirty_blocks s' = dirty_blocks s \<and>
     (\<forall>a. a \<noteq> b \<longrightarrow> bc_bufs s' a = bc_bufs s a)"

lemma brelse_spec:
  assumes inv: "bc_inv H s" and b: "b \<in> H"
    and clean: "\<not> b_dirty (bc_bufs s b) \<Longrightarrow> b_data (bc_bufs s b) = dk s (unat (b_blockno (bc_bufs s b)))"
  shows "\<exists>s'. brelse b s = Ret () s' \<and> brelse_post H s b s'"
proof -
  note d = bc_invD [OF inv]
  obtain p where p: "pt_cur s = Some p" using d(2) by blast
  have m: "b < NBUF" "b_dev (bc_bufs s b) = 1" using d(9) [OF b] by auto
  have l: "sl_locked s (BufSleep b)" "b_refcnt (bc_bufs s b) = 1" using d(6,7) [OF m(1)] b by auto
  define t where "t = upd_buf b (\<lambda>B. B\<lparr>b_refcnt := b_refcnt B - 1\<rparr>)
     (wake_all (ChanSleeplock (BufSleep b)) (upd_sl (BufSleep b) False 0 s))"
  define s' where "s' = t\<lparr>bc_list := b # remove1 b (bc_list s)\<rparr>"
  have "k_held t = {}" by (simp add: t_def d(1))
  then have r: "brelse b s = Ret () s'"
    using d(1) l p
    by (simp add: brelse_def kop_simps releasesleep_eq s'_def t_def k_held_id bc_list_k_held)
  have inv': "bc_inv (H - {b}) s'"
    by (rule bc_inv_upd [OF inv m(1)])
      (use d(1,3,4,8) bc_inv_other [OF inv m] m b p l clean in
        \<open>simp_all add: s'_def t_def insert_absorb\<close>)
  have "blk s' = blk s" "dirty_bufs s' = dirty_bufs s" "dirty_blocks s' = dirty_blocks s"
    by (rule same_bufs(2-4); simp add: s'_def t_def)+
  then show ?thesis using r inv'
    by (simp add: brelse_post_def bio_frame_def) (simp add: s'_def t_def)
qed


text \<open>A change to the data of a held buffer is a change of its block; marking it dirty changes no block.\<close>

lemma upd_buf_inv:
  assumes inv: "bc_inv H s" and b: "b \<in> H"
    and f: "\<And>B. b_dev (f B) = b_dev B" "\<And>B. b_blockno (f B) = b_blockno B" "\<And>B. b_valid (f B) = b_valid B"
      "\<And>B. b_refcnt (f B) = b_refcnt B"
  shows "bc_inv H (upd_buf b f s)"
    and "blk (upd_buf b f s) = (blk s)(b_blockno (bc_bufs s b) := b_data (f (bc_bufs s b)))"
proof -
  note d = bc_invD [OF inv]
  obtain p where p: "pt_cur s = Some p" using d(2) by blast
  have m: "b < NBUF" "b_dev (bc_bufs s b) = 1" using d(9) [OF b] by auto
  show "bc_inv H (upd_buf b f s)"
    by (rule bc_inv_upd [OF inv m(1)])
      (use d(1,3,4) d(6-8) [OF m(1)] bc_inv_other [OF inv m] m b p in \<open>simp_all add: f\<close>)
  have c: "cached (upd_buf b f s) = cached s" by (rule cached_cong) (simp_all add: f)
  have n: "blk (upd_buf b f s) n = blk s n" if "n \<noteq> b_blockno (bc_bufs s b)" for n
  proof (cases "cached s n")
    case (Some a)
    then have "a \<noteq> b" using that cached_eq_Some [OF inv, of n a] by auto
    with Some show ?thesis by (simp add: blk_def c)
  qed (simp add: blk_def c)
  have "cached s (b_blockno (bc_bufs s b)) = Some b" using cached_eq_Some [OF inv] m by simp
  then have "blk (upd_buf b f s) (b_blockno (bc_bufs s b)) = b_data (f (bc_bufs s b))"
    using d(8) [OF m] by (simp add: blk_def c f)
  then show "blk (upd_buf b f s) = (blk s)(b_blockno (bc_bufs s b) := b_data (f (bc_bufs s b)))"
    using n by (simp add: fun_eq_iff)
qed

lemma bwrite_spec:
  assumes inv: "bc_inv H s" and b: "b \<in> H" and n: "b_blockno (bc_bufs s b) < dk_size s"
  shows "\<exists>s'. bwrite b s = Ret () s' \<and> bc_inv H s' \<and> blk s' = blk s \<and>
     dk s' = (dk s)(unat (b_blockno (bc_bufs s b)) := b_data (bc_bufs s b)) \<and> dk_hist s' = dk s # dk_hist s \<and>
     bio_frame s s' \<and> dirty_bufs s' = dirty_bufs s - {b} \<and>
     bc_bufs s' = (bc_bufs s)(b := (bc_bufs s b)\<lparr>b_dirty := False\<rparr>)"
proof -
  note d = bc_invD [OF inv]
  obtain p where p: "pt_cur s = Some p" using d(2) by blast
  have m: "b < NBUF" "b_dev (bc_bufs s b) = 1" "b_valid (bc_bufs s b)" using d(9) [OF b] d(8) [of b] by auto
  define B where "B = (bc_bufs s b)\<lparr>b_dirty := False\<rparr>"
  have B: "(bc_bufs s b)\<lparr>b_dirty := False, b_valid := True\<rparr> = B" using m(3) by (simp add: B_def)
  define s' where "s' = s\<lparr>dk_hist := dk s # dk_hist s,
    dk := (dk s)(unat (b_blockno (bc_bufs s b)) := b_data (bc_bufs s b)), bc_bufs := (bc_bufs s)(b := B)\<rparr>"
  have r: "bwrite b s = Ret () s'"
    using d(1) d(6) [OF m(1)] b m n
    by (simp add: bwrite_def kop_simps iderw_def upd_buf_def s'_def Let_def not_le [symmetric] B)
  have inv': "bc_inv H s'"
    by (rule bc_inv_upd [OF inv m(1)])
      (use d(1,3,4) d(6-8) [OF m(1)] bc_inv_other [OF inv m(1,2)] m b p in \<open>simp_all add: s'_def B_def\<close>)
  have c: "cached s' = cached s" by (rule cached_cong) (simp_all add: s'_def B_def)
  have sf: "bc_bufs s' = (bc_bufs s)(b := B)"
    "dk s' = (dk s)(unat (b_blockno (bc_bufs s b)) := b_data (bc_bufs s b))" by (simp_all add: s'_def)
  have "blk s' k = blk s k" for k
  proof (cases "cached s k")
    case None
    then have "unat k \<noteq> unat (b_blockno (bc_bufs s b))"
      using m unfolding cached_eq_None by (metis word_unat_eq_iff)
    with None show ?thesis by (simp add: blk_def c sf)
  next
    case (Some a)
    then have "b_valid (bc_bufs s a)" using cached_eq_Some [OF inv, of k a] d(8) [of a] by simp
    with Some m(3) show ?thesis by (simp add: blk_def c sf B_def)
  qed
  then show ?thesis using r inv'
    by (simp add: fun_eq_iff bio_frame_def) (auto simp: s'_def B_def dirty_bufs_def)
qed

end
