(* ===== verification/Ide.thy ===== *)
theory Ide
  imports Bio
begin

text \<open>
  The IDE driver (\<^verbatim>\<open>ide.c\<close>): requests wait in a queue, the first of them is at the disk, and the interrupt
  handler completes it and starts the next. The disk is the one of \<open>Bio\<close>: a write reaches it when the
  command and the data are sent, a read takes the data when the handler fetches it. The kernel is linked
  with this driver or with \<^verbatim>\<open>memide.c\<close>.
\<close>

section \<open>State\<close>

record ide = bio +
  id_queue :: "nat list"
  id_havedisk1 :: bool

abbreviation (input) FSSIZE :: uint where "FSSIZE \<equiv> 40000"

section \<open>Operations\<close>

definition idestart :: "nat option \<Rightarrow> ('z ide_scheme, unit) kop" where
  "idestart b = (case b of None \<Rightarrow> panic ''idestart'' | Some b \<Rightarrow> (\<lambda>s.
     let B = bc_bufs s b in
     if b_blockno B \<ge> FSSIZE then Panic ''incorrect blockno''
     else if b_dirty B
     then Ret () (s\<lparr>dk_hist := dk s # dk_hist s, dk := (dk s)(unat (b_blockno B) := b_data B)\<rparr>)
     else Ret () s))"

text \<open>\<open>ok\<close> is the answer of \<^verbatim>\<open>idewait(1)\<close>: the disk reports no error.\<close>

definition ideintr :: "bool \<Rightarrow> ('z ide_scheme, unit) kop" where
  "ideintr ok =
     seqK (acquire IdeLock) (\<lambda>s.
     case id_queue s of
       [] \<Rightarrow> release IdeLock s
     | b # q \<Rightarrow>
         seqK (modifyK (\<lambda>s. s\<lparr>id_queue := q\<rparr>))
        (seqK (modifyK (\<lambda>s. if \<not> b_dirty (bc_bufs s b) \<and> ok
                 then upd_buf b (\<lambda>B. B\<lparr>b_data := dk s (unat (b_blockno B))\<rparr>) s else s))
        (seqK (modifyK (upd_buf b (\<lambda>B. B\<lparr>b_valid := True, b_dirty := False\<rparr>)))
        (seqK (wakeup (ChanBuf b))
        (seqK (case q of [] \<Rightarrow> retK () | c # _ \<Rightarrow> idestart (Some c))
              (release IdeLock))))) s)"

text \<open>The wait at the end of \<^verbatim>\<open>iderw\<close>, with \<^verbatim>\<open>idelock\<close> held.\<close>

definition ide_wait :: "nat \<Rightarrow> ('z ide_scheme, unit) kop" where
  "ide_wait b = (\<lambda>s.
     if \<not> (b_valid (bc_bufs s b) \<and> \<not> b_dirty (bc_bufs s b))
     then sleep (ChanBuf b) (Some IdeLock) s
     else release IdeLock s)"

definition ide_iderw :: "nat \<Rightarrow> ('z ide_scheme, unit) kop" where
  "ide_iderw b =
     bindK (holdingsleep (BufSleep b)) (\<lambda>h s.
     if \<not> h then Panic ''iderw: buf not locked''
     else if b_valid (bc_bufs s b) \<and> \<not> b_dirty (bc_bufs s b) then Panic ''iderw: nothing to do''
     else if b_dev (bc_bufs s b) \<noteq> 0 \<and> \<not> id_havedisk1 s then Panic ''iderw: ide disk 1 not present''
     else
       seqK (acquire IdeLock)
      (seqK (modifyK (\<lambda>s. s\<lparr>id_queue := id_queue s @ [b]\<rparr>))
      (seqK (\<lambda>s. whenK (hd (id_queue s) = b) (idestart (Some b)) s)
            (ide_wait b))) s)"

definition ide_wake :: "nat \<Rightarrow> ('z ide_scheme, unit) kop" where
  "ide_wake b = seqK (sleep_wake IdeLock) (ide_wait b)"

end
