(* ===== verification/Log.thy ===== *)
theory Log
  imports Bio
begin

text \<open>
  The write-ahead log (\<^verbatim>\<open>log.c\<close>). Outside the log region the disk changes only when a committed
  transaction is installed. The theorems follow the contents of the disk through every write of
  \<^verbatim>\<open>commit\<close> and of recovery.
\<close>

section \<open>State\<close>

record log = bio +
  lg_start :: uint
  lg_size :: int
  lg_outstanding :: int
  lg_committing :: bool
  lg_dev :: uint
  lg_n :: int
  lg_block :: "nat \<Rightarrow> uint"

section \<open>Operations\<close>

text \<open>\<^verbatim>\<open>readsb\<close> (\<^verbatim>\<open>fs.c\<close>).\<close>

definition readsb :: "uint \<Rightarrow> ('z bio_scheme, superblock) kop" where
  "readsb dev =
     bindK (bread dev 1) (\<lambda>bp.
     bindK (getK (\<lambda>s. get_superblock (b_data (bc_bufs s bp)))) (\<lambda>sb.
     seqK (brelse bp) (retK sb)))"

definition set_data :: "nat \<Rightarrow> stream \<Rightarrow> 'z bio_scheme \<Rightarrow> 'z bio_scheme" where
  "set_data b d = upd_buf b (\<lambda>B. B\<lparr>b_data := d\<rparr>)"

definition install_one :: "nat \<Rightarrow> ('z log_scheme, unit) kop" where
  "install_one tail =
     bindK (\<lambda>s. bread (lg_dev s) (lg_start s + of_nat tail + 1) s) (\<lambda>lbuf.
     bindK (\<lambda>s. bread (lg_dev s) (lg_block s tail) s) (\<lambda>dbuf.
     seqK (modifyK (\<lambda>s. set_data dbuf (b_data (bc_bufs s lbuf)) s))
    (seqK (bwrite dbuf)
    (seqK (brelse lbuf)
          (brelse dbuf)))))"

definition install_trans :: "('z log_scheme, unit) kop" where
  "install_trans = (\<lambda>s. forK [0..<nat (lg_n s)] install_one s)"

text \<open>The log header: a count and \<^verbatim>\<open>LOGSIZE\<close> block numbers. A count above \<^verbatim>\<open>LOGSIZE\<close> would make the loop
  write outside \<^verbatim>\<open>log.lh\<close>, which has no defined result.\<close>

definition read_head :: "('z log_scheme, unit) kop" where
  "read_head =
     bindK (\<lambda>s. bread (lg_dev s) (lg_start s) s) (\<lambda>b.
     seqK (\<lambda>s.
       let d = b_data (bc_bufs s b); n = sint (get32 d 0) in
       if n > LOGSIZE then Panic ''undefined: log.lh.block''
       else Ret () (s\<lparr>lg_n := n,
              lg_block := fold (\<lambda>i a. a(i := get32 d (4 + 4 * i))) [0..<nat n] (lg_block s)\<rparr>))
     (brelse b))"

definition head_bytes :: "int \<Rightarrow> (nat \<Rightarrow> uint) \<Rightarrow> stream \<Rightarrow> stream" where
  "head_bytes n a d = fold (\<lambda>i d. put32 d (4 + 4 * i) (a i)) [0..<nat n] (put32 d 0 (word_of_int n))"

definition write_head :: "('z log_scheme, unit) kop" where
  "write_head =
     bindK (\<lambda>s. bread (lg_dev s) (lg_start s) s) (\<lambda>b.
     seqK (modifyK (\<lambda>s. set_data b (head_bytes (lg_n s) (lg_block s) (b_data (bc_bufs s b))) s))
    (seqK (bwrite b)
          (brelse b)))"

definition recover_from_log :: "('z log_scheme, unit) kop" where
  "recover_from_log =
     seqK read_head
    (seqK install_trans
    (seqK (modifyK (\<lambda>s. s\<lparr>lg_n := 0\<rparr>))
          write_head))"

definition initlog :: "uint \<Rightarrow> ('z log_scheme, unit) kop" where
  "initlog dev =
     bindK (readsb dev) (\<lambda>sb.
     seqK (modifyK (\<lambda>s. s\<lparr>lg_start := sb_logstart sb, lg_size := sint (sb_nlog sb), lg_dev := dev\<rparr>))
          recover_from_log)"

text \<open>The loop of \<^verbatim>\<open>begin_op\<close>, with \<^verbatim>\<open>log.lock\<close> held.\<close>

definition begin_op_loop :: "('z log_scheme, unit) kop" where
  "begin_op_loop = (\<lambda>s.
     if lg_committing s then sleep ChanLog (Some LogLock) s
     else if lg_n s + (lg_outstanding s + 1) * MAXOPBLOCKS > LOGSIZE then sleep ChanLog (Some LogLock) s
     else seqK (modifyK (\<lambda>s. s\<lparr>lg_outstanding := lg_outstanding s + 1\<rparr>)) (release LogLock) s)"

definition begin_op :: "('z log_scheme, unit) kop" where
  "begin_op = seqK (acquire LogLock) begin_op_loop"

definition begin_op_wake :: "('z log_scheme, unit) kop" where
  "begin_op_wake = seqK (sleep_wake LogLock) begin_op_loop"

definition write_log_one :: "nat \<Rightarrow> ('z log_scheme, unit) kop" where
  "write_log_one tail =
     bindK (\<lambda>s. bread (lg_dev s) (lg_start s + of_nat tail + 1) s) (\<lambda>to.
     bindK (\<lambda>s. bread (lg_dev s) (lg_block s tail) s) (\<lambda>from.
     seqK (modifyK (\<lambda>s. set_data to (b_data (bc_bufs s from)) s))
    (seqK (bwrite to)
    (seqK (brelse from)
          (brelse to)))))"

definition write_log :: "('z log_scheme, unit) kop" where
  "write_log = (\<lambda>s. forK [0..<nat (lg_n s)] write_log_one s)"

definition commit :: "('z log_scheme, unit) kop" where
  "commit = (\<lambda>s. whenK (lg_n s > 0)
     (seqK write_log
     (seqK write_head
     (seqK install_trans
     (seqK (modifyK (\<lambda>s. s\<lparr>lg_n := 0\<rparr>))
           write_head)))) s)"

definition end_op :: "('z log_scheme, unit) kop" where
  "end_op =
     seqK (acquire LogLock)
    (seqK (modifyK (\<lambda>s. s\<lparr>lg_outstanding := lg_outstanding s - 1\<rparr>)) (\<lambda>s.
     if lg_committing s then Panic ''log.committing''
     else if lg_outstanding s = 0
     then seqK (modifyK (\<lambda>s. s\<lparr>lg_committing := True\<rparr>))
         (seqK (release LogLock)
         (seqK commit
         (seqK (acquire LogLock)
         (seqK (modifyK (\<lambda>s. s\<lparr>lg_committing := False\<rparr>))
         (seqK (wakeup ChanLog)
               (release LogLock)))))) s
     else seqK (wakeup ChanLog) (release LogLock) s))"

text \<open>The loop of \<^verbatim>\<open>log_write\<close>: the place of a block in the transaction, or the end.\<close>

definition log_index :: "'z log_scheme \<Rightarrow> uint \<Rightarrow> nat" where
  "log_index s n = (case List.find (\<lambda>i. lg_block s i = n) [0..<nat (lg_n s)] of Some i \<Rightarrow> i | None \<Rightarrow> nat (lg_n s))"

definition log_write :: "nat \<Rightarrow> ('z log_scheme, unit) kop" where
  "log_write b = (\<lambda>s.
     if lg_n s \<ge> LOGSIZE \<or> lg_n s \<ge> lg_size s - 1 then Panic ''too big a transaction''
     else if lg_outstanding s < 1 then Panic ''log_write outside of trans''
     else
       seqK (acquire LogLock)
      (seqK (\<lambda>s.
         let i = log_index s (b_blockno (bc_bufs s b));
             s1 = s\<lparr>lg_block := (lg_block s)(i := b_blockno (bc_bufs s b)),
                    lg_n := (if int i = lg_n s then lg_n s + 1 else lg_n s)\<rparr> in
         Ret () (upd_buf b (\<lambda>B. B\<lparr>b_dirty := True\<rparr>) s1))
      (release LogLock)) s)"

section \<open>One write of the disk\<close>

text \<open>What reading a block, changing it and writing it through amounts to.\<close>

definition bio_write :: "'z bio_scheme \<Rightarrow> uint \<Rightarrow> stream \<Rightarrow> 'z bio_scheme \<Rightarrow> bool" where
  "bio_write s n d s' \<longleftrightarrow> bc_inv {} s' \<and> blk s' = (blk s)(n := d) \<and> dk s' = (dk s)(unat n := d) \<and>
     dk_hist s' = dk s # dk_hist s \<and> dirty_blocks s' = dirty_blocks s - {n} \<and> bio_frame s s'"

text \<open>Reads before the write do not count.\<close>

lemma bio_write_after:
  assumes "bio_write s2 n d s3" "bread_post H s m b s1" "bread_post H' s1 k c s2"
  shows "bio_write s n d s3"
proof -
  have "bio_frame s s1" "bio_frame s1 s2" "bio_frame s2 s3"
    using assms by (auto simp: bio_write_def bread_post_def)
  then have "bio_frame s s3" using bio_frame_trans by metis
  then show ?thesis using assms by (simp add: bio_write_def bread_post_def)
qed

lemma blk_clean:
  assumes "bc_inv {} s" "n \<notin> dirty_blocks s"
  shows "blk s n = dk s (unat n)"
proof (rule blk_eqI [OF assms(1)])
  fix b assume b: "b < NBUF" "b_dev (bc_bufs s b) = 1" "b_blockno (bc_bufs s b) = n"
  then have "\<not> b_dirty (bc_bufs s b)" using assms(2) by (auto simp: dirty_blocks_def dirty_bufs_def)
  then show "b_data (bc_bufs s b) = dk s (unat n)" using bc_invD(10) [OF assms(1) b(1,2)] b(3) by simp
qed (simp add: blk_def)

lemma dirty_blocks_cached:
  assumes "bc_inv H s" "n \<in> dirty_blocks s"
  shows "\<exists>b. cached s n = Some b \<and> b_dirty (bc_bufs s b)"
proof -
  obtain b where b: "b < NBUF" "b_dirty (bc_bufs s b)" "b_blockno (bc_bufs s b) = n"
    using assms(2) by (auto simp: dirty_blocks_def dirty_bufs_def)
  then have "b_dev (bc_bufs s b) = 1" using assms(1) by (simp add: bc_inv_def)
  then show ?thesis using b cached_eq_Some [OF assms(1), of n b] by blast
qed

lemma card_dirty:
  assumes "bc_inv H s"
  shows "card (dirty_bufs s) = card (dirty_blocks s)" and "finite (dirty_blocks s)" "finite (dirty_bufs s)"
proof -
  show "finite (dirty_bufs s)" by (simp add: dirty_bufs_def)
  then show "finite (dirty_blocks s)" by (simp add: dirty_blocks_def)
  have "b_dev (bc_bufs s b) = 1" if "b \<in> dirty_bufs s" for b
    using that assms by (simp add: dirty_bufs_def bc_inv_def)
  then have "inj_on (\<lambda>b. b_blockno (bc_bufs s b)) (dirty_bufs s)"
    using bc_invD(11) [OF assms] by (auto simp: inj_on_def dirty_bufs_def)
  then show "card (dirty_bufs s) = card (dirty_blocks s)" by (simp add: dirty_blocks_def card_image)
qed

lemma dirty_blocks_member:
  assumes "bc_inv H s" "b < NBUF" "b_dev (bc_bufs s b) = 1"
  shows "b_blockno (bc_bufs s b) \<in> dirty_blocks s \<longleftrightarrow> b_dirty (bc_bufs s b)"
proof
  assume "b_blockno (bc_bufs s b) \<in> dirty_blocks s"
  then obtain a where a: "cached s (b_blockno (bc_bufs s b)) = Some a" "b_dirty (bc_bufs s a)"
    using dirty_blocks_cached [OF assms(1)] by blast
  moreover have "cached s (b_blockno (bc_bufs s b)) = Some b" using cached_eq_Some [OF assms(1)] assms by simp
  ultimately show "b_dirty (bc_bufs s b)" by simp
qed (use assms in \<open>auto simp: dirty_blocks_def dirty_bufs_def\<close>)

text \<open>The tail of a write: new data for a held buffer, \<^verbatim>\<open>bwrite\<close>.\<close>

lemma write_held:
  assumes inv: "bc_inv H s" and b: "b \<in> H" and n: "b_blockno (bc_bufs s b) = n" "n < dk_size s"
  shows "\<exists>s'. bwrite b (set_data b d s) = Ret () s' \<and> bc_inv H s' \<and> blk s' = (blk s)(n := d) \<and>
    dk s' = (dk s)(unat n := d) \<and> dk_hist s' = dk s # dk_hist s \<and> bio_frame s s' \<and>
    dirty_bufs s' = dirty_bufs s - {b} \<and> dirty_blocks s' = dirty_blocks s - {n} \<and>
    bc_bufs s' = (bc_bufs s)(b := (bc_bufs s b)\<lparr>b_data := d, b_dirty := False\<rparr>)"
proof -
  have i: "bc_inv H (set_data b d s)" "blk (set_data b d s) = (blk s)(n := d)"
    unfolding set_data_def using upd_buf_inv [OF inv b, of "\<lambda>B. B\<lparr>b_data := d\<rparr>"] n by simp_all
  have "b_blockno (bc_bufs (set_data b d s) b) < dk_size (set_data b d s)"
    using n by (simp add: set_data_def)
  from bwrite_spec [OF i(1) b this] obtain s' where
    s': "bwrite b (set_data b d s) = Ret () s'" "bc_inv H s'" "blk s' = blk (set_data b d s)"
      "dk s' = (dk s)(unat n := d)" "dk_hist s' = dk s # dk_hist s" "bio_frame (set_data b d s) s'"
      "dirty_bufs s' = dirty_bufs (set_data b d s) - {b}"
      "bc_bufs s' = (bc_bufs s)(b := (bc_bufs s b)\<lparr>b_data := d, b_dirty := False\<rparr>)"
    using n by (auto simp: set_data_def)
  have db: "dirty_bufs s' = dirty_bufs s - {b}" using s'(7) by (auto simp: set_data_def dirty_bufs_def)
  have bn: "b < NBUF" "b_dev (bc_bufs s b) = 1" using bc_invD(9) [OF inv b] by auto
  have "b_blockno (bc_bufs s a) \<noteq> n" if "a \<in> dirty_bufs s" "a \<noteq> b" for a
  proof -
    have "a < NBUF" "b_dev (bc_bufs s a) = 1" using that(1) inv by (auto simp: dirty_bufs_def bc_inv_def)
    then show ?thesis using bc_inv_other [OF inv bn _ that(2)] n by simp
  qed
  then have "dirty_blocks s' = dirty_blocks s - {n}"
    unfolding dirty_blocks_def db s'(8) using n by (auto simp: image_iff)
  then show ?thesis using s' i(2) db by (auto simp: bio_frame_def set_data_def)
qed

text \<open>A buffer that is held and clean or dirty as \<^verbatim>\<open>bread\<close> left it may be released.\<close>

definition synced :: "'z bio_scheme \<Rightarrow> nat \<Rightarrow> bool" where
  "synced s b \<longleftrightarrow> b_dirty (bc_bufs s b) \<or> b_data (bc_bufs s b) = dk s (unat (b_blockno (bc_bufs s b)))"

lemma brelse_synced:
  "bc_inv H s \<Longrightarrow> b \<in> H \<Longrightarrow> synced s b \<Longrightarrow> \<exists>s'. brelse b s = Ret () s' \<and> brelse_post H s b s'"
  by (rule brelse_spec) (auto simp: synced_def)

text \<open>With two buffers held: the data of \<open>y\<close> is copied to \<open>x\<close>, \<open>x\<close> is written, both are released.\<close>

lemma copy_write:
  assumes inv: "bc_inv {x, y} s" and xy: "x \<noteq> y" and y: "synced s y"
    and n: "b_blockno (bc_bufs s x) < dk_size s"
  shows "\<exists>s'. seqK (modifyK (\<lambda>s. set_data x (b_data (bc_bufs s y)) s)) (seqK (bwrite x) (seqK (brelse y) (brelse x))) s = Ret () s' \<and>
     bio_write s (b_blockno (bc_bufs s x)) (b_data (bc_bufs s y)) s'"
proof -
  define n where "n = b_blockno (bc_bufs s x)"
  define d where "d = b_data (bc_bufs s y)"
  have bn: "x < NBUF" "b_dev (bc_bufs s x) = 1" "y < NBUF" "b_dev (bc_bufs s y) = 1"
    using bc_invD(9) [OF inv] by auto
  have yn: "b_blockno (bc_bufs s y) \<noteq> n" using bc_inv_other [OF inv bn(1,2,3) _ bn(4)] xy n_def by simp
  obtain s1 where s1: "bwrite x (set_data x d s) = Ret () s1" "bc_inv {x, y} s1" "blk s1 = (blk s)(n := d)"
    "dk s1 = (dk s)(unat n := d)" "dk_hist s1 = dk s # dk_hist s" "bio_frame s s1"
    "dirty_blocks s1 = dirty_blocks s - {n}"
    "bc_bufs s1 = (bc_bufs s)(x := (bc_bufs s x)\<lparr>b_data := d, b_dirty := False\<rparr>)"
    using write_held [OF inv, of x n d] n by (auto simp: n_def)
  have "synced s1 y" using y xy yn by (auto simp: synced_def s1(4,8) word_unat_eq_iff)
  then obtain s2 where s2: "brelse y s1 = Ret () s2" "brelse_post {x, y} s1 y s2"
    using brelse_synced [OF s1(2)] by blast
  have "bc_bufs s2 x = bc_bufs s1 x" "dk s2 = dk s1" "bc_inv {x} s2"
    using s2(2) xy by (auto simp: brelse_post_def insert_Diff_if)
  moreover from this have "synced s2 x" by (auto simp: synced_def s1(4,8) n_def)
  ultimately obtain s3 where s3: "brelse x s2 = Ret () s3" "brelse_post {x} s2 x s3"
    using brelse_synced [of "{x}" s2 x] by blast
  have "bio_frame s s3" using s1(6) s2(2) s3(2) by (auto simp: brelse_post_def intro: bio_frame_trans)
  then have "bio_write s n d s3" using s1 s2(2) s3(2) by (simp add: bio_write_def brelse_post_def)
  then show ?thesis using s1(1) s2(1) s3(1) by (auto simp: kop_simps d_def n_def)
qed

text \<open>Reading two different blocks, the second of which may be pinned in the cache.\<close>

lemma bread_synced: "bread_post H s n b s' \<Longrightarrow> synced s' b"
  by (auto simp: bread_post_def synced_def)

lemma bread_two:
  assumes inv: "bc_inv {} s" and n: "m < dk_size s" "n < dk_size s" "m \<noteq> n"
    and room: "card (dirty_blocks s) < NBUF" and pin: "n \<in> dirty_blocks s \<or> card (dirty_blocks s) < NBUF - 1"
  shows "\<exists>a b s1 s2. bread 1 m s = Ret a s1 \<and> bread_post {} s m a s1 \<and> bread 1 n s1 = Ret b s2 \<and>
    bread_post {a} s1 n b s2 \<and> bc_inv {b, a} s2 \<and> a \<noteq> b \<and> synced s2 a \<and> synced s2 b \<and>
    bc_bufs s2 a = bc_bufs s1 a"
proof -
  obtain a s1 where a: "bread 1 m s = Ret a s1" "bread_post {} s m a s1"
    using bread_spec [OF inv n(1)] room card_dirty(1) [OF inv] by auto
  then have s1: "bc_inv {a} s1" "dirty_blocks s1 = dirty_blocks s" "dirty_bufs s1 = dirty_bufs s" "dk_size s1 = dk_size s"
    "b_blockno (bc_bufs s1 a) = m"
    by (auto simp: bread_post_def bio_frame_def)
  have "\<exists>b s2. bread 1 n s1 = Ret b s2 \<and> bread_post {a} s1 n b s2"
  proof (cases "n \<in> dirty_blocks s")
    case True
    then obtain b where b: "cached s1 n = Some b" using dirty_blocks_cached [OF s1(1)] s1(2) by auto
    then have "b \<noteq> a" using cached_eq_Some [OF s1(1)] s1(5) n(3) by auto
    then show ?thesis using bread_cached [OF s1(1) b] by auto
  next
    case False
    then have c: "card (dirty_bufs s) < NBUF - 1" using pin card_dirty(1) [OF inv] by simp
    have "card (insert a (dirty_bufs s)) \<le> Suc (card (dirty_bufs s))"
      by (rule card_insert_le_m1) auto
    then have "card ({a} \<union> dirty_bufs s1) < NBUF" using c s1(3) by simp
    then show ?thesis using bread_spec [OF s1(1), of n] n s1 by auto
  qed
  then obtain b s2 where b: "bread 1 n s1 = Ret b s2" "bread_post {a} s1 n b s2" by blast
  have "synced s1 a" using bread_synced [OF a(2)] .
  moreover have "a \<noteq> b" "bc_bufs s2 a = bc_bufs s1 a" "bc_inv {b, a} s2" "dk s2 = dk s1"
    using b(2) by (auto simp: bread_post_def)
  ultimately show ?thesis using a b bread_synced [OF b(2)] by (auto simp: synced_def)
qed

section \<open>The steps of a commit\<close>

lemma log_frame:
  assumes "bio_frame s (s' :: 'z log_scheme)"
  shows "lg_start s' = lg_start s" "lg_size s' = lg_size s" "lg_outstanding s' = lg_outstanding s"
    "lg_committing s' = lg_committing s" "lg_dev s' = lg_dev s" "lg_n s' = lg_n s" "lg_block s' = lg_block s"
    "dk_size s' = dk_size s"
  using assms by (cases s; cases s'; simp add: bio_frame_def)+

text \<open>
  The header block and the log blocks are 30 (\<^verbatim>\<open>nlog\<close> of \<^verbatim>\<open>mkfs\<close>) consecutive blocks inside the disk; the transaction names
  different blocks outside of them. \<open>slot\<close> and \<open>home\<close> are the log block and the home block of its
  \<open>i\<close>th write.
\<close>

definition slot :: "'z log_scheme \<Rightarrow> nat \<Rightarrow> uint" where
  "slot s i = lg_start s + of_nat i + 1"

definition log_region :: "uint \<Rightarrow> nat set" where
  "log_region st = {unat st .. unat st + 29}"

definition log_geom :: "'z log_scheme \<Rightarrow> bool" where
  "log_geom s \<longleftrightarrow> lg_dev s = 1 \<and> 0 \<le> lg_n s \<and> lg_n s < LOGSIZE \<and> unat (lg_start s) + 29 < unat (dk_size s) \<and>
     inj_on (lg_block s) {..<nat (lg_n s)} \<and>
     (\<forall>i < nat (lg_n s). lg_block s i < dk_size s \<and> unat (lg_block s i) \<notin> log_region (lg_start s))"

lemma unat_slot: "log_geom s \<Longrightarrow> i < 29 \<Longrightarrow> unat (slot s i) = unat (lg_start s) + i + 1"
proof -
  assume g: "log_geom s" and i: "i < 29"
  have "unat (lg_start s) + 29 < 4294967296" using g unat_lt32 [of "dk_size s"] by (simp add: log_geom_def)
  then show ?thesis unfolding slot_def using i by (simp add: unat_add32 unat_of_nat32)
qed

lemma log_geomD:
  assumes "log_geom s" "i < nat (lg_n s)"
  shows "slot s i < dk_size s" "lg_block s i < dk_size s" "slot s i \<noteq> lg_block s i" "lg_start s < dk_size s"
    "lg_start s \<noteq> lg_block s i" "unat (slot s i) \<in> log_region (lg_start s)" "i < 29"
proof -
  show i: "i < 29" using assms by (auto simp: log_geom_def)
  note u = unat_slot [OF assms(1) i]
  show r: "unat (slot s i) \<in> log_region (lg_start s)" using u i by (simp add: log_region_def)
  show "slot s i < dk_size s" using u i assms(1) by (simp add: log_geom_def word_less_nat_alt)
  show "lg_block s i < dk_size s" "slot s i \<noteq> lg_block s i" using assms r by (auto simp: log_geom_def)
  show "lg_start s < dk_size s" "lg_start s \<noteq> lg_block s i"
    using assms by (auto simp: log_geom_def word_less_nat_alt log_region_def)
qed

lemma write_log_one_spec:
  assumes inv: "bc_inv {} s" and g: "log_geom s" and i: "i < nat (lg_n s)"
    and d: "dirty_blocks s = lg_block s ` {..<nat (lg_n s)}"
  shows "\<exists>s'. write_log_one i s = Ret () s' \<and> bio_write s (slot s i) (blk s (lg_block s i)) s'"
proof -
  note gd = log_geomD [OF g i]
  have "card (dirty_blocks s) \<le> card {..<nat (lg_n s)}" unfolding d by (rule card_image_le) simp
  then have room: "card (dirty_blocks s) < NBUF" using i gd(7) g by (auto simp: log_geom_def)
  have "lg_block s i \<in> dirty_blocks s" using i d by simp
  then obtain a b s1 s2 where r: "bread 1 (slot s i) s = Ret a s1" "bread_post {} s (slot s i) a s1"
    "bread 1 (lg_block s i) s1 = Ret b s2" "bread_post {a} s1 (lg_block s i) b s2" "bc_inv {a, b} s2" "a \<noteq> b"
    "synced s2 b" "bc_bufs s2 a = bc_bufs s1 a"
    using bread_two [OF inv gd(1-3) room] by (auto simp: insert_commute)
  have f: "bio_frame s s1" "bio_frame s1 s2" using r(2,4) by (auto simp: bread_post_def)
  have n: "b_blockno (bc_bufs s2 a) = slot s i" "b_data (bc_bufs s2 b) = blk s (lg_block s i)"
    using r(2,4,8) by (simp_all add: bread_post_def)
  have "dk_size s2 = dk_size s" using f by (simp add: bio_frame_def)
  then obtain s3 where s3: "seqK (modifyK (\<lambda>s. set_data a (b_data (bc_bufs s b)) s))
      (seqK (bwrite a) (seqK (brelse b) (brelse a))) s2 = Ret () s3"
    "bio_write s2 (slot s i) (blk s (lg_block s i)) s3"
    using copy_write [OF r(5-7)] n gd(1) by auto
  have "write_log_one i s = Ret () s3"
    using r(1,3) s3(1) g log_frame [OF f(1)]
    by (simp add: write_log_one_def kop_simps slot_def log_geom_def)
  moreover have "bio_write s (slot s i) (blk s (lg_block s i)) s3"
    by (rule bio_write_after [OF s3(2) r(2,4)])
  ultimately show ?thesis by blast
qed

lemma install_one_spec:
  assumes inv: "bc_inv {} s" and g: "log_geom s" and i: "i < nat (lg_n s)"
    and room: "card (dirty_blocks s) < NBUF" and pin: "lg_block s i \<in> dirty_blocks s \<or> card (dirty_blocks s) < NBUF - 1"
  shows "\<exists>s'. install_one i s = Ret () s' \<and> bio_write s (lg_block s i) (blk s (slot s i)) s'"
proof -
  note gd = log_geomD [OF g i]
  obtain a b s1 s2 where r: "bread 1 (slot s i) s = Ret a s1" "bread_post {} s (slot s i) a s1"
    "bread 1 (lg_block s i) s1 = Ret b s2" "bread_post {a} s1 (lg_block s i) b s2" "bc_inv {b, a} s2" "a \<noteq> b"
    "synced s2 a" "bc_bufs s2 a = bc_bufs s1 a"
    using bread_two [OF inv gd(1-3) room pin] by auto
  have f: "bio_frame s s1" "bio_frame s1 s2" using r(2,4) by (auto simp: bread_post_def)
  have n: "b_blockno (bc_bufs s2 b) = lg_block s i" "b_data (bc_bufs s2 a) = blk s (slot s i)"
    using r(2,4,8) by (simp_all add: bread_post_def)
  have "dk_size s2 = dk_size s" using f by (simp add: bio_frame_def)
  then obtain s3 where s3: "seqK (modifyK (\<lambda>s. set_data b (b_data (bc_bufs s a)) s))
      (seqK (bwrite b) (seqK (brelse a) (brelse b))) s2 = Ret () s3"
    "bio_write s2 (lg_block s i) (blk s (slot s i)) s3"
    using copy_write [OF r(5) r(6) [symmetric] r(7)] n gd(2) by auto
  have "install_one i s = Ret () s3"
    using r(1,3) s3(1) g log_frame [OF f(1)]
    by (simp add: install_one_def kop_simps slot_def log_geom_def)
  moreover have "bio_write s (lg_block s i) (blk s (slot s i)) s3"
    by (rule bio_write_after [OF s3(2) r(2,4)])
  ultimately show ?thesis by blast
qed

lemma write_head_spec:
  assumes inv: "bc_inv {} s" and dev: "lg_dev s = 1" "lg_start s < dk_size s"
    and room: "card (dirty_blocks s) < NBUF"
  shows "\<exists>s'. write_head s = Ret () s' \<and>
    bio_write s (lg_start s) (head_bytes (lg_n s) (lg_block s) (blk s (lg_start s))) s'"
proof -
  obtain b s1 where r: "bread 1 (lg_start s) s = Ret b s1" "bread_post {} s (lg_start s) b s1"
    using bread_spec [OF inv dev(2)] room card_dirty(1) [OF inv] by auto
  have f: "bio_frame s s1" using r(2) by (auto simp: bread_post_def)
  have p: "bc_inv {b} s1" "b_blockno (bc_bufs s1 b) = lg_start s" "b_data (bc_bufs s1 b) = blk s (lg_start s)"
    using r(2) by (simp_all add: bread_post_def)
  define d where "d = head_bytes (lg_n s) (lg_block s) (blk s (lg_start s))"
  obtain s2 where s2: "bwrite b (set_data b d s1) = Ret () s2" "bc_inv {b} s2" "blk s2 = (blk s1)(lg_start s := d)"
    "dk s2 = (dk s1)(unat (lg_start s) := d)" "dk_hist s2 = dk s1 # dk_hist s1" "bio_frame s1 s2"
    "dirty_blocks s2 = dirty_blocks s1 - {lg_start s}"
    "bc_bufs s2 = (bc_bufs s1)(b := (bc_bufs s1 b)\<lparr>b_data := d, b_dirty := False\<rparr>)"
    using write_held [OF p(1) _ p(2), of d] dev(2) log_frame(8) [OF f] by auto
  have "synced s2 b" using p(2) by (simp add: synced_def s2(4,8))
  then obtain s3 where s3: "brelse b s2 = Ret () s3" "brelse_post {b} s2 b s3"
    using brelse_synced [OF s2(2)] by blast
  have "write_head s = Ret () s3"
    using r(1) s2(1) s3(1) dev log_frame [OF f] p(3) by (simp add: write_head_def kop_simps d_def)
  moreover have "bio_frame s s3"
    using f s2(6) s3(2) bio_frame_trans unfolding brelse_post_def by metis
  then have "bio_write s (lg_start s) d s3"
    using r(2) s2 s3(2) by (simp add: bio_write_def bread_post_def brelse_post_def)
  ultimately show ?thesis by (auto simp: d_def)
qed

section \<open>What recovery makes of a disk\<close>

text \<open>The disk that a boot on \<open>d\<close> leads to, as a function of the disk: the blocks named by the header get the
  contents of the log blocks. \<open>fs_view\<close> is the disk without the log.\<close>

definition recovered :: "uint \<Rightarrow> disk \<Rightarrow> disk" where
  "recovered st d =
     fold (\<lambda>i e. e(unat (get32 (d (unat st)) (4 + 4 * i)) := e (unat st + i + 1)))
       [0..<nat (sint (get32 (d (unat st)) 0))] d"

definition fs_view :: "uint \<Rightarrow> disk \<Rightarrow> disk" where
  "fs_view st d = (\<lambda>b. if b \<in> log_region st then (\<lambda>_. 0) else d b)"

lemma fs_view_eq: "fs_view st d = fs_view st e \<longleftrightarrow> (\<forall>b. b \<notin> log_region st \<longrightarrow> d b = e b)"
  by (auto simp: fs_view_def fun_eq_iff)

lemma fold_install:
  assumes "inj_on h {..<n}" "\<And>i. i < n \<Longrightarrow> h i \<notin> R" "\<And>i. i < n \<Longrightarrow> l i \<in> R"
  shows "(\<forall>i < n. fold (\<lambda>i e. e(h i := e (l i))) [0..<n] d (h i) = d (l i)) \<and>
    (\<forall>b. b \<notin> h ` {..<n} \<longrightarrow> fold (\<lambda>i e. e(h i := e (l i))) [0..<n] d b = d b)"
  using assms
proof (induction n)
  case 0
  then show ?case by simp
next
  case (Suc n)
  have IH: "(\<forall>i < n. fold (\<lambda>i e. e(h i := e (l i))) [0..<n] d (h i) = d (l i)) \<and>
    (\<forall>b. b \<notin> h ` {..<n} \<longrightarrow> fold (\<lambda>i e. e(h i := e (l i))) [0..<n] d b = d b)"
    by (rule Suc.IH) (use Suc.prems in \<open>auto intro: inj_on_subset\<close>)
  have "l n \<notin> h ` {..<n}" using Suc.prems(2,3) [of n] Suc.prems(2) by fastforce
  have ne: "h i \<noteq> h n" if "i < n" for i using Suc.prems(1) that by (auto simp: inj_on_def)
  define e where "e = fold (\<lambda>i e. e(h i := e (l i))) [0..<n] d"
  have F: "fold (\<lambda>i e. e(h i := e (l i))) [0..<Suc n] d = e(h n := e (l n))" by (simp add: e_def)
  have "e (l n) = d (l n)" "\<And>i. i < n \<Longrightarrow> e (h i) = d (l i)" "\<And>b. b \<notin> h ` {..<n} \<Longrightarrow> e b = d b"
    using IH \<open>l n \<notin> h ` {..<n}\<close> unfolding e_def by blast+
  then show ?case unfolding F using ne by (simp add: less_Suc_eq lessThan_Suc)
qed

text \<open>A disk whose header names the transaction of \<open>s\<close> and whose log blocks hold its data.\<close>

definition logged :: "'z log_scheme \<Rightarrow> disk \<Rightarrow> disk \<Rightarrow> bool" where
  "logged s c x \<longleftrightarrow> sint (get32 (x (unat (lg_start s))) 0) = lg_n s \<and>
     (\<forall>i < nat (lg_n s). get32 (x (unat (lg_start s))) (4 + 4 * i) = lg_block s i \<and>
        x (unat (slot s i)) = c (unat (lg_block s i))) \<and>
     (\<forall>b. b \<notin> log_region (lg_start s) \<and> (\<forall>i < nat (lg_n s). b \<noteq> unat (lg_block s i)) \<longrightarrow> x b = c b)"

lemma recovered_logged:
  assumes g: "log_geom s" and l: "logged s c x"
  shows "fs_view (lg_start s) (recovered (lg_start s) x) = fs_view (lg_start s) c"
proof -
  define n where "n = nat (lg_n s)"
  have hd: "nat (sint (get32 (x (unat (lg_start s))) 0)) = n" using l by (simp add: logged_def n_def)
  define h where "h i = unat (get32 (x (unat (lg_start s))) (4 + 4 * i))" for i
  have h: "h i = unat (lg_block s i)" if "i < n" for i using l that by (simp add: logged_def h_def n_def)
  have i1: "inj_on h {..<n}" using g h by (simp add: log_geom_def inj_on_def n_def flip: word_unat_eq_iff)
  have i2: "h i \<notin> log_region (lg_start s)" if "i < n" for i using that h g by (auto simp: log_geom_def n_def)
  have i3: "unat (slot s i) \<in> log_region (lg_start s)" "unat (slot s i) = unat (lg_start s) + i + 1" if "i < n" for i
    using log_geomD(6,7) [OF g] unat_slot [OF g] that by (auto simp: n_def)
  have r: "recovered (lg_start s) x = fold (\<lambda>i e. e(h i := e (unat (lg_start s) + i + 1))) [0..<n] x"
    by (simp add: recovered_def hd h_def)
  have F: "(\<forall>i < n. recovered (lg_start s) x (h i) = x (unat (lg_start s) + i + 1)) \<and>
    (\<forall>b. b \<notin> h ` {..<n} \<longrightarrow> recovered (lg_start s) x b = x b)"
    unfolding r by (rule fold_install [OF i1 i2]) (use i3 in auto)
  show ?thesis unfolding fs_view_eq
  proof (intro allI impI)
    fix b assume b: "b \<notin> log_region (lg_start s)"
    show "recovered (lg_start s) x b = c b"
    proof (cases "b \<in> h ` {..<n}")
      case True
      then obtain i where i: "i < n" "b = h i" by auto
      then have "recovered (lg_start s) x b = x (unat (slot s i))" using F i3(2) by simp
      also have "\<dots> = c b" using l i h by (simp add: logged_def n_def)
      finally show ?thesis .
    next
      case False
      then have "\<forall>i < n. b \<noteq> unat (lg_block s i)" using h by auto
      then have "x b = c b" using l b by (simp add: logged_def n_def)
      then show ?thesis using F False by simp
    qed
  qed
qed

lemma recovered_empty: "get32 (x (unat st)) 0 = 0 \<Longrightarrow> recovered st x = x"
  by (simp add: recovered_def)

text \<open>The header block, read back.\<close>

lemma head_bytes_get:
  assumes "0 \<le> n" "n < LOGSIZE"
  shows "sint (get32 (head_bytes n a d) 0) = n" "\<And>i. i < nat n \<Longrightarrow> get32 (head_bytes n a d) (4 + 4 * i) = a i"
proof -
  have "get32 (head_bytes n a d) 0 = get32 (put32 d 0 (word_of_int n)) 0"
    unfolding head_bytes_def by (rule get32_cong, rule put32_row_other) simp
  moreover have "sint (word_of_int n :: uint) = n" using assms by (simp add: sint_sbintrunc' signed_take_bit_int_eq_self)
  ultimately show "sint (get32 (head_bytes n a d) 0) = n" by simp
  show "\<And>i. i < nat n \<Longrightarrow> get32 (head_bytes n a d) (4 + 4 * i) = a i"
    unfolding head_bytes_def by (rule get32_put32_row)
qed

section \<open>A commit, write by write\<close>

text \<open>Between transactions: no buffer is held, the dirty blocks are those of the transaction, and the header on
  the disk is empty.\<close>

definition log_ready :: "'z log_scheme \<Rightarrow> bool" where
  "log_ready s \<longleftrightarrow> bc_inv {} s \<and> log_geom s \<and> dirty_blocks s = lg_block s ` {..<nat (lg_n s)} \<and>
     get32 (dk s (unat (lg_start s))) 0 = 0"

text \<open>The disk with the transaction of \<open>s\<close> in place.\<close>

definition new_disk :: "'z log_scheme \<Rightarrow> disk" where
  "new_disk s = (\<lambda>b. if \<exists>i < nat (lg_n s). b = unat (lg_block s i) then blk s (of_nat b) else dk s b)"

lemma geom_frame: "bio_frame s t \<Longrightarrow> log_geom t = log_geom s" "bio_frame s t \<Longrightarrow> slot t = slot s"
  by (simp_all add: log_geom_def log_frame slot_def fun_eq_iff)

text \<open>The disks that the writes from \<open>s\<close> to \<open>t\<close> went through, the one at \<open>s\<close> included.\<close>

definition went :: "'z bio_scheme \<Rightarrow> 'z bio_scheme \<Rightarrow> (disk \<Rightarrow> bool) \<Rightarrow> bool" where
  "went s t P \<longleftrightarrow> (\<exists>h. dk_hist t = h @ dk_hist s \<and> (\<forall>x \<in> set h. P x))"

lemma went_refl [simp]: "went s s P"
  by (simp add: went_def)

lemma went_write: "went s t P \<Longrightarrow> bio_write t n d u \<Longrightarrow> P (dk t) \<Longrightarrow> went s u P"
  unfolding went_def bio_write_def by (metis append_Cons set_ConsD)

text \<open>A disk that differs from that of \<open>s\<close> in the log blocks only.\<close>

definition untouched :: "'z log_scheme \<Rightarrow> disk \<Rightarrow> bool" where
  "untouched s x \<longleftrightarrow> (\<forall>b. b \<notin> log_region (lg_start s) \<or> b = unat (lg_start s) \<longrightarrow> x b = dk s b)"

lemma write_log_spec:
  assumes r: "log_ready s"
  shows "\<exists>t. write_log s = Ret () t \<and> bc_inv {} t \<and> bio_frame s t \<and> dirty_blocks t = dirty_blocks s \<and>
    (\<forall>i < nat (lg_n s). blk t (lg_block s i) = blk s (lg_block s i) \<and> dk t (unat (slot s i)) = blk s (lg_block s i)) \<and>
    untouched s (dk t) \<and> went s t (untouched s)"
proof -
  define n where "n = nat (lg_n s)"
  define I where "I k t \<longleftrightarrow> bc_inv {} t \<and> bio_frame s t \<and> dirty_blocks t = dirty_blocks s \<and>
    (\<forall>i < n. blk t (lg_block s i) = blk s (lg_block s i)) \<and> (\<forall>i < k. dk t (unat (slot s i)) = blk s (lg_block s i)) \<and>
    untouched s (dk t) \<and> went s t (untouched s)" for k t
  have g: "log_geom s" "dirty_blocks s = lg_block s ` {..<n}" using r by (auto simp: log_ready_def n_def)
  have "I 0 s" using r by (simp add: I_def log_ready_def untouched_def)
  moreover have "\<exists>u. write_log_one i t = Ret () u \<and> I (Suc i) u" if i: "i < n" and I: "I i t" for i t
  proof -
    have f: "bio_frame s t" using I by (simp add: I_def)
    have ti: "bc_inv {} t" "log_geom t" "i < nat (lg_n t)" "dirty_blocks t = lg_block t ` {..<nat (lg_n t)}"
      using I i g f by (simp_all add: I_def geom_frame log_frame [OF f] n_def)
    obtain u where u: "write_log_one i t = Ret () u" "bio_write t (slot s i) (blk s (lg_block s i)) u"
      using write_log_one_spec [OF ti] I i f by (auto simp: I_def geom_frame log_frame [OF f])
    note gd = log_geomD [OF g(1)]
    have nd: "slot s i \<notin> dirty_blocks s" "slot s i \<noteq> lg_block s j" if "j < n" for j
      using gd(6) [of i] g i that unfolding log_geom_def n_def by auto
    have sl: "unat (slot s i) = unat (lg_start s) + i + 1" "unat (slot s i) \<in> log_region (lg_start s)"
      using unat_slot [OF g(1) gd(7) [of i]] gd(6) [of i] i by (auto simp: n_def)
    have "bio_frame s u" using f u(2) bio_frame_trans by (auto simp: bio_write_def)
    moreover have "untouched s (dk u)" using I u(2) sl by (auto simp: I_def untouched_def bio_write_def)
    moreover have "went s u (untouched s)" using I u(2) went_write by (auto simp: I_def)
    moreover have "dk u (unat (slot s j)) = blk s (lg_block s j)" if "j < Suc i" for j
    proof (cases "j = i")
      case False
      then have "unat (slot s j) \<noteq> unat (slot s i)"
        using sl unat_slot [OF g(1) gd(7) [of j]] that i by (simp add: n_def)
      then show ?thesis using I u(2) that False by (simp add: I_def bio_write_def)
    qed (use u(2) in \<open>simp add: bio_write_def\<close>)
    moreover have "blk u (lg_block s j) = blk s (lg_block s j)" if "j < n" for j
      using I u(2) nd(2) [OF that] that by (auto simp: I_def bio_write_def)
    ultimately have "I (Suc i) u" using I u(2) nd(1) [OF i] by (simp add: I_def bio_write_def)
    with u(1) show ?thesis by blast
  qed
  ultimately obtain t where "forK [0..<n] write_log_one s = Ret () t" "I n t"
    using forK_upt_Ret [of I s n write_log_one] by blast
  then show ?thesis by (auto simp: write_log_def I_def n_def)
qed

lemma logged_cong:
  assumes "logged s c x" "log_geom s" "\<And>b. b \<in> log_region (lg_start s) \<Longrightarrow> y b = x b"
    "\<And>b. (\<forall>i < nat (lg_n s). b \<noteq> unat (lg_block s i)) \<Longrightarrow> y b = x b"
  shows "logged s c y"
proof -
  have "y (unat (lg_start s)) = x (unat (lg_start s))" by (rule assms(3)) (simp add: log_region_def)
  moreover have "y (unat (slot s i)) = x (unat (slot s i))" if "i < nat (lg_n s)" for i
    using assms(3) log_geomD(6) [OF assms(2) that] .
  ultimately show ?thesis using assms(1,4) by (simp add: logged_def)
qed

lemma install_trans_spec:
  assumes inv: "bc_inv {} s" and g: "log_geom s" and l: "logged s c (dk s)"
    and d: "dirty_blocks s = {} \<or> dirty_blocks s = lg_block s ` {..<nat (lg_n s)}"
  shows "\<exists>t. install_trans s = Ret () t \<and> bc_inv {} t \<and> bio_frame s t \<and> dirty_blocks t = {} \<and>
    (\<forall>b. dk t b = (if b \<in> log_region (lg_start s) then dk s b else c b)) \<and>
    logged s c (dk t) \<and> went s t (logged s c)"
proof -
  define n where "n = nat (lg_n s)"
  define I where "I k t \<longleftrightarrow> bc_inv {} t \<and> bio_frame s t \<and> dirty_blocks t = dirty_blocks s - lg_block s ` {..<k} \<and>
    (\<forall>b. (\<forall>i < k. b \<noteq> unat (lg_block s i)) \<longrightarrow> dk t b = dk s b) \<and>
    (\<forall>i < k. dk t (unat (lg_block s i)) = c (unat (lg_block s i))) \<and>
    logged s c (dk t) \<and> went s t (logged s c)" for k t
  note gd = log_geomD [OF g]
  have sl: "unat (slot s i) \<noteq> unat (lg_block s j)" if "i < n" "j < n" for i j
    using gd(6) [of i] g that unfolding log_geom_def n_def by auto
  have "I 0 s" using inv l by (simp add: I_def)
  moreover have "\<exists>u. install_one i t = Ret () u \<and> I (Suc i) u" if i: "i < n" and I: "I i t" for i t
  proof -
    have f: "bio_frame s t" "bc_inv {} t" using I by (simp_all add: I_def)
    have inj: "lg_block s j \<noteq> lg_block s i" if "j < i" for j
      using g that i by (auto simp: log_geom_def inj_on_def n_def)
    have sub: "card (dirty_blocks t) \<le> card (dirty_blocks s)"
      using I card_dirty(2) [OF inv] by (auto simp: I_def intro: card_mono)
    have "card (lg_block s ` {..<n}) \<le> n" using card_image_le [of "{..<n}" "lg_block s"] by simp
    then have room: "card (dirty_blocks t) < NBUF" "card (dirty_blocks s) = 0 \<or> dirty_blocks s = lg_block s ` {..<n}"
      using d sub gd(7) [of i] i g by (auto simp: n_def log_geom_def)
    have pin: "lg_block s i \<in> dirty_blocks t \<or> card (dirty_blocks t) < NBUF - 1"
    proof (cases "dirty_blocks s = {}")
      case False
      then have "lg_block s i \<in> dirty_blocks t" using d I i inj by (auto simp: I_def n_def)
      then show ?thesis ..
    qed (use I in \<open>simp add: I_def\<close>)
    have nd: "slot s i \<notin> dirty_blocks t"
    proof
      assume "slot s i \<in> dirty_blocks t"
      then have "slot s i \<in> lg_block s ` {..<n}" using I d by (auto simp: I_def n_def)
      then show False using sl [OF i] by (metis imageE lessThan_iff)
    qed
    have "dk t (unat (slot s i)) = dk s (unat (slot s i))" using I sl [OF i] i by (simp add: I_def)
    then have bs: "blk t (slot s i) = c (unat (lg_block s i))"
      using blk_clean [OF f(2) nd] l i by (simp add: logged_def n_def)
    have ti: "log_geom t" "i < nat (lg_n t)" using g i f by (simp_all add: geom_frame log_frame [OF f(1)] n_def)
    obtain u where u: "install_one i t = Ret () u" "bio_write t (lg_block s i) (c (unat (lg_block s i))) u"
      using install_one_spec [OF f(2) ti room(1)] pin bs by (auto simp: geom_frame [OF f(1)] log_frame [OF f(1)])
    have "bio_frame s u" using f u(2) bio_frame_trans by (auto simp: bio_write_def)
    moreover have "logged s c (dk u)"
      by (rule logged_cong [of s c "dk t"]) (use I u(2) g i in \<open>auto simp: I_def bio_write_def log_geom_def n_def\<close>)
    moreover have "went s u (logged s c)" using I u(2) went_write by (auto simp: I_def)
    moreover have "dirty_blocks u = dirty_blocks s - lg_block s ` {..<Suc i}"
      using I u(2) by (auto simp: I_def bio_write_def lessThan_Suc)
    moreover have "dk u b = dk s b" if "\<forall>j < Suc i. b \<noteq> unat (lg_block s j)" for b
      using that I u(2) by (simp add: I_def bio_write_def)
    moreover have "dk u (unat (lg_block s j)) = c (unat (lg_block s j))" if "j < Suc i" for j
      using that I u(2) by (auto simp: I_def bio_write_def less_Suc_eq)
    ultimately have "I (Suc i) u" using u(2) by (simp add: I_def bio_write_def)
    with u(1) show ?thesis by blast
  qed
  ultimately obtain t where t: "forK [0..<n] install_one s = Ret () t" "I n t"
    using forK_upt_Ret [of I s n install_one] by blast
  have "dirty_blocks t = {}" using t(2) d by (auto simp: I_def n_def)
  moreover have "dk t b = (if b \<in> log_region (lg_start s) then dk s b else c b)" for b
    using t(2) l g unfolding I_def logged_def log_geom_def n_def [symmetric] by (metis (no_types, lifting))
  ultimately show ?thesis using t by (auto simp: install_trans_def I_def n_def)
qed

lemma cached_log [simp]:
  "cached (s\<lparr>lg_n := k\<rparr>) = cached s" "cached (s\<lparr>lg_block := a\<rparr>) = cached s"
  "cached (s\<lparr>lg_outstanding := k\<rparr>) = cached s" "cached (s\<lparr>lg_committing := c\<rparr>) = cached s"
  "cached (s\<lparr>k_held := h\<rparr>) = cached s"
  by (simp_all add: cached_def fun_eq_iff)

lemma bio_log [simp]:
  "bc_inv H (s\<lparr>lg_n := k\<rparr>) = bc_inv H s" "blk (s\<lparr>lg_n := k\<rparr>) = blk s" "dirty_blocks (s\<lparr>lg_n := k\<rparr>) = dirty_blocks s"
  "bc_inv H (s\<lparr>lg_block := a\<rparr>) = bc_inv H s" "blk (s\<lparr>lg_block := a\<rparr>) = blk s" "dirty_blocks (s\<lparr>lg_block := a\<rparr>) = dirty_blocks s"
  "bc_inv H (s\<lparr>lg_outstanding := k\<rparr>) = bc_inv H s" "blk (s\<lparr>lg_outstanding := k\<rparr>) = blk s"
  "dirty_blocks (s\<lparr>lg_outstanding := k\<rparr>) = dirty_blocks s"
  "bc_inv H (s\<lparr>lg_committing := c\<rparr>) = bc_inv H s" "blk (s\<lparr>lg_committing := c\<rparr>) = blk s"
  "dirty_blocks (s\<lparr>lg_committing := c\<rparr>) = dirty_blocks s" "blk (s\<lparr>k_held := h\<rparr>) = blk s"
  "dirty_blocks (s\<lparr>k_held := h\<rparr>) = dirty_blocks s"
  by (simp_all add: bc_inv_def blk_def dirty_blocks_def dirty_bufs_def fun_eq_iff split: option.split)

text \<open>Clearing the header after the blocks are installed, in a commit and in recovery.\<close>

lemma clear_head:
  assumes inv: "bc_inv {} s" "dirty_blocks s = {}" and g: "lg_dev s = 1" "unat (lg_start s) + 29 < unat (dk_size s)"
  shows "\<exists>t. write_head (s\<lparr>lg_n := 0\<rparr>) = Ret () t \<and> log_ready t \<and> bio_frame (s\<lparr>lg_n := 0\<rparr>) t \<and>
    dirty_blocks t = {} \<and> (\<forall>b. b \<noteq> unat (lg_start s) \<longrightarrow> dk t b = dk s b) \<and> dk_hist t = dk s # dk_hist s"
proof -
  define s0 where "s0 = s\<lparr>lg_n := 0\<rparr>"
  have "lg_start s0 < dk_size s0" using g by (simp add: s0_def word_less_nat_alt)
  then obtain t where t: "write_head s0 = Ret () t"
    "bio_write s0 (lg_start s) (head_bytes 0 (lg_block s) (blk s (lg_start s))) t"
    using write_head_spec [of s0] inv g by (auto simp: s0_def)
  have "get32 (head_bytes 0 (lg_block s) (blk s (lg_start s))) 0 = 0" by (simp add: head_bytes_def)
  then have "get32 (dk t (unat (lg_start s))) 0 = 0" using t(2) by (simp add: bio_write_def)
  moreover have f: "bio_frame s0 t" using t(2) by (simp add: bio_write_def)
  ultimately have "log_ready t"
    using t(2) inv g log_frame [OF f] by (simp add: log_ready_def log_geom_def bio_write_def s0_def)
  then show ?thesis using t f inv by (auto simp: bio_write_def s0_def)
qed

lemma commit_spec:
  assumes r: "log_ready s" and n: "lg_n s > 0"
  shows "\<exists>t h1 h2. commit s = Ret () t \<and> log_ready t \<and> lg_n t = 0 \<and> bio_frame (s\<lparr>lg_n := 0\<rparr>) t \<and>
    dk_hist t = h2 @ h1 @ dk_hist s \<and> (\<forall>x \<in> set h1. untouched s x) \<and> (\<forall>x \<in> set h2. logged s (new_disk s) x) \<and>
    fs_view (lg_start s) (dk t) = fs_view (lg_start s) (new_disk s)"
proof -
  have g: "log_geom s" "bc_inv {} s" "dirty_blocks s = lg_block s ` {..<nat (lg_n s)}"
    using r by (auto simp: log_ready_def)
  obtain t1 where t1: "write_log s = Ret () t1" "bc_inv {} t1" "bio_frame s t1" "dirty_blocks t1 = dirty_blocks s"
    "\<And>i. i < nat (lg_n s) \<Longrightarrow> blk t1 (lg_block s i) = blk s (lg_block s i)"
    "\<And>i. i < nat (lg_n s) \<Longrightarrow> dk t1 (unat (slot s i)) = blk s (lg_block s i)"
    "untouched s (dk t1)" "went s t1 (untouched s)"
    using write_log_spec [OF r] by blast
  obtain h1 where h1: "dk_hist t1 = h1 @ dk_hist s" "\<forall>x \<in> set h1. untouched s x"
    using t1(8) by (auto simp: went_def)
  note l1 = log_frame [OF t1(3)]
  have rm: "card (dirty_blocks t1) < NBUF"
    using card_image_le [of "{..<nat (lg_n s)}" "lg_block s"] g by (auto simp: t1(4) log_geom_def)
  have "lg_start s < dk_size s" using g(1) by (simp add: log_geom_def word_less_nat_alt)
  then obtain t2 where t2: "write_head t1 = Ret () t2"
    "bio_write t1 (lg_start s) (head_bytes (lg_n s) (lg_block s) (blk t1 (lg_start s))) t2"
    using write_head_spec [OF t1(2) _ _ rm] g(1) by (auto simp: l1 log_geom_def)
  have f2: "bio_frame s t2" using t1(3) t2(2) bio_frame_trans by (auto simp: bio_write_def)
  note l2 = log_frame [OF f2]
  have g2: "log_geom t2" "slot t2 = slot s" "logged t2 = logged s"
    using g(1) geom_frame [OF f2] by (simp_all add: fun_eq_iff logged_def l2)
  have sn: "lg_start s \<noteq> lg_block s i" "unat (slot s i) \<noteq> unat (lg_start s)" if "i < nat (lg_n s)" for i
    using log_geomD(5) [OF g(1) that] unat_slot [OF g(1) log_geomD(7) [OF g(1) that]] by auto
  have lg: "logged t2 (new_disk s) (dk t2)"
    unfolding logged_def g2(2) l2
  proof (intro conjI allI impI)
    show "sint (get32 (dk t2 (unat (lg_start s))) 0) = lg_n s"
      "\<And>i. i < nat (lg_n s) \<Longrightarrow> get32 (dk t2 (unat (lg_start s))) (4 + 4 * i) = lg_block s i"
      using t2(2) g(1) by (simp_all add: bio_write_def head_bytes_get log_geom_def)
    show "dk t2 (unat (slot s i)) = new_disk s (unat (lg_block s i))" if "i < nat (lg_n s)" for i
      using t2(2) t1(6) [OF that] sn(2) [OF that] that by (auto simp: bio_write_def new_disk_def)
    show "dk t2 b = new_disk s b" if b: "b \<notin> log_region (lg_start s) \<and> (\<forall>i < nat (lg_n s). b \<noteq> unat (lg_block s i))" for b
    proof -
      have "b \<noteq> unat (lg_start s)" using b by (auto simp: log_region_def)
      then show ?thesis using b t2(2) t1(7) by (auto simp: bio_write_def new_disk_def untouched_def)
    qed
  qed
  have d2: "dirty_blocks t2 = lg_block t2 ` {..<nat (lg_n t2)}" "bc_inv {} t2"
    using t2(2) t1(4) g(3) sn(1) [symmetric] by (auto simp: bio_write_def l2)
  obtain t3 where t3: "install_trans t2 = Ret () t3" "bc_inv {} t3" "bio_frame t2 t3" "dirty_blocks t3 = {}"
    "\<And>b. dk t3 b = (if b \<in> log_region (lg_start s) then dk t2 b else new_disk s b)"
    "logged s (new_disk s) (dk t3)" "went t2 t3 (logged s (new_disk s))"
    using install_trans_spec [OF d2(2) g2(1) lg] d2(1) by (auto simp: g2 l2)
  obtain h3 where h3: "dk_hist t3 = h3 @ dk_hist t2" "\<forall>x \<in> set h3. logged s (new_disk s) x"
    using t3(7) by (auto simp: went_def)
  have f3: "bio_frame s t3" using f2 t3(3) by (rule bio_frame_trans)
  note l3 = log_frame [OF f3]
  obtain t4 where t4: "write_head (t3\<lparr>lg_n := 0\<rparr>) = Ret () t4" "log_ready t4" "bio_frame (t3\<lparr>lg_n := 0\<rparr>) t4"
    "\<And>b. b \<noteq> unat (lg_start s) \<Longrightarrow> dk t4 b = dk t3 b" "dk_hist t4 = dk t3 # dk_hist t3"
    using clear_head [OF t3(2,4)] g(1) by (auto simp: l3 log_geom_def)
  have "commit s = Ret () t4" using t1(1) t2(1) t3(1) t4(1) n by (simp add: commit_def kop_simps)
  moreover have "dk_hist t4 = (dk t3 # h3) @ (dk t1 # h1) @ dk_hist s"
    using t4(5) h3(1) t2(2) h1(1) by (simp add: bio_write_def)
  moreover have "\<forall>x \<in> set (dk t3 # h3). logged s (new_disk s) x" using t3(6) h3(2) by simp
  moreover have "\<forall>x \<in> set (dk t1 # h1). untouched s x" using t1(7) h1(2) by simp
  moreover have "fs_view (lg_start s) (dk t4) = fs_view (lg_start s) (new_disk s)"
    unfolding fs_view_eq
  proof (intro allI impI)
    fix b assume b: "b \<notin> log_region (lg_start s)"
    then have "b \<noteq> unat (lg_start s)" by (auto simp: log_region_def)
    then show "dk t4 b = new_disk s b" using t4(4) t3(5) b by simp
  qed
  moreover have "bio_frame (s\<lparr>lg_n := 0\<rparr>) (t3\<lparr>lg_n := 0\<rparr>)" using f3 by (cases s; cases t3) (simp add: bio_frame_def)
  then have "bio_frame (s\<lparr>lg_n := 0\<rparr>) t4" "lg_n t4 = 0"
    using t4(3) log_frame(6) [OF t4(3)] by (auto intro: bio_frame_trans)
  ultimately show ?thesis using t4(2) by blast
qed

section \<open>Recovery\<close>

text \<open>A header that recovery can follow.\<close>

definition head_ok :: "uint \<Rightarrow> uint \<Rightarrow> disk \<Rightarrow> bool" where
  "head_ok st sz x \<longleftrightarrow> (let h = x (unat st); n = sint (get32 h 0) in
     0 \<le> n \<and> n < LOGSIZE \<and> inj_on (\<lambda>i. get32 h (4 + 4 * i)) {..<nat n} \<and>
     (\<forall>i < nat n. get32 h (4 + 4 * i) < sz \<and> unat (get32 h (4 + 4 * i)) \<notin> log_region st))"

text \<open>A machine that just booted: nothing cached that is newer than the disk.\<close>

definition booted :: "'z bio_scheme \<Rightarrow> disk \<Rightarrow> bool" where
  "booted m x \<longleftrightarrow> bc_inv {} m \<and> dirty_blocks m = {} \<and> dk m = x"

lemma fold_upd_upt: "fold (\<lambda>i a. a(i := f i)) [0..<n] a = (\<lambda>i. if i < n then f i else a i)"
  by (induction n) (auto simp: fun_eq_iff)

lemma read_head_spec:
  assumes m: "booted m x" and dev: "lg_dev m = 1" "unat (lg_start m) + 29 < unat (dk_size m)"
    and ok: "head_ok (lg_start m) (dk_size m) x"
  shows "\<exists>t. read_head m = Ret () t \<and> booted t x \<and> log_geom t \<and> dk_hist t = dk_hist m \<and> lg_start t = lg_start m \<and>
    dk_size t = dk_size m \<and> lg_size t = lg_size m \<and> lg_n t = sint (get32 (x (unat (lg_start m))) 0) \<and>
    (\<forall>i < nat (lg_n t). lg_block t i = get32 (x (unat (lg_start m))) (4 + 4 * i))"
proof -
  define h where "h = x (unat (lg_start m))"
  define n where "n = sint (get32 h 0)"
  have b: "bc_inv {} m" "dirty_blocks m = {}" "dk m = x" using m by (auto simp: booted_def)
  have "lg_start m < dk_size m" using dev by (simp add: word_less_nat_alt)
  then obtain b s1 where r: "bread 1 (lg_start m) m = Ret b s1" "bread_post {} m (lg_start m) b s1"
    using bread_spec [OF b(1), of "lg_start m"] card_dirty(1) [OF b(1)] b(2) by auto
  have f: "bio_frame m s1" using r(2) by (simp add: bread_post_def)
  note l = log_frame [OF f]
  have p: "bc_inv {b} s1" "b_data (bc_bufs s1 b) = h" "synced s1 b" "dk s1 = x" "dirty_blocks s1 = {}"
    using r(2) bread_synced [OF r(2)] blk_clean [OF b(1)] b(2,3) by (auto simp: bread_post_def h_def)
  define s2 where "s2 = s1\<lparr>lg_n := n, lg_block := fold (\<lambda>i a. a(i := get32 h (4 + 4 * i))) [0..<nat n] (lg_block s1)\<rparr>"
  have "bc_inv {b} s2" "synced s2 b" using p(1,3) by (simp_all add: s2_def synced_def)
  then obtain t where t: "brelse b s2 = Ret () t" "brelse_post {b} s2 b t" using brelse_synced by blast
  have ok': "0 \<le> n" "n < 30" "inj_on (\<lambda>i. get32 h (4 + 4 * i)) {..<nat n}"
    "\<forall>i < nat n. get32 h (4 + 4 * i) < dk_size m \<and> unat (get32 h (4 + 4 * i)) \<notin> log_region (lg_start m)"
    using ok by (auto simp: head_ok_def h_def n_def Let_def)
  have f2: "bio_frame s2 t" using t(2) by (simp add: brelse_post_def)
  note l2 = log_frame [OF f2]
  have ln: "lg_n t = n" "lg_block t i = get32 h (4 + 4 * i)" if "i < nat n" for i
    using that by (simp_all add: l2 s2_def fold_upd_upt)
  have lt: "lg_n t = n" "lg_start t = lg_start m" "dk_size t = dk_size m" "lg_dev t = 1" "lg_size t = lg_size m"
    using dev by (simp_all add: l2 s2_def l)
  have "inj_on (lg_block t) {..<nat n}" using ok'(3) ln(2) by (auto simp: inj_on_def)
  then have "log_geom t" using ok' dev ln(2) lt by (simp add: log_geom_def)
  moreover have "read_head m = Ret () t"
    using r(1) t(1) dev l p(2) ok'(2) by (simp add: read_head_def kop_simps Let_def s2_def n_def)
  moreover have "booted t x" "dk_hist t = dk_hist m"
    using t(2) p r(2) by (simp_all add: booted_def brelse_post_def s2_def bread_post_def)
  ultimately show ?thesis using ln lt by (auto simp: h_def n_def)
qed

lemma recovered_self_logged:
  assumes g: "log_geom t" and n: "lg_n t = sint (get32 (x (unat (lg_start t))) 0)"
    and b: "\<forall>i < nat (lg_n t). lg_block t i = get32 (x (unat (lg_start t))) (4 + 4 * i)"
  shows "logged t (recovered (lg_start t) x) x"
proof -
  define k where "k = nat (lg_n t)"
  define h where "h i = unat (get32 (x (unat (lg_start t))) (4 + 4 * i))" for i
  have h: "h i = unat (lg_block t i)" if "i < k" for i using b that by (simp add: h_def k_def)
  have i1: "inj_on h {..<k}" using g h by (simp add: log_geom_def inj_on_def k_def flip: word_unat_eq_iff)
  have i2: "h i \<notin> log_region (lg_start t)" if "i < k" for i using that h g by (auto simp: log_geom_def k_def)
  have i3: "unat (slot t i) \<in> log_region (lg_start t)" "unat (slot t i) = unat (lg_start t) + i + 1" if "i < k" for i
    using log_geomD(6,7) [OF g] unat_slot [OF g] that by (auto simp: k_def)
  have r: "recovered (lg_start t) x = fold (\<lambda>i e. e(h i := e (unat (lg_start t) + i + 1))) [0..<k] x"
    using n by (simp add: recovered_def h_def k_def)
  have "(\<forall>i < k. recovered (lg_start t) x (h i) = x (unat (lg_start t) + i + 1)) \<and>
    (\<forall>b. b \<notin> h ` {..<k} \<longrightarrow> recovered (lg_start t) x b = x b)"
    unfolding r by (rule fold_install [OF i1 i2]) (use i3 in auto)
  then show ?thesis using n b h i3(2) by (auto simp: logged_def k_def)
qed

lemma recover_spec:
  assumes m: "booted m x" and dev: "lg_dev m = 1" "unat (lg_start m) + 29 < unat (dk_size m)"
    and ok: "head_ok (lg_start m) (dk_size m) x"
  shows "\<exists>u h. recover_from_log m = Ret () u \<and> log_ready u \<and> lg_n u = 0 \<and> dirty_blocks u = {} \<and>
    lg_start u = lg_start m \<and> dk_hist u = h @ dk_hist m \<and>
    fs_view (lg_start m) (dk u) = fs_view (lg_start m) (recovered (lg_start m) x) \<and>
    (\<forall>y \<in> set h. fs_view (lg_start m) (recovered (lg_start m) y) = fs_view (lg_start m) (recovered (lg_start m) x))"
proof -
  obtain t where t: "read_head m = Ret () t" "booted t x" "log_geom t" "dk_hist t = dk_hist m"
    "lg_start t = lg_start m" "dk_size t = dk_size m" "lg_n t = sint (get32 (x (unat (lg_start m))) 0)"
    "\<forall>i < nat (lg_n t). lg_block t i = get32 (x (unat (lg_start m))) (4 + 4 * i)"
    using read_head_spec [OF assms] by blast
  define c where "c = recovered (lg_start m) x"
  have "logged t c x" unfolding c_def t(5) [symmetric]
    by (rule recovered_self_logged) (use t in auto)
  then obtain s2 where s2: "install_trans t = Ret () s2" "bc_inv {} s2" "bio_frame t s2" "dirty_blocks s2 = {}"
    "\<And>b. dk s2 b = (if b \<in> log_region (lg_start m) then x b else c b)"
    "logged t c (dk s2)" "went t s2 (logged t c)"
    using install_trans_spec [of t c] t(2,3,5) by (auto simp: booted_def)
  note l = log_frame [OF s2(3)]
  obtain h where h: "dk_hist s2 = h @ dk_hist m" "\<forall>y \<in> set h. logged t c y"
    using s2(7) t(4) by (auto simp: went_def)
  obtain u where u: "write_head (s2\<lparr>lg_n := 0\<rparr>) = Ret () u" "log_ready u" "bio_frame (s2\<lparr>lg_n := 0\<rparr>) u"
    "dirty_blocks u = {}" "\<And>b. b \<noteq> unat (lg_start m) \<Longrightarrow> dk u b = dk s2 b" "dk_hist u = dk s2 # dk_hist s2"
    using clear_head [OF s2(2,4)] t(3,5,6) dev by (auto simp: l log_geom_def)
  have "recover_from_log m = Ret () u" using t(1) s2(1) u(1) by (simp add: recover_from_log_def kop_simps)
  moreover have "dk_hist u = (dk s2 # h) @ dk_hist m" using u(6) h(1) by simp
  moreover have "fs_view (lg_start m) (dk u) = fs_view (lg_start m) c" unfolding fs_view_eq
  proof (intro allI impI)
    fix b assume b: "b \<notin> log_region (lg_start m)"
    then have "b \<noteq> unat (lg_start m)" by (auto simp: log_region_def)
    then show "dk u b = c b" using u(5) s2(5) b by simp
  qed
  moreover have "\<forall>y \<in> set (dk s2 # h). fs_view (lg_start m) (recovered (lg_start m) y) = fs_view (lg_start m) c"
    using recovered_logged [OF t(3)] s2(6) h(2) t(5) by auto
  moreover have "lg_n u = 0" "lg_start u = lg_start m"
    using log_frame [OF u(3)] l t(5) by simp_all
  ultimately show ?thesis using u(2,4) by (auto simp: c_def)
qed

lemma readsb_spec:
  assumes m: "booted m x" and "1 < dk_size m"
  shows "\<exists>t. readsb 1 m = Ret (get_superblock (x 1)) t \<and> booted t x \<and> bio_frame m t \<and> dk_hist t = dk_hist m"
proof -
  have b: "bc_inv {} m" "dirty_blocks m = {}" "dk m = x" using m by (auto simp: booted_def)
  obtain b s1 where r: "bread 1 1 m = Ret b s1" "bread_post {} m 1 b s1"
    using bread_spec [OF b(1) assms(2)] card_dirty(1) [OF b(1)] b(2) by auto
  have p: "bc_inv {b} s1" "b_data (bc_bufs s1 b) = x 1" "synced s1 b" "bio_frame m s1"
    using r(2) bread_synced [OF r(2)] blk_clean [OF b(1)] b(2,3) by (auto simp: bread_post_def)
  obtain t where t: "brelse b s1 = Ret () t" "brelse_post {b} s1 b t" using brelse_synced [OF p(1) _ p(3)] by blast
  have "bio_frame m t" using p(4) t(2) bio_frame_trans by (auto simp: brelse_post_def)
  moreover have "booted t x" "dk_hist t = dk_hist m"
    using t(2) r(2) b by (auto simp: booted_def brelse_post_def bread_post_def)
  moreover have "readsb 1 m = Ret (get_superblock (x 1)) t"
    using r(1) t(1) p(2) by (simp add: readsb_def kop_simps)
  ultimately show ?thesis by blast
qed

lemma booted_log [simp]: "booted (m\<lparr>lg_start := a, lg_size := b, lg_dev := d\<rparr>) x = booted m x"
proof -
  have "cached (m\<lparr>lg_start := a, lg_size := b, lg_dev := d\<rparr>) = cached m" by (simp add: cached_def fun_eq_iff)
  then show ?thesis by (simp add: booted_def bc_inv_def dirty_blocks_def dirty_bufs_def)
qed

text \<open>
  \<open>initlog\<close> on a disk with a usable header: it returns with an empty log, with the transaction of the
  header in place; and should the machine stop again on the way, recovery of any disk it went
  through leads to the same file system.
\<close>

definition recovers :: "uint \<Rightarrow> disk \<Rightarrow> 'z log_scheme \<Rightarrow> 'z log_scheme \<Rightarrow> bool" where
  "recovers st x m u \<longleftrightarrow> log_ready u \<and> lg_n u = 0 \<and> dirty_blocks u = {} \<and> lg_start u = st \<and>
     fs_view st (dk u) = fs_view st (recovered st x) \<and>
     went m u (\<lambda>y. fs_view st (recovered st y) = fs_view st (recovered st x))"

lemma initlog_spec:
  assumes m: "booted m x" and st: "sb_logstart (get_superblock (x 1)) = st" "unat st + 29 < unat (dk_size m)"
    and ok: "head_ok st (dk_size m) x"
  shows "\<exists>u. initlog 1 m = Ret () u \<and> recovers st x m u"
proof -
  have "1 < dk_size m" using st(2) by (simp add: word_less_nat_alt)
  then obtain t where t: "readsb 1 m = Ret (get_superblock (x 1)) t" "booted t x" "bio_frame m t" "dk_hist t = dk_hist m"
    using readsb_spec [OF m] by blast
  define t' where "t' = t\<lparr>lg_start := st, lg_size := sint (sb_nlog (get_superblock (x 1))), lg_dev := 1\<rparr>"
  have "dk_size t = dk_size m" by (rule log_frame [OF t(3)])
  then obtain u h where u: "recover_from_log t' = Ret () u" "log_ready u" "lg_n u = 0" "dirty_blocks u = {}"
    "lg_start u = st" "dk_hist u = h @ dk_hist m" "fs_view st (dk u) = fs_view st (recovered st x)"
    "\<forall>y \<in> set h. fs_view st (recovered st y) = fs_view st (recovered st x)"
    using recover_spec [of t' x] t(2,4) st ok by (auto simp: t'_def)
  have "initlog 1 m = Ret () u" using t(1) u(1) st(1) by (simp add: initlog_def kop_simps t'_def)
  moreover have "recovers st x m u" using u unfolding recovers_def went_def by blast
  ultimately show ?thesis by blast
qed

text \<open>The disks between two states, both ends included.\<close>

definition disks_between :: "'z bio_scheme \<Rightarrow> 'z bio_scheme \<Rightarrow> disk set" where
  "disks_between s t = {x. \<exists>h. dk_hist t = h @ dk_hist s \<and> x \<in> set (dk t # h)}"

text \<open>Every disk of a commit is one that recovery takes to the old or to the new file system.\<close>

lemma head_ok_empty: "get32 (x (unat st)) 0 = 0 \<Longrightarrow> head_ok st sz x"
  by (simp add: head_ok_def)

lemma untouched_recovers:
  assumes "log_ready s" "untouched s x"
  shows "head_ok (lg_start s) (dk_size s) x" "fs_view (lg_start s) (recovered (lg_start s) x) = fs_view (lg_start s) (dk s)"
proof -
  have e: "get32 (x (unat (lg_start s))) 0 = 0" using assms by (simp add: log_ready_def untouched_def)
  then show "head_ok (lg_start s) (dk_size s) x" by (rule head_ok_empty)
  show "fs_view (lg_start s) (recovered (lg_start s) x) = fs_view (lg_start s) (dk s)"
    using assms(2) by (simp add: recovered_empty [of x "lg_start s", OF e] fs_view_eq untouched_def)
qed

lemma logged_head_ok:
  assumes "log_geom s" "logged s c x"
  shows "head_ok (lg_start s) (dk_size s) x"
  using assms by (auto simp: head_ok_def log_geom_def logged_def inj_on_def)

lemma commit_none: "lg_n s \<le> 0 \<Longrightarrow> commit s = Ret () s"
  by (simp add: commit_def kop_simps)

lemma log_ready_none:
  assumes "log_ready s" "lg_n s \<le> 0"
  shows "new_disk s = dk s" "lg_n s = 0"
  using assms by (auto simp: new_disk_def fun_eq_iff log_ready_def log_geom_def)

lemma disks_between_commit:
  assumes "log_ready s" and "commit s = Ret () t" and "x \<in> disks_between s t"
  shows "log_ready t \<and> lg_n t = 0 \<and> lg_start t = lg_start s \<and> fs_view (lg_start s) (dk t) = fs_view (lg_start s) (new_disk s) \<and>
    (untouched s x \<and> x \<noteq> dk t \<or> logged s (new_disk s) x \<and> lg_n s > 0 \<or> x = dk t)"
proof (cases "lg_n s > 0")
  case False
  then have "t = s" using assms(2) commit_none [of s] by simp
  moreover from this have "x = dk s" using assms(3) by (auto simp: disks_between_def)
  ultimately show ?thesis using assms(1) log_ready_none [OF assms(1)] False by simp
next
  case True
  obtain h1 h2 where c: "log_ready t" "lg_n t = 0" "bio_frame (s\<lparr>lg_n := 0\<rparr>) t" "dk_hist t = h2 @ h1 @ dk_hist s"
    "\<forall>x \<in> set h1. untouched s x" "\<forall>x \<in> set h2. logged s (new_disk s) x"
    "fs_view (lg_start s) (dk t) = fs_view (lg_start s) (new_disk s)"
    using commit_spec [OF assms(1) True] assms(2) by auto
  have "x \<in> set (dk t # h2 @ h1)" using assms(3) c(4) by (auto simp: disks_between_def)
  then show ?thesis using c log_frame(1) [OF c(3)] True by auto
qed

text \<open>
  C1. A transaction is atomic and durable. From a state between transactions \<^verbatim>\<open>commit\<close> returns, with every
  block of the transaction at its home location; and if the machine stops before, between or after
  any of the disk writes of the commit, booting from the disk as it is then (\<^verbatim>\<open>initlog\<close>) returns with
  a file system in which either none or all of the writes of the transaction have happened. If
  \<^verbatim>\<open>commit\<close> had returned, all of them have.
\<close>

theorem commit_crash_safe:
  assumes r: "log_ready s" and sb: "sb_logstart (get_superblock (dk s 1)) = lg_start s"
    and one: "1 \<notin> log_region (lg_start s)" "1 \<notin> lg_block s ` {..<nat (lg_n s)}"
  shows "\<exists>t. commit s = Ret () t \<and> log_ready t \<and> lg_n t = 0 \<and>
    fs_view (lg_start s) (dk t) = fs_view (lg_start s) (new_disk s) \<and>
    (\<forall>x \<in> disks_between s t. \<forall>m :: 'y log_scheme. booted m x \<and> dk_size m = dk_size s \<longrightarrow>
       (\<exists>u. initlog 1 m = Ret () u \<and> log_ready u \<and>
          (fs_view (lg_start s) (dk u) = fs_view (lg_start s) (new_disk s) \<or>
           x \<noteq> dk t \<and> fs_view (lg_start s) (dk u) = fs_view (lg_start s) (dk s))))"
proof -
  have "\<exists>t. commit s = Ret () t"
    using commit_spec [OF r] commit_none [of s] by (cases "lg_n s > 0") auto
  then obtain t where t: "commit s = Ret () t" ..
  note d = disks_between_commit [OF r t]
  have "dk t \<in> disks_between s t"
    using commit_spec [OF r] commit_none [of s] t by (cases "lg_n s > 0") (auto simp: disks_between_def)
  note dt = d [OF this]
  have g: "log_geom s" using r by (simp add: log_ready_def)
  have "unat (lg_block s i) \<noteq> 1" if "i < nat (lg_n s)" for i
    using one(2) that by (metis imageI lessThan_iff of_nat_1 of_nat_unat32)
  then have nb: "\<forall>i < nat (lg_n s). 1 \<noteq> unat (lg_block s i)" by metis
  then have n1: "new_disk s 1 = dk s 1" unfolding new_disk_def by auto
  have t1: "dk t 1 = new_disk s 1" using dt one(1) by (simp add: fs_view_eq)
  have te: "get32 (dk t (unat (lg_start s))) 0 = 0" using dt by (auto simp: log_ready_def)
  have "\<exists>u. initlog 1 m = Ret () u \<and> log_ready u \<and>
          (fs_view (lg_start s) (dk u) = fs_view (lg_start s) (new_disk s) \<or>
           x \<noteq> dk t \<and> fs_view (lg_start s) (dk u) = fs_view (lg_start s) (dk s))"
    if x: "x \<in> disks_between s t" and m: "booted m x" "dk_size m = dk_size s" for x and m :: "'y log_scheme"
  proof -
    have x1: "x 1 = dk s 1"
      using d [OF x] one(1) n1 t1 nb by (auto simp: untouched_def logged_def)
    have hr: "head_ok (lg_start s) (dk_size s) x \<and>
      (fs_view (lg_start s) (recovered (lg_start s) x) = fs_view (lg_start s) (new_disk s) \<or>
       x \<noteq> dk t \<and> fs_view (lg_start s) (recovered (lg_start s) x) = fs_view (lg_start s) (dk s))"
      using d [OF x]
    proof (elim conjE disjE)
      show ?thesis if "untouched s x" "x \<noteq> dk t" using untouched_recovers [OF r that(1)] that by simp
      show ?thesis if "logged s (new_disk s) x" using logged_head_ok [OF g that] recovered_logged [OF g that] by simp
      show ?thesis if "x = dk t" using that dt te head_ok_empty [of x] recovered_empty [of x] by simp
    qed
    have "unat (lg_start s) + 29 < unat (dk_size m)" using g m by (simp add: log_geom_def)
    then obtain u where "initlog 1 m = Ret () u" "recovers (lg_start s) x m u"
      using initlog_spec [OF m(1)] x1 sb hr m(2) by auto
    then show ?thesis using hr by (auto simp: recovers_def)
  qed
  then show ?thesis using t dt by blast
qed

lemma boot_sched_k_held: "k_held boot_sched = {}"
  by (simp add: boot_sched_defs Let_def upd_st_def upd_lv_def)

text \<open>A machine with one logged block, 100, waiting for a commit.\<close>

definition one_write_log :: log where
  "one_write_log = bio.extend
     (sleepst.extend (boot_sleep\<lparr>pt_cur := Some 0\<rparr>)
       (bio.fields (\<lambda>b. \<lparr>b_valid = b = 0, b_dirty = b = 0, b_dev = (if b = 0 then 1 else 0), b_blockno = 100, b_refcnt = 0,
                     b_data = (\<lambda>_. 7)\<rparr>)
          [0..<NBUF] ((\<lambda>_ _. 0)(1 := put32 (\<lambda>_. 0) 16 2)) 1000 []))
     (log.fields 2 30 0 False 1 1 (\<lambda>_. 100))"

lemma one_write_log_simps [simp]:
  "k_held one_write_log = {}" "pt_cur one_write_log = Some 0" "bc_list one_write_log = [0..<NBUF]"
  "dk one_write_log = (\<lambda>_ _. 0)(1 := put32 (\<lambda>_. 0) 16 2)" "dk_size one_write_log = 1000" "dk_hist one_write_log = []"
  "lg_start one_write_log = 2" "lg_size one_write_log = 30" "\<not> lg_committing one_write_log" "lg_outstanding one_write_log = 0"
  "lg_dev one_write_log = 1" "lg_n one_write_log = 1" "lg_block one_write_log = (\<lambda>_. 100)"
  "sl_locked one_write_log = (\<lambda>_. False)"
  "bc_bufs one_write_log = (\<lambda>b. \<lparr>b_valid = b = 0, b_dirty = b = 0, b_dev = (if b = 0 then 1 else 0), b_blockno = 100,
     b_refcnt = 0, b_data = (\<lambda>_. 7)\<rparr>)"
  by (simp_all add: one_write_log_def boot_sleep_def bio.defs sleepst.defs log.defs schedst.defs boot_sched_k_held)

lemma one_write_log_ready: "log_ready one_write_log"
proof -
  have "bc_inv {} one_write_log" by (auto simp: bc_inv_def)
  moreover have "dirty_blocks one_write_log = {100}" by (auto simp: dirty_blocks_def dirty_bufs_def)
  moreover have "log_geom one_write_log" by (simp add: log_geom_def log_region_def inj_on_def)
  ultimately show ?thesis by (simp add: log_ready_def get32_def join32_def lessThan_Suc)
qed

theorem commit_crash_safe_witness:
  "\<exists>t. commit one_write_log = Ret () t \<and> log_ready t \<and> fs_view 2 (dk t) = fs_view 2 (new_disk one_write_log) \<and>
     new_disk one_write_log 100 = (\<lambda>_. 7)"
proof -
  have "get_superblock (dk one_write_log 1) = get_superblock (put32 (\<lambda>_. 0) 16 2)" by simp
  then have "sb_logstart (get_superblock (dk one_write_log 1)) = lg_start one_write_log"
    by (simp add: get_superblock_def)
  moreover have "cached one_write_log 100 = Some 0" by (simp add: cached_def upt_conv_Cons)
  then have "new_disk one_write_log 100 = (\<lambda>_. 7)" by (simp add: new_disk_def blk_def)
  ultimately show ?thesis
    using commit_crash_safe [of one_write_log, where 'y = unit, OF one_write_log_ready]
    by (auto simp: log_region_def lessThan_Suc)
qed

text \<open>
  C19. Recovery: booting from a disk whose log header is well formed returns with an empty log and with the
  blocks of the header's transaction at their home locations; and if the machine stops during
  recovery, recovery of any of the disks it went through gives the same file system.
\<close>

theorem initlog_recovers:
  assumes "booted m x" and "sb_logstart (get_superblock (x 1)) = st" and "unat st + 29 < unat (dk_size m)"
    and "head_ok st (dk_size m) x"
  shows "\<exists>u. initlog 1 m = Ret () u \<and> log_ready u \<and> lg_n u = 0 \<and>
    fs_view st (dk u) = fs_view st (recovered st x) \<and>
    (\<exists>h. dk_hist u = h @ dk_hist m \<and> (\<forall>y \<in> set h. fs_view st (recovered st y) = fs_view st (recovered st x)))"
  using initlog_spec [OF assms] by (auto simp: recovers_def went_def)

definition crashed_disk :: disk where
  "crashed_disk = (\<lambda>b. if b = 1 then put32 (\<lambda>_. 0) 16 2 else if b = 2 then put32 (put32 (\<lambda>_. 0) 0 1) 4 100
     else if b = 3 then (\<lambda>_. 7) else (\<lambda>_. 0))"

theorem initlog_recovers_witness:
  "\<exists>u. initlog 1 (one_write_log\<lparr>bc_bufs := (\<lambda>b. \<lparr>b_valid = False, b_dirty = False, b_dev = 0, b_blockno = 0, b_refcnt = 0,
         b_data = (\<lambda>_. 0)\<rparr>), dk := crashed_disk\<rparr>) = Ret () u \<and>
     fs_view 2 (dk u) = fs_view 2 (recovered 2 crashed_disk)"
proof -
  define m where "m = one_write_log\<lparr>bc_bufs := (\<lambda>b. \<lparr>b_valid = False, b_dirty = False, b_dev = 0, b_blockno = 0, b_refcnt = 0,
         b_data = (\<lambda>_. 0)\<rparr>), dk := crashed_disk\<rparr>"
  have "booted m crashed_disk"
    by (auto simp: booted_def m_def bc_inv_def dirty_blocks_def dirty_bufs_def)
  moreover have "sb_logstart (get_superblock (crashed_disk 1)) = 2" by (simp add: crashed_disk_def get_superblock_def)
  moreover have "get32 (crashed_disk 2) 0 = 1" "get32 (crashed_disk 2) 4 = 100"
    by (simp_all add: crashed_disk_def get_put_other)
  then have "head_ok 2 (dk_size m) crashed_disk"
    by (simp add: head_ok_def m_def log_region_def inj_on_def)
  ultimately show ?thesis
    using initlog_recovers [of m crashed_disk 2] by (auto simp: m_def)
qed

section \<open>Inside a transaction\<close>

text \<open>
  The state of the log while system calls are writing, with the buffers \<open>H\<close> held: as between
  transactions, with room for \<^verbatim>\<open>MAXOPBLOCKS\<close> blocks for every system call that has begun.
\<close>

definition log_inv :: "nat set \<Rightarrow> 'z log_scheme \<Rightarrow> bool" where
  "log_inv H s \<longleftrightarrow> bc_inv H s \<and> log_geom s \<and> dirty_blocks s = lg_block s ` {..<nat (lg_n s)} \<and>
     get32 (dk s (unat (lg_start s))) 0 = 0 \<and> lg_size s = LOGSIZE"

lemma log_index_cases:
  "log_index s n < nat (lg_n s) \<and> lg_block s (log_index s n) = n \<or>
   log_index s n = nat (lg_n s) \<and> (\<forall>j < nat (lg_n s). lg_block s j \<noteq> n)"
proof (cases "List.find (\<lambda>i. lg_block s i = n) [0..<nat (lg_n s)]")
  case None
  then have "log_index s n = nat (lg_n s)" by (simp add: log_index_def)
  then show ?thesis using None by (simp add: find_upt_None)
next
  case (Some i)
  then have "log_index s n = i" by (simp add: log_index_def)
  then show ?thesis using Some by (simp add: find_upt_Some)
qed

lemma log_index_held [simp]: "log_index (s\<lparr>k_held := h\<rparr>) n = log_index s n"
  by (simp add: log_index_def split: option.split)

lemma log_write_spec:
  assumes inv: "log_inv H s" and b: "b \<in> H" and o: "lg_outstanding s \<ge> 1" and room: "lg_n s < lg_size s - 1"
    and n: "b_blockno (bc_bufs s b) = n" "n < dk_size s" "unat n \<notin> log_region (lg_start s)"
  shows "\<exists>s'. log_write b s = Ret () s' \<and> log_inv H s' \<and> blk s' = blk s \<and> dk s' = dk s \<and> dk_hist s' = dk_hist s \<and>
    dirty_blocks s' = insert n (dirty_blocks s) \<and>
    lg_n s' = (if n \<in> dirty_blocks s then lg_n s else lg_n s + 1) \<and> b_dirty (bc_bufs s' b) \<and>
    (\<forall>a. a \<noteq> b \<longrightarrow> bc_bufs s' a = bc_bufs s a) \<and> b_data (bc_bufs s' b) = b_data (bc_bufs s b) \<and> b_blockno (bc_bufs s' b) = n"
proof -
  have c: "bc_inv H s" "log_geom s" "dirty_blocks s = lg_block s ` {..<nat (lg_n s)}"
    "get32 (dk s (unat (lg_start s))) 0 = 0" "lg_size s = 30" using inv by (auto simp: log_inv_def)
  have n0: "0 \<le> lg_n s" "lg_n s < 29" using c(2) room c(5) by (auto simp: log_geom_def)
  define i where "i = log_index s n"
  have i: "i < nat (lg_n s) \<and> lg_block s i = n \<or> i = nat (lg_n s) \<and> (\<forall>j < nat (lg_n s). lg_block s j \<noteq> n)"
    unfolding i_def by (rule log_index_cases)
  define s1 where "s1 = s\<lparr>lg_block := (lg_block s)(i := n), lg_n := (if int i = lg_n s then lg_n s + 1 else lg_n s)\<rparr>"
  define s' where "s' = upd_buf b (\<lambda>B. B\<lparr>b_dirty := True\<rparr>) s1"
  have kh: "k_held s = {}" by (rule bc_invD(1) [OF c(1)])
  have r: "log_write b s = Ret () s'"
    using room o n(1) kh c(5)
    by (simp add: log_write_def kop_simps Let_def i_def [symmetric] s'_def s1_def k_held_id)
  have s1: "bc_inv H s1" "blk s1 = blk s" "bc_bufs s1 = bc_bufs s" "dk s1 = dk s" "dk_hist s1 = dk_hist s"
    using c(1) by (simp_all add: s1_def)
  have s': "bc_inv H s'" "blk s' = blk s"
    using upd_buf_inv [OF s1(1) b, of "\<lambda>B. B\<lparr>b_dirty := True\<rparr>"] blk_buf [OF c(1), of b] bc_invD(9) [OF c(1) b] s1
    by (simp_all add: s'_def fun_upd_idem_iff)
  have "dirty_bufs s' = insert b (dirty_bufs s)"
    using bc_invD(9) [OF c(1) b] by (auto simp: dirty_bufs_def s'_def s1)
  then have db: "dirty_blocks s' = insert n (dirty_blocks s)"
    unfolding dirty_blocks_def using n(1) by (auto simp: s'_def s1 image_iff)
  have mem: "n \<in> dirty_blocks s \<longleftrightarrow> i < nat (lg_n s)" using i by (auto simp: c(3))
  have lgs: "lg_n s' = (if n \<in> dirty_blocks s then lg_n s else lg_n s + 1)" "lg_block s' = (lg_block s)(i := n)"
    "lg_start s' = lg_start s" "lg_dev s' = lg_dev s" "dk_size s' = dk_size s" "lg_size s' = lg_size s"
    using i n0 mem by (auto simp: s'_def s1_def upd_buf_def)
  have geom: "log_geom s'"
  proof (cases "n \<in> dirty_blocks s")
    case True
    then have "lg_block s' = lg_block s" using i mem lgs(2) by auto
    then show ?thesis using c(2) True by (simp add: log_geom_def lgs)
  next
    case False
    then have k: "i = nat (lg_n s)" "nat (lg_n s') = Suc i" "\<forall>j < i. lg_block s j \<noteq> n"
      using i mem n0 lgs(1) by auto
    have "inj_on (lg_block s') {..<nat (lg_n s')}"
      using c(2) k unfolding lgs(2) k(2) by (auto simp: log_geom_def inj_on_def less_Suc_eq)
    then show ?thesis using c(2) False k n n0 unfolding log_geom_def lgs(2-5) k(2) by (auto simp: lgs(1) less_Suc_eq)
  qed
  have "lg_block s' ` {..<nat (lg_n s')} = insert n (lg_block s ` {..<nat (lg_n s)})"
  proof (cases "n \<in> dirty_blocks s")
    case True
    then have "lg_block s' = lg_block s" using i mem lgs(2) by auto
    then show ?thesis using True by (simp add: lgs c(3) insert_absorb)
  next
    case False
    then have "i = nat (lg_n s)" "nat (lg_n s') = Suc i" using i mem n0 lgs(1) by auto
    then show ?thesis unfolding lgs(2) by (auto simp: lessThan_Suc)
  qed
  then have "log_inv H s'"
    using s' geom c db lgs by (simp add: log_inv_def) (simp add: s'_def s1)
  then show ?thesis using r s' db lgs(1) n(1) s1 by (auto simp: s'_def)
qed

text \<open>
  C29. \<^verbatim>\<open>log_write\<close> in a transaction: the block joins the transaction, once (a block that is already in it
  takes no more room), it is pinned in the cache, no block of the file system as the kernel sees it
  and no block of the disk changes, and the log stays well formed.
\<close>

theorem log_write_absorbs:
  assumes "log_inv H s" and "b \<in> H" and "lg_outstanding s \<ge> 1" and "lg_n s < lg_size s - 1"
    and "b_blockno (bc_bufs s b) < dk_size s" and "unat (b_blockno (bc_bufs s b)) \<notin> log_region (lg_start s)"
  shows "\<exists>s'. log_write b s = Ret () s' \<and> log_inv H s' \<and> blk s' = blk s \<and> dk s' = dk s \<and>
    lg_block s' ` {..<nat (lg_n s')} = insert (b_blockno (bc_bufs s b)) (lg_block s ` {..<nat (lg_n s)}) \<and>
    lg_n s' = (if b_blockno (bc_bufs s b) \<in> lg_block s ` {..<nat (lg_n s)} then lg_n s else lg_n s + 1) \<and>
    b_dirty (bc_bufs s' b)"
proof -
  have "dirty_blocks t = lg_block t ` {..<nat (lg_n t)}" if "log_inv H t" for t :: "'a log_scheme"
    using that by (simp add: log_inv_def)
  then show ?thesis using log_write_spec [OF assms(1-4) refl assms(5,6)] assms(1) by metis
qed

theorem log_write_absorbs_witness:
  "\<exists>s'. log_write 0 (one_write_log\<lparr>lg_outstanding := 1, sl_locked := (\<lambda>l. l = BufSleep 0),
      bc_bufs := (bc_bufs one_write_log)(0 := (bc_bufs one_write_log 0)\<lparr>b_refcnt := 1\<rparr>)\<rparr>) = Ret () s' \<and>
    lg_n s' = 1 \<and> b_dirty (bc_bufs s' 0)"
proof -
  define s where "s = one_write_log\<lparr>lg_outstanding := 1, sl_locked := (\<lambda>l. l = BufSleep 0),
      bc_bufs := (bc_bufs one_write_log)(0 := (bc_bufs one_write_log 0)\<lparr>b_refcnt := 1\<rparr>)\<rparr>"
  have "bc_inv {0} s" by (auto simp: s_def bc_inv_def)
  moreover have "dirty_blocks s = {100}" by (auto simp: s_def dirty_blocks_def dirty_bufs_def)
  moreover have "log_geom s" by (simp add: s_def log_geom_def log_region_def inj_on_def)
  ultimately have "log_inv {0} s" by (simp add: log_inv_def s_def lessThan_Suc get32_def join32_def)
  then show ?thesis
    using log_write_absorbs [of "{0}" s 0] by (auto simp: s_def log_region_def lessThan_Suc)
qed

text \<open>The reservation and the limit of \<^verbatim>\<open>log_write\<close> disagree by one: three calls of ten blocks each are let in, but
  the thirtieth block does not fit a log of \<^verbatim>\<open>LOGSIZE\<close> blocks.\<close>

lemma third_op_may_panic:
  assumes "k_held s = {}" "pt_cur s = Some p" "\<not> lg_committing s" "lg_n s = 0" "lg_outstanding s = 2" "lg_size s = LOGSIZE"
  shows "\<exists>s'. begin_op s = Ret () s' \<and> log_write b (s'\<lparr>lg_n := 29\<rparr>) = Panic ''too big a transaction''"
  using assms by (cases s) (auto simp: begin_op_def begin_op_loop_def kop_simps log_write_def)

end
