(* ===== verification/Fs.thy ===== *)
theory Fs
  imports Log
begin

text \<open>
  The file system proper (\<^verbatim>\<open>fs.c\<close>): block allocation, the inode cache, the mapping of file blocks through
  direct and single, double and triple indirect blocks, reading and writing of inodes, directories
  and path names. A \<^verbatim>\<open>struct inode *\<close> is an index into \<^verbatim>\<open>icache.inode\<close>; a null pointer is \<^term>\<open>None\<close>. \<^verbatim>\<open>readi\<close> returns the
  bytes it read, which its callers store; \<^verbatim>\<open>writei\<close> takes the bytes to write. Strings are lists of bytes
  without the terminating NUL.
\<close>

section \<open>State\<close>

record inode =
  i_dev :: uint
  i_inum :: uint
  i_ref :: int
  i_valid :: bool
  i_type :: ushort
  i_major :: ushort
  i_minor :: ushort
  i_nlink :: ushort
  i_size :: uint
  i_addrs :: "uint list"

record fs = log +
  fs_sb :: superblock
  ic :: "nat \<Rightarrow> inode"

definition upd_ino :: "nat \<Rightarrow> (inode \<Rightarrow> inode) \<Rightarrow> 'z fs_scheme \<Rightarrow> 'z fs_scheme" where
  "upd_ino i f s = s\<lparr>ic := (ic s)(i := f (ic s i))\<rparr>"

definition buf_data :: "'z bio_scheme \<Rightarrow> nat \<Rightarrow> stream" where
  "buf_data s b = b_data (bc_bufs s b)"

text \<open>A change of a buffer that goes through the log: the pattern modify, \<^verbatim>\<open>log_write\<close>, \<^verbatim>\<open>brelse\<close>.\<close>

definition log_change :: "nat \<Rightarrow> (stream \<Rightarrow> stream) \<Rightarrow> ('z log_scheme, unit) kop" where
  "log_change bp f =
     seqK (modifyK (\<lambda>s. set_data bp (f (buf_data s bp)) s))
    (seqK (log_write bp)
          (brelse bp))"

section \<open>Blocks\<close>

definition bzero :: "uint \<Rightarrow> uint \<Rightarrow> ('z log_scheme, unit) kop" where
  "bzero dev bno = bindK (bread dev bno) (\<lambda>bp. log_change bp (\<lambda>_ _. 0))"

definition block_bit :: "stream \<Rightarrow> nat \<Rightarrow> bool" where
  "block_bit d bi \<longleftrightarrow> d (bi div 8) AND push_bit (bi mod 8) 1 \<noteq> 0"

definition set_block_bit :: "nat \<Rightarrow> stream \<Rightarrow> stream" where
  "set_block_bit bi d = d(bi div 8 := d (bi div 8) OR push_bit (bi mod 8) 1)"

definition clear_block_bit :: "nat \<Rightarrow> stream \<Rightarrow> stream" where
  "clear_block_bit bi d = d(bi div 8 := d (bi div 8) AND NOT (push_bit (bi mod 8) 1))"

text \<open>One turn of the outer loop of \<^verbatim>\<open>balloc\<close>: the bitmap block of blocks \<open>g * BPB\<close> on.\<close>

definition balloc_group :: "uint \<Rightarrow> nat \<Rightarrow> ('z fs_scheme, uint option) kop" where
  "balloc_group dev g =
     bindK (\<lambda>s. bread dev (BBLOCK (of_nat (g * BPB)) (fs_sb s)) s) (\<lambda>bp s.
     case List.find (\<lambda>bi. \<not> block_bit (buf_data s bp) bi) [0..<min BPB (unat (sb_size (fs_sb s)) - g * BPB)] of
       Some bi \<Rightarrow>
         seqK (log_change bp (set_block_bit bi))
        (seqK (bzero dev (of_nat (g * BPB + bi)))
              (retK (Some (of_nat (g * BPB + bi))))) s
     | None \<Rightarrow> seqK (brelse bp) (retK None) s)"

definition balloc :: "uint \<Rightarrow> ('z fs_scheme, uint) kop" where
  "balloc dev = (\<lambda>s.
     bindK (searchK [0..<(unat (sb_size (fs_sb s)) + BPB - 1) div BPB] (balloc_group dev)) (\<lambda>r.
     case r of Some b \<Rightarrow> retK b | None \<Rightarrow> panic ''balloc: out of blocks'') s)"

definition bfree :: "uint \<Rightarrow> uint \<Rightarrow> ('z fs_scheme, unit) kop" where
  "bfree dev b =
     bindK (readsb dev) (\<lambda>sb.
     seqK (modifyK (\<lambda>s. s\<lparr>fs_sb := sb\<rparr>))
    (bindK (\<lambda>s. bread dev (BBLOCK b (fs_sb s)) s) (\<lambda>bp s.
     let bi = unat b mod BPB in
     if \<not> block_bit (buf_data s bp) bi then Panic ''freeing free block''
     else log_change bp (clear_block_bit bi) s)))"

section \<open>Inodes\<close>

definition iinit :: "uint \<Rightarrow> ('z fs_scheme, unit) kop" where
  "iinit dev =
     seqK (forK [0..<NINODE] (\<lambda>i. modifyK (initsleeplock (InodeSleep i))))
    (bindK (readsb dev) (\<lambda>sb. modifyK (\<lambda>s. s\<lparr>fs_sb := sb\<rparr>)))"

definition iget :: "uint \<Rightarrow> uint \<Rightarrow> ('z fs_scheme, nat) kop" where
  "iget dev inum =
     seqK (acquire IcacheLock) (\<lambda>s.
     case List.find (\<lambda>i. i_ref (ic s i) > 0 \<and> i_dev (ic s i) = dev \<and> i_inum (ic s i) = inum) [0..<NINODE] of
       Some i \<Rightarrow>
         seqK (modifyK (upd_ino i (\<lambda>ip. ip\<lparr>i_ref := i_ref ip + 1\<rparr>)))
        (seqK (release IcacheLock) (retK i)) s
     | None \<Rightarrow>
        (case List.find (\<lambda>i. i_ref (ic s i) = 0) [0..<NINODE] of
           None \<Rightarrow> Panic ''iget: no inodes''
         | Some i \<Rightarrow>
             seqK (modifyK (upd_ino i (\<lambda>ip. ip\<lparr>i_dev := dev, i_inum := inum, i_ref := 1, i_valid := False\<rparr>)))
            (seqK (release IcacheLock) (retK i)) s))"

definition idup :: "nat \<Rightarrow> ('z fs_scheme, nat) kop" where
  "idup ip =
     seqK (acquire IcacheLock)
    (seqK (modifyK (upd_ino ip (\<lambda>i. i\<lparr>i_ref := i_ref i + 1\<rparr>)))
    (seqK (release IcacheLock) (retK ip)))"

definition ialloc_try :: "uint \<Rightarrow> ushort \<Rightarrow> nat \<Rightarrow> ('z fs_scheme, nat option) kop" where
  "ialloc_try dev type inum =
     bindK (\<lambda>s. bread dev (IBLOCK (of_nat inum) (fs_sb s)) s) (\<lambda>bp s.
     let k = inum mod IPB in
     if get16 (buf_data s bp) (64 * k) = 0
     then seqK (log_change bp (\<lambda>d. put16 (put_bytes d (64 * k) (\<lambda>_. 0) 64) (64 * k) type))
         (bindK (iget dev (of_nat inum)) (\<lambda>ip. retK (Some ip))) s
     else seqK (brelse bp) (retK None) s)"

definition ialloc :: "uint \<Rightarrow> ushort \<Rightarrow> ('z fs_scheme, nat) kop" where
  "ialloc dev type = (\<lambda>s.
     bindK (searchK [1..<unat (sb_ninodes (fs_sb s))] (ialloc_try dev type)) (\<lambda>r.
     case r of Some ip \<Rightarrow> retK ip | None \<Rightarrow> panic ''ialloc: no inodes'') s)"

definition dinode_of :: "inode \<Rightarrow> dinode" where
  "dinode_of ip = \<lparr>d_type = i_type ip, d_major = i_major ip, d_minor = i_minor ip, d_nlink = i_nlink ip,
     d_size = i_size ip, d_addrs = i_addrs ip\<rparr>"

definition iupdate :: "nat \<Rightarrow> ('z fs_scheme, unit) kop" where
  "iupdate ip =
     bindK (\<lambda>s. bread (i_dev (ic s ip)) (IBLOCK (i_inum (ic s ip)) (fs_sb s)) s) (\<lambda>bp s.
       log_change bp (\<lambda>d. put_dinode d (unat (i_inum (ic s ip)) mod IPB) (dinode_of (ic s ip))) s)"

text \<open>\<^verbatim>\<open>ilock\<close> after the sleep lock is taken: the inode is read unless it is in the cache already.\<close>

definition load_dinode :: "dinode \<Rightarrow> inode \<Rightarrow> inode" where
  "load_dinode d ip = ip\<lparr>i_type := d_type d, i_major := d_major d, i_minor := d_minor d, i_nlink := d_nlink d,
     i_size := d_size d, i_addrs := d_addrs d\<rparr>"

definition ilock_read :: "nat \<Rightarrow> ('z fs_scheme, unit) kop" where
  "ilock_read ip = (\<lambda>s.
     whenK (\<not> i_valid (ic s ip))
      (bindK (bread (i_dev (ic s ip)) (IBLOCK (i_inum (ic s ip)) (fs_sb s))) (\<lambda>bp.
       seqK (modifyK (\<lambda>s. upd_ino ip (load_dinode (get_dinode (buf_data s bp) (unat (i_inum (ic s ip)) mod IPB))) s))
      (seqK (brelse bp)
      (seqK (modifyK (upd_ino ip (\<lambda>i. i\<lparr>i_valid := True\<rparr>)))
            (\<lambda>s. if i_type (ic s ip) = 0 then Panic ''ilock: no type'' else Ret () s))))) s)"

definition ilock :: "nat option \<Rightarrow> ('z fs_scheme, unit) kop" where
  "ilock ip = (case ip of None \<Rightarrow> panic ''ilock'' | Some ip \<Rightarrow> (\<lambda>s.
     if i_ref (ic s ip) < 1 then Panic ''ilock''
     else seqK (acquiresleep (InodeSleep ip)) (ilock_read ip) s))"

definition ilock_wake :: "nat \<Rightarrow> ('z fs_scheme, unit) kop" where
  "ilock_wake ip = seqK (acquiresleep_wake (InodeSleep ip)) (ilock_read ip)"

definition iunlock :: "nat option \<Rightarrow> ('z fs_scheme, unit) kop" where
  "iunlock ip = (case ip of None \<Rightarrow> panic ''iunlock'' | Some ip \<Rightarrow>
     bindK (holdingsleep (InodeSleep ip)) (\<lambda>h s.
     if \<not> h \<or> i_ref (ic s ip) < 1 then Panic ''iunlock''
     else releasesleep (InodeSleep ip) s))"

section \<open>Inode content\<close>

text \<open>The three kinds of step of \<^verbatim>\<open>bmap\<close>: an entry of \<^verbatim>\<open>ip->addrs\<close>, and an entry of an indirect block; both are
  allocated when missing.\<close>

definition bmap_addr :: "nat \<Rightarrow> nat \<Rightarrow> ('z fs_scheme, uint) kop" where
  "bmap_addr ip k = (\<lambda>s.
     let a = i_addrs (ic s ip) ! k in
     if a = 0
     then bindK (balloc (i_dev (ic s ip))) (\<lambda>a.
          seqK (modifyK (upd_ino ip (\<lambda>i. i\<lparr>i_addrs := (i_addrs i)[k := a]\<rparr>))) (retK a)) s
     else Ret a s)"

definition bmap_indirect :: "nat \<Rightarrow> uint \<Rightarrow> nat \<Rightarrow> ('z fs_scheme, uint) kop" where
  "bmap_indirect ip tb k =
     bindK (\<lambda>s. bread (i_dev (ic s ip)) tb s) (\<lambda>bp.
     bindK (\<lambda>s.
       let a = get32 (buf_data s bp) (4 * k) in
       if a = 0
       then bindK (balloc (i_dev (ic s ip))) (\<lambda>a.
            seqK (modifyK (\<lambda>s. set_data bp (put32 (buf_data s bp) (4 * k) a) s))
           (seqK (log_write bp) (retK a))) s
       else Ret a s) (\<lambda>a.
     seqK (brelse bp) (retK a)))"

definition bmap :: "nat \<Rightarrow> nat \<Rightarrow> ('z fs_scheme, uint) kop" where
  "bmap ip bn =
     (if bn < NDIRECT then bmap_addr ip bn
      else let bn = bn - NDIRECT in
      if bn < NINDIRECT
      then bindK (bmap_addr ip NDIRECT) (\<lambda>a. bmap_indirect ip a bn)
      else let bn = bn - NINDIRECT in
      if bn < NINDIRECT * NINDIRECT
      then bindK (bmap_addr ip (NDIRECT + 1)) (\<lambda>a.
           bindK (bmap_indirect ip a (bn div NINDIRECT)) (\<lambda>b.
                  bmap_indirect ip b (bn mod NINDIRECT)))
      else let bn = bn - NINDIRECT * NINDIRECT in
      if bn < NINDIRECT * NINDIRECT * NINDIRECT
      then bindK (bmap_addr ip (NDIRECT + 2)) (\<lambda>a.
           bindK (bmap_indirect ip a (bn div (NINDIRECT * NINDIRECT))) (\<lambda>b.
           let cn = bn - (NINDIRECT * NINDIRECT) * (bn div (NINDIRECT * NINDIRECT)) in
           bindK (bmap_indirect ip b (cn div NINDIRECT)) (\<lambda>c.
                  bmap_indirect ip c (cn mod NINDIRECT))))
      else panic ''bmap: out of range'')"

text \<open>\<^verbatim>\<open>itrunc\<close>: the loop over the entries of an indirect block, and the three nestings of it.\<close>

definition free_table :: "uint \<Rightarrow> (uint \<Rightarrow> ('z fs_scheme, unit) kop) \<Rightarrow> uint \<Rightarrow> ('z fs_scheme, unit) kop" where
  "free_table dev free_entry tb =
     bindK (bread dev tb) (\<lambda>bp.
     seqK (forK [0..<NINDIRECT] (\<lambda>j s.
         let a = get32 (buf_data s bp) (4 * j) in whenK (a \<noteq> 0) (free_entry a) s))
    (seqK (brelse bp)
          (bfree dev tb)))"

definition free_single :: "uint \<Rightarrow> uint \<Rightarrow> ('z fs_scheme, unit) kop" where
  "free_single dev = free_table dev (bfree dev)"

definition free_double :: "uint \<Rightarrow> uint \<Rightarrow> ('z fs_scheme, unit) kop" where
  "free_double dev = free_table dev (free_single dev)"

definition free_triple :: "uint \<Rightarrow> uint \<Rightarrow> ('z fs_scheme, unit) kop" where
  "free_triple dev = free_table dev (free_double dev)"

text \<open>\<^verbatim>\<open>if(ip->addrs[k]) { ...; ip->addrs[k] = 0; }\<close>\<close>

definition trunc_addr :: "nat \<Rightarrow> (uint \<Rightarrow> uint \<Rightarrow> ('z fs_scheme, unit) kop) \<Rightarrow> nat \<Rightarrow> ('z fs_scheme, unit) kop" where
  "trunc_addr ip free k = (\<lambda>s.
     whenK (i_addrs (ic s ip) ! k \<noteq> 0)
      (seqK (free (i_dev (ic s ip)) (i_addrs (ic s ip) ! k))
            (modifyK (upd_ino ip (\<lambda>i. i\<lparr>i_addrs := (i_addrs i)[k := 0]\<rparr>)))) s)"

definition itrunc :: "nat \<Rightarrow> ('z fs_scheme, unit) kop" where
  "itrunc ip =
     seqK (forK [0..<NDIRECT] (trunc_addr ip bfree))
    (seqK (trunc_addr ip free_single NDIRECT)
    (seqK (trunc_addr ip free_double (NDIRECT + 1))
    (seqK (trunc_addr ip free_triple (NDIRECT + 2))
    (seqK (modifyK (upd_ino ip (\<lambda>i. i\<lparr>i_size := 0\<rparr>)))
          (iupdate ip)))))"

text \<open>\<^verbatim>\<open>iput\<close> after the sleep lock is taken.\<close>

definition iput_locked :: "nat \<Rightarrow> ('z fs_scheme, unit) kop" where
  "iput_locked ip =
     seqK (\<lambda>s. whenK (i_valid (ic s ip) \<and> i_nlink (ic s ip) = 0)
        (seqK (acquire IcacheLock)
        (bindK (getK (\<lambda>s. i_ref (ic s ip))) (\<lambda>r.
         seqK (release IcacheLock)
         (whenK (r = 1)
           (seqK (itrunc ip)
           (seqK (modifyK (upd_ino ip (\<lambda>i. i\<lparr>i_type := 0\<rparr>)))
           (seqK (iupdate ip)
                 (modifyK (upd_ino ip (\<lambda>i. i\<lparr>i_valid := False\<rparr>)))))))))) s)
    (seqK (releasesleep (InodeSleep ip))
    (seqK (acquire IcacheLock)
    (seqK (modifyK (upd_ino ip (\<lambda>i. i\<lparr>i_ref := i_ref i - 1\<rparr>)))
          (release IcacheLock))))"

definition iput :: "nat \<Rightarrow> ('z fs_scheme, unit) kop" where
  "iput ip = seqK (acquiresleep (InodeSleep ip)) (iput_locked ip)"

definition iput_wake :: "nat \<Rightarrow> ('z fs_scheme, unit) kop" where
  "iput_wake ip = seqK (acquiresleep_wake (InodeSleep ip)) (iput_locked ip)"

definition iunlockput :: "nat \<Rightarrow> ('z fs_scheme, unit) kop" where
  "iunlockput ip = seqK (iunlock (Some ip)) (iput ip)"

record stat =
  st_type :: ushort
  st_dev :: uint
  st_ino :: uint
  st_nlink :: ushort
  st_size :: uint

definition stati :: "nat \<Rightarrow> 'z fs_scheme \<Rightarrow> stat" where
  "stati ip s = \<lparr>st_type = i_type (ic s ip), st_dev = i_dev (ic s ip), st_ino = i_inum (ic s ip),
     st_nlink = i_nlink (ic s ip), st_size = i_size (ic s ip)\<rparr>"

text \<open>\<^verbatim>\<open>devsw\<close>: the read and write functions of a device, by major number.\<close>

record 's devsw =
  dv_read :: "(nat \<Rightarrow> nat \<Rightarrow> ('s, int \<times> uchar list) kop) option"
  dv_write :: "(nat \<Rightarrow> stream \<Rightarrow> nat \<Rightarrow> ('s, int) kop) option"

text \<open>The loop of \<^verbatim>\<open>readi\<close> with \<open>n\<close> bytes to go, and the bytes read so far.\<close>

function readi_loop :: "nat \<Rightarrow> nat \<Rightarrow> nat \<Rightarrow> uchar list \<Rightarrow> ('z fs_scheme, uchar list) kop" where
  "readi_loop ip off n acc =
     (if n = 0 then retK acc
      else bindK (bmap ip (off div BSIZE)) (\<lambda>a.
           bindK (\<lambda>s. bread (i_dev (ic s ip)) a s) (\<lambda>bp s.
           let m = min n (BSIZE - off mod BSIZE);
               bytes = map (\<lambda>i. buf_data s bp (off mod BSIZE + i)) [0..<m] in
           seqK (brelse bp) (readi_loop ip (off + m) (n - m) (acc @ bytes)) s)))"
  by pat_completeness auto
termination
  by (relation "measure (\<lambda>(ip, off, n, acc). n)") (auto simp: Let_def)

definition readi :: "(int \<Rightarrow> 'z fs_scheme devsw) \<Rightarrow> nat \<Rightarrow> uint \<Rightarrow> uint \<Rightarrow> ('z fs_scheme, int \<times> uchar list) kop" where
  "readi devsw ip off n = (\<lambda>s.
     if i_type (ic s ip) = T_DEV
     then (let major = sint (i_major (ic s ip)) in
           if major < 0 \<or> major \<ge> NDEV then Ret (- 1, []) s
           else case dv_read (devsw major) of None \<Rightarrow> Ret (- 1, []) s | Some f \<Rightarrow> f ip (unat n) s)
     else if off > i_size (ic s ip) \<or> off + n < off then Ret (- 1, []) s
     else (let n = (if off + n > i_size (ic s ip) then i_size (ic s ip) - off else n) in
           bindK (readi_loop ip (unat off) (unat n) []) (\<lambda>bytes. retK (sint n, bytes)) s))"

function writei_loop :: "nat \<Rightarrow> stream \<Rightarrow> nat \<Rightarrow> nat \<Rightarrow> ('z fs_scheme, unit) kop" where
  "writei_loop ip src off n =
     (if n = 0 then retK ()
      else bindK (bmap ip (off div BSIZE)) (\<lambda>a.
           bindK (\<lambda>s. bread (i_dev (ic s ip)) a s) (\<lambda>bp.
           let m = min n (BSIZE - off mod BSIZE) in
           seqK (log_change bp (\<lambda>d. put_bytes d (off mod BSIZE) src m))
                (writei_loop ip (\<lambda>i. src (m + i)) (off + m) (n - m)))))"
  by pat_completeness auto
termination
  by (relation "measure (\<lambda>(ip, src, off, n). n)") (auto simp: Let_def)

definition writei :: "(int \<Rightarrow> 'z fs_scheme devsw) \<Rightarrow> nat \<Rightarrow> stream \<Rightarrow> uint \<Rightarrow> uint \<Rightarrow> ('z fs_scheme, int) kop" where
  "writei devsw ip src off n = (\<lambda>s.
     if i_type (ic s ip) = T_DEV
     then (let major = sint (i_major (ic s ip)) in
           if major < 0 \<or> major \<ge> NDEV then Ret (- 1) s
           else case dv_write (devsw major) of None \<Rightarrow> Ret (- 1) s | Some f \<Rightarrow> f ip src (unat n) s)
     else if off > i_size (ic s ip) \<or> off + n < off then Ret (- 1) s
     else if off + n > of_nat (MAXFILE * BSIZE) then Ret (- 1) s
     else seqK (writei_loop ip src (unat off) (unat n))
         (seqK (\<lambda>s. whenK (n > 0 \<and> off + n > i_size (ic s ip))
                  (seqK (modifyK (upd_ino ip (\<lambda>i. i\<lparr>i_size := off + n\<rparr>))) (iupdate ip)) s)
               (retK (sint n))) s)"

section \<open>Directories\<close>

definition namecmp :: "stream \<Rightarrow> stream \<Rightarrow> int" where
  "namecmp s t = strncmp s t DIRSIZ"

text \<open>The entry at \<open>off\<close>; both loops over a directory panic when it cannot be read in full.\<close>

definition read_dirent :: "(int \<Rightarrow> 'z fs_scheme devsw) \<Rightarrow> string \<Rightarrow> nat \<Rightarrow> uint \<Rightarrow> ('z fs_scheme, dirent) kop" where
  "read_dirent devsw msg dp off =
     bindK (readi devsw dp off 16) (\<lambda>(r, bytes).
     if r \<noteq> 16 then panic msg else retK (get_dirent (\<lambda>i. bytes ! i)))"

definition dirlookup :: "(int \<Rightarrow> 'z fs_scheme devsw) \<Rightarrow> nat \<Rightarrow> stream \<Rightarrow> ('z fs_scheme, (nat \<times> uint) option) kop" where
  "dirlookup devsw dp name = (\<lambda>s.
     if i_type (ic s dp) \<noteq> T_DIR then Panic ''dirlookup not DIR''
     else searchK [0..<(unat (i_size (ic s dp)) + 15) div 16] (\<lambda>k.
       bindK (read_dirent devsw ''dirlookup read'' dp (of_nat (16 * k))) (\<lambda>de s.
       if de_inum de = 0 then Ret None s
       else if namecmp name (\<lambda>i. de_name de ! i) = 0
       then bindK (iget (i_dev (ic s dp)) (ucast (de_inum de))) (\<lambda>ip. retK (Some (ip, of_nat (16 * k)))) s
       else Ret None s)) s)"

text \<open>\<^verbatim>\<open>strncpy(de.name, name, DIRSIZ)\<close> into an array of \<^verbatim>\<open>DIRSIZ\<close> bytes.\<close>

definition name_bytes :: "stream \<Rightarrow> uchar list" where
  "name_bytes name = (let p = takeWhile (\<lambda>c. c \<noteq> 0) (map name [0..<DIRSIZ]) in p @ replicate (DIRSIZ - length p) 0)"

definition dirlink :: "(int \<Rightarrow> 'z fs_scheme devsw) \<Rightarrow> nat \<Rightarrow> stream \<Rightarrow> uint \<Rightarrow> ('z fs_scheme, int) kop" where
  "dirlink devsw dp name inum =
     bindK (dirlookup devsw dp name) (\<lambda>r.
     case r of
       Some (ip, _) \<Rightarrow> seqK (iput ip) (retK (- 1))
     | None \<Rightarrow> (\<lambda>s.
         let n = (unat (i_size (ic s dp)) + 15) div 16 in
         bindK (searchK [0..<n] (\<lambda>k.
           bindK (read_dirent devsw ''dirlink read'' dp (of_nat (16 * k))) (\<lambda>de.
           retK (if de_inum de = 0 then Some (of_nat (16 * k)) else None)))) (\<lambda>free.
         let off = (case free of Some off \<Rightarrow> off | None \<Rightarrow> of_nat (16 * n));
             de = \<lparr>de_inum = ucast inum, de_name = name_bytes name\<rparr> in
         bindK (writei devsw dp (put_dirent de) off 16) (\<lambda>w.
         if w \<noteq> 16 then panic ''dirlink'' else retK 0)) s))"

section \<open>Paths\<close>

abbreviation (input) SLASH :: uchar where "SLASH \<equiv> 47"

definition skipelem :: "uchar list \<Rightarrow> stream \<Rightarrow> (uchar list \<times> stream) option" where
  "skipelem path name =
     (let path = dropWhile (\<lambda>c. c = SLASH) path in
      if path = [] then None
      else let elem = takeWhile (\<lambda>c. c \<noteq> SLASH) path;
               path = dropWhile (\<lambda>c. c \<noteq> SLASH) path;
               len = length elem;
               name = (if len \<ge> DIRSIZ then put_bytes name 0 (\<lambda>i. elem ! i) DIRSIZ
                       else (put_bytes name 0 (\<lambda>i. elem ! i) len)(len := 0))
           in Some (dropWhile (\<lambda>c. c = SLASH) path, name))"

lemma skipelem_shorter:
  assumes "skipelem path name = Some (path', name')"
  shows "length path' < length path"
proof -
  define p1 where "p1 = dropWhile (\<lambda>c. c = SLASH) path"
  define p2 where "p2 = dropWhile (\<lambda>c. c \<noteq> SLASH) p1"
  have ne: "p1 \<noteq> []" and path': "path' = dropWhile (\<lambda>c. c = SLASH) p2"
    using assms by (auto simp: skipelem_def Let_def p1_def p2_def split: if_splits)
  have "hd p1 \<noteq> SLASH" using ne hd_dropWhile [of "\<lambda>c. c = SLASH" path] by (simp add: p1_def)
  then have "length p2 < length p1"
    using ne by (cases p1) (auto simp: p2_def intro: le_imp_less_Suc length_dropWhile_le)
  moreover have "length p1 \<le> length path" by (simp add: p1_def length_dropWhile_le)
  moreover have "length path' \<le> length p2" by (simp add: path' length_dropWhile_le)
  ultimately show ?thesis by linarith
qed

text \<open>The loop of \<^verbatim>\<open>namex\<close>. The result is the inode and the buffer with the last element.\<close>

function namex_loop ::
  "(int \<Rightarrow> 'z fs_scheme devsw) \<Rightarrow> bool \<Rightarrow> nat \<Rightarrow> uchar list \<Rightarrow> stream \<Rightarrow> ('z fs_scheme, nat option \<times> stream) kop" where
  "namex_loop devsw parent ip path name =
     (case skipelem path name of
        None \<Rightarrow> if parent then seqK (iput ip) (retK (None, name)) else retK (Some ip, name)
      | Some (path, name) \<Rightarrow>
          seqK (ilock (Some ip)) (\<lambda>s.
          if i_type (ic s ip) \<noteq> T_DIR then seqK (iunlockput ip) (retK (None, name)) s
          else if parent \<and> path = [] then seqK (iunlock (Some ip)) (retK (Some ip, name)) s
          else bindK (dirlookup devsw ip name) (\<lambda>next.
            case next of
              None \<Rightarrow> seqK (iunlockput ip) (retK (None, name))
            | Some (next, _) \<Rightarrow> seqK (iunlockput ip) (namex_loop devsw parent next path name)) s))"
  by pat_completeness auto
termination
  by (relation "measure (\<lambda>(devsw, parent, ip, path, name). length path)") (auto dest: skipelem_shorter)

definition namex :: "(int \<Rightarrow> 'z fs_scheme devsw) \<Rightarrow> uchar list \<Rightarrow> bool \<Rightarrow> ('z fs_scheme, nat option \<times> stream) kop" where
  "namex devsw path parent =
     bindK (if path \<noteq> [] \<and> hd path = SLASH then iget ROOTDEV ROOTINO
            else (\<lambda>s. derefK (pt_cur s) (\<lambda>p s. derefK (p_cwd (pt_procs s p)) idup s) s)) (\<lambda>ip.
     namex_loop devsw parent ip path (\<lambda>_. 0))"

definition namei :: "(int \<Rightarrow> 'z fs_scheme devsw) \<Rightarrow> uchar list \<Rightarrow> ('z fs_scheme, nat option) kop" where
  "namei devsw path = bindK (namex devsw path False) (\<lambda>(ip, _). retK ip)"

definition nameiparent :: "(int \<Rightarrow> 'z fs_scheme devsw) \<Rightarrow> uchar list \<Rightarrow> ('z fs_scheme, nat option \<times> stream) kop" where
  "nameiparent devsw path = namex devsw path True"

end
