(* ===== verification/File.thy ===== *)
theory File
  imports Fs Vm
begin

text \<open>
  Open files and pipes (\<^verbatim>\<open>file.c\<close>, \<^verbatim>\<open>pipe.c\<close>). A \<^verbatim>\<open>struct file *\<close> is an index into \<^verbatim>\<open>ftable\<close>; a pipe is kept as a record at the
  address of its page. Addresses of user memory go through the page table that is loaded; a byte
  that is not mapped is a fault in the kernel, which stops the machine (\<^verbatim>\<open>panic("trap")\<close>). Where a call
  goes to sleep in the middle of a loop, the rest of the loop is a definition of its own.
\<close>

section \<open>State\<close>

datatype fdtype = FD_NONE | FD_PIPE | FD_INODE

record ofile =
  f_type :: fdtype
  f_ref :: int
  f_readable :: bool
  f_writable :: bool
  f_pipe :: addr
  f_ip :: nat
  f_off :: uint

abbreviation (input) PIPESIZE :: nat where "PIPESIZE \<equiv> 512"

record pipe =
  pi_data :: stream
  pi_nread :: uint
  pi_nwrite :: uint
  pi_readopen :: bool
  pi_writeopen :: bool

record filest = fs +
  ft :: "nat \<Rightarrow> ofile"
  pipes :: "addr \<Rightarrow> pipe"

definition upd_file :: "nat \<Rightarrow> (ofile \<Rightarrow> ofile) \<Rightarrow> 'z filest_scheme \<Rightarrow> 'z filest_scheme" where
  "upd_file f g s = s\<lparr>ft := (ft s)(f := g (ft s f))\<rparr>"

definition upd_pipe :: "addr \<Rightarrow> (pipe \<Rightarrow> pipe) \<Rightarrow> 'z filest_scheme \<Rightarrow> 'z filest_scheme" where
  "upd_pipe p g s = s\<lparr>pipes := (pipes s)(p := g (pipes s p))\<rparr>"

section \<open>User memory\<close>

text \<open>The user address \<open>va\<close> in the page table that is loaded.\<close>

definition cur_addr :: "'z ptable_scheme \<Rightarrow> addr \<Rightarrow> addr option" where
  "cur_addr s va = user_addr (k_mem s) (P2V (pt_cr3 s)) va"

definition uload :: "addr \<Rightarrow> ('z ptable_scheme, uchar) kop" where
  "uload va = (\<lambda>s. case cur_addr s va of None \<Rightarrow> Panic ''trap'' | Some a \<Rightarrow> Ret (k_mem s a) s)"

definition ustore :: "addr \<Rightarrow> uchar \<Rightarrow> ('z ptable_scheme, unit) kop" where
  "ustore va c = (\<lambda>s. case cur_addr s va of None \<Rightarrow> Panic ''trap'' | Some a \<Rightarrow> Ret () (s\<lparr>k_mem := (k_mem s)(a := c)\<rparr>))"

primrec ustores :: "addr \<Rightarrow> uchar list \<Rightarrow> ('z ptable_scheme, unit) kop" where
  "ustores va [] = retK ()"
| "ustores va (c # cs) = seqK (ustore va c) (ustores (va + 1) cs)"

definition ustore32 :: "addr \<Rightarrow> uint \<Rightarrow> ('z ptable_scheme, unit) kop" where
  "ustore32 va v = ustores va [byte_of 0 v, byte_of 1 v, byte_of 2 v, byte_of 3 v]"

text \<open>The bytes from \<open>va\<close> on, and whether \<open>n\<close> of them are mapped.\<close>

definition user_stream :: "'z ptable_scheme \<Rightarrow> addr \<Rightarrow> stream" where
  "user_stream s va = (\<lambda>i. case cur_addr s (va + of_nat i) of None \<Rightarrow> 0 | Some a \<Rightarrow> k_mem s a)"

definition user_mapped :: "'z ptable_scheme \<Rightarrow> addr \<Rightarrow> nat \<Rightarrow> bool" where
  "user_mapped s va n \<longleftrightarrow> list_all (\<lambda>i. cur_addr s (va + of_nat i) \<noteq> None) [0..<n]"

section \<open>The file table\<close>

definition filealloc :: "('z filest_scheme, nat option) kop" where
  "filealloc =
     seqK (acquire FtableLock) (\<lambda>s.
     case List.find (\<lambda>f. f_ref (ft s f) = 0) [0..<NFILE] of
       Some f \<Rightarrow> seqK (modifyK (upd_file f (\<lambda>x. x\<lparr>f_ref := 1\<rparr>))) (seqK (release FtableLock) (retK (Some f))) s
     | None \<Rightarrow> seqK (release FtableLock) (retK None) s)"

definition filedup :: "nat \<Rightarrow> ('z filest_scheme, nat) kop" where
  "filedup f =
     seqK (acquire FtableLock) (\<lambda>s.
     if f_ref (ft s f) < 1 then Panic ''filedup''
     else seqK (modifyK (upd_file f (\<lambda>x. x\<lparr>f_ref := f_ref x + 1\<rparr>))) (seqK (release FtableLock) (retK f)) s)"

section \<open>Pipes\<close>

definition pipeclose :: "addr \<Rightarrow> bool \<Rightarrow> ('z filest_scheme, unit) kop" where
  "pipeclose p writable =
     seqK (acquire (PipeLock p))
    (seqK (if writable
           then seqK (modifyK (upd_pipe p (\<lambda>x. x\<lparr>pi_writeopen := False\<rparr>))) (wakeup (ChanPipeRead p))
           else seqK (modifyK (upd_pipe p (\<lambda>x. x\<lparr>pi_readopen := False\<rparr>))) (wakeup (ChanPipeWrite p))) (\<lambda>s.
     if \<not> pi_readopen (pipes s p) \<and> \<not> pi_writeopen (pipes s p)
     then seqK (release (PipeLock p)) (kfree p) s
     else release (PipeLock p) s))"

text \<open>\<^verbatim>\<open>pipewrite\<close> from byte \<open>i\<close> on, with \<^verbatim>\<open>p->lock\<close> held.\<close>

definition pipe_put :: "uchar \<Rightarrow> pipe \<Rightarrow> pipe" where
  "pipe_put c x = x\<lparr>pi_data := (pi_data x)(unat (pi_nwrite x) mod PIPESIZE := c), pi_nwrite := pi_nwrite x + 1\<rparr>"

definition cur_killed :: "'z ptable_scheme \<Rightarrow> bool" where
  "cur_killed s = (case pt_cur s of None \<Rightarrow> False | Some p \<Rightarrow> p_killed (pt_procs s p))"

function pipewrite_from :: "addr \<Rightarrow> addr \<Rightarrow> int \<Rightarrow> int \<Rightarrow> ('z filest_scheme, int) kop" where
  "pipewrite_from p a n i = (\<lambda>s.
     if i < n
     then if pi_nwrite (pipes s p) = pi_nread (pipes s p) + of_nat PIPESIZE
          then if \<not> pi_readopen (pipes s p) \<or> cur_killed s
               then seqK (release (PipeLock p)) (retK (- 1)) s
               else seqK (wakeup (ChanPipeRead p)) (sleep (ChanPipeWrite p) (Some (PipeLock p))) s
          else bindK (uload (a + word_of_int i)) (\<lambda>c.
               seqK (modifyK (upd_pipe p (pipe_put c))) (pipewrite_from p a n (i + 1))) s
     else seqK (wakeup (ChanPipeRead p)) (seqK (release (PipeLock p)) (retK n)) s)"
  by pat_completeness auto
termination
  by (relation "measure (\<lambda>(p, a, n, i). nat (n - i))") auto

definition pipewrite :: "addr \<Rightarrow> addr \<Rightarrow> int \<Rightarrow> ('z filest_scheme, int) kop" where
  "pipewrite p a n = seqK (acquire (PipeLock p)) (pipewrite_from p a n 0)"

definition pipewrite_wake :: "addr \<Rightarrow> addr \<Rightarrow> int \<Rightarrow> int \<Rightarrow> ('z filest_scheme, int) kop" where
  "pipewrite_wake p a n i = seqK (sleep_wake (PipeLock p)) (pipewrite_from p a n i)"

text \<open>The copying loop of \<^verbatim>\<open>piperead\<close>, and the waiting before it.\<close>

definition pipe_get :: "pipe \<Rightarrow> uchar" where
  "pipe_get x = pi_data x (unat (pi_nread x) mod PIPESIZE)"

function piperead_copy :: "addr \<Rightarrow> addr \<Rightarrow> int \<Rightarrow> int \<Rightarrow> ('z filest_scheme, int) kop" where
  "piperead_copy p a n i = (\<lambda>s.
     if i < n \<and> pi_nread (pipes s p) \<noteq> pi_nwrite (pipes s p)
     then (let c = pipe_get (pipes s p) in
           seqK (modifyK (upd_pipe p (\<lambda>x. x\<lparr>pi_nread := pi_nread x + 1\<rparr>)))
          (seqK (ustore (a + word_of_int i) c)
                (piperead_copy p a n (i + 1))) s)
     else Ret i s)"
  by pat_completeness auto
termination
  by (relation "measure (\<lambda>(p, a, n, i). nat (n - i))") auto

definition piperead_loop :: "addr \<Rightarrow> addr \<Rightarrow> int \<Rightarrow> ('z filest_scheme, int) kop" where
  "piperead_loop p a n = (\<lambda>s.
     if pi_nread (pipes s p) = pi_nwrite (pipes s p) \<and> pi_writeopen (pipes s p)
     then if cur_killed s then seqK (release (PipeLock p)) (retK (- 1)) s
          else sleep (ChanPipeRead p) (Some (PipeLock p)) s
     else bindK (piperead_copy p a n 0) (\<lambda>i.
          seqK (wakeup (ChanPipeWrite p)) (seqK (release (PipeLock p)) (retK i))) s)"

definition piperead :: "addr \<Rightarrow> addr \<Rightarrow> int \<Rightarrow> ('z filest_scheme, int) kop" where
  "piperead p a n = seqK (acquire (PipeLock p)) (piperead_loop p a n)"

definition piperead_wake :: "addr \<Rightarrow> addr \<Rightarrow> int \<Rightarrow> ('z filest_scheme, int) kop" where
  "piperead_wake p a n = seqK (sleep_wake (PipeLock p)) (piperead_loop p a n)"

section \<open>Operations on open files\<close>

definition fileclose :: "nat \<Rightarrow> ('z filest_scheme, unit) kop" where
  "fileclose f =
     seqK (acquire FtableLock) (\<lambda>s.
     if f_ref (ft s f) < 1 then Panic ''fileclose''
     else seqK (modifyK (upd_file f (\<lambda>x. x\<lparr>f_ref := f_ref x - 1\<rparr>))) (\<lambda>s.
       if f_ref (ft s f) > 0 then release FtableLock s
       else let ff = ft s f in
         seqK (modifyK (upd_file f (\<lambda>x. x\<lparr>f_ref := 0, f_type := FD_NONE\<rparr>)))
        (seqK (release FtableLock)
        (case f_type ff of
           FD_PIPE \<Rightarrow> pipeclose (f_pipe ff) (f_writable ff)
         | FD_INODE \<Rightarrow> seqK begin_op (seqK (iput (f_ip ff)) end_op)
         | FD_NONE \<Rightarrow> retK ())) s) s)"

definition filestat :: "nat \<Rightarrow> ('z filest_scheme, stat option) kop" where
  "filestat f = (\<lambda>s.
     if f_type (ft s f) = FD_INODE
     then seqK (ilock (Some (f_ip (ft s f))))
         (bindK (getK (stati (f_ip (ft s f)))) (\<lambda>st.
          seqK (iunlock (Some (f_ip (ft s f)))) (retK (Some st)))) s
     else Ret None s)"

definition fileread :: "(int \<Rightarrow> 'z filest_scheme devsw) \<Rightarrow> nat \<Rightarrow> addr \<Rightarrow> int \<Rightarrow> ('z filest_scheme, int) kop" where
  "fileread devsw f a n = (\<lambda>s.
     if \<not> f_readable (ft s f) then Ret (- 1) s
     else case f_type (ft s f) of
       FD_PIPE \<Rightarrow> piperead (f_pipe (ft s f)) a n s
     | FD_INODE \<Rightarrow>
         seqK (ilock (Some (f_ip (ft s f))))
        (bindK (\<lambda>s. readi devsw (f_ip (ft s f)) (f_off (ft s f)) (word_of_int n) s) (\<lambda>(r, bytes).
         seqK (ustores a bytes)
        (seqK (modifyK (upd_file f (\<lambda>x. if r > 0 then x\<lparr>f_off := f_off x + word_of_int r\<rparr> else x)))
        (seqK (iunlock (Some (f_ip (ft s f))))
              (retK r))))) s
     | FD_NONE \<Rightarrow> Panic ''fileread'')"

text \<open>\<^verbatim>\<open>writei\<close> from user memory: the machine stops at a byte that is not mapped.\<close>

definition writei_user :: "(int \<Rightarrow> 'z filest_scheme devsw) \<Rightarrow> nat \<Rightarrow> addr \<Rightarrow> uint \<Rightarrow> int \<Rightarrow> ('z filest_scheme, int) kop" where
  "writei_user devsw ip a off n = (\<lambda>s.
     bindK (writei devsw ip (user_stream s a) off (word_of_int n)) (\<lambda>r s'.
     if r > 0 \<and> \<not> user_mapped s a (nat r) then Panic ''trap'' else Ret r s') s)"

text \<open>One turn of the loop of \<^verbatim>\<open>filewrite\<close>: at most 1536 bytes per transaction.\<close>

definition filewrite_chunk :: "(int \<Rightarrow> 'z filest_scheme devsw) \<Rightarrow> nat \<Rightarrow> addr \<Rightarrow> int \<Rightarrow> ('z filest_scheme, int) kop" where
  "filewrite_chunk devsw f a n1 =
     seqK begin_op
    (seqK (\<lambda>s. ilock (Some (f_ip (ft s f))) s)
    (bindK (\<lambda>s. writei_user devsw (f_ip (ft s f)) a (f_off (ft s f)) n1 s) (\<lambda>r.
     seqK (modifyK (upd_file f (\<lambda>x. if r > 0 then x\<lparr>f_off := f_off x + word_of_int r\<rparr> else x)))
    (seqK (\<lambda>s. iunlock (Some (f_ip (ft s f))) s)
    (seqK end_op
          (retK r))))))"

abbreviation (input) FILEMAX :: int where "FILEMAX \<equiv> (MAXOPBLOCKS - 1 - 1 - 2) div 2 * 512"

function filewrite_loop :: "(int \<Rightarrow> 'z filest_scheme devsw) \<Rightarrow> nat \<Rightarrow> addr \<Rightarrow> int \<Rightarrow> int \<Rightarrow> ('z filest_scheme, int) kop" where
  "filewrite_loop devsw f a n i =
     (if i < n
      then let n1 = min (n - i) FILEMAX in
           bindK (filewrite_chunk devsw f (a + word_of_int i) n1) (\<lambda>r.
           if r < 0 then retK (- 1)
           else if r \<noteq> n1 then panic ''short filewrite''
           else filewrite_loop devsw f a n (i + n1))
      else retK (if i = n then n else - 1))"
  by pat_completeness auto
termination
  by (relation "measure (\<lambda>(devsw, f, a, n, i). nat (n - i))") (auto simp: Let_def)

definition filewrite :: "(int \<Rightarrow> 'z filest_scheme devsw) \<Rightarrow> nat \<Rightarrow> addr \<Rightarrow> int \<Rightarrow> ('z filest_scheme, int) kop" where
  "filewrite devsw f a n = (\<lambda>s.
     if \<not> f_writable (ft s f) then Ret (- 1) s
     else case f_type (ft s f) of
       FD_PIPE \<Rightarrow> pipewrite (f_pipe (ft s f)) a n s
     | FD_INODE \<Rightarrow> filewrite_loop devsw f a n 0 s
     | FD_NONE \<Rightarrow> Panic ''filewrite'')"

definition pipealloc :: "('z filest_scheme, (nat \<times> nat) option) kop" where
  "pipealloc =
     bindK filealloc (\<lambda>f0.
     case f0 of
       None \<Rightarrow> retK None
     | Some f0 \<Rightarrow>
         bindK filealloc (\<lambda>f1.
         case f1 of
           None \<Rightarrow> seqK (fileclose f0) (retK None)
         | Some f1 \<Rightarrow>
             bindK kalloc (\<lambda>p.
             if p = 0 then seqK (fileclose f0) (seqK (fileclose f1) (retK None))
             else
               seqK (modifyK (upd_pipe p (\<lambda>x. x\<lparr>pi_readopen := True, pi_writeopen := True, pi_nwrite := 0, pi_nread := 0\<rparr>)))
              (seqK (modifyK (upd_file f0 (\<lambda>x. x\<lparr>f_type := FD_PIPE, f_readable := True, f_writable := False, f_pipe := p\<rparr>)))
              (seqK (modifyK (upd_file f1 (\<lambda>x. x\<lparr>f_type := FD_PIPE, f_readable := False, f_writable := True, f_pipe := p\<rparr>)))
                    (retK (Some (f0, f1))))))))"

section \<open>Positional reading and writing\<close>

text \<open>\<^verbatim>\<open>pread_os\<close> and \<^verbatim>\<open>pwrite_os\<close> take a file descriptor of the current process. C's remainder has the sign of the
  dividend.\<close>

definition c_rem :: "int \<Rightarrow> int \<Rightarrow> int" where
  "c_rem a b = (if a < 0 then - ((- a) mod b) else a mod b)"

definition fd_file :: "'z filest_scheme \<Rightarrow> int \<Rightarrow> nat option" where
  "fd_file s fd = (if fd < 0 \<or> fd \<ge> int NOFILE then None
     else case pt_cur s of None \<Rightarrow> None | Some p \<Rightarrow> p_ofile (pt_procs s p) (nat fd))"

definition pread_os :: "(int \<Rightarrow> 'z filest_scheme devsw) \<Rightarrow> int \<Rightarrow> addr \<Rightarrow> int \<Rightarrow> int \<Rightarrow> ('z filest_scheme, int) kop" where
  "pread_os devsw fd a n off = (\<lambda>s.
     case fd_file s fd of
       None \<Rightarrow> Ret (- 1) s
     | Some f \<Rightarrow>
         if f_type (ft s f) \<noteq> FD_INODE then Panic ''ErrorR on pread''
         else seqK (ilock (Some (f_ip (ft s f))))
             (bindK (\<lambda>s. readi devsw (f_ip (ft s f)) (word_of_int off) (word_of_int n) s) (\<lambda>(r, bytes).
              seqK (ustores a bytes)
             (seqK (iunlock (Some (f_ip (ft s f))))
                   (retK r)))) s)"

text \<open>The loop that computes the new size; \<^verbatim>\<open>m\<close> is computed from \<^verbatim>\<open>n\<close> and from \<^verbatim>\<open>off\<close>, which do not change.\<close>

function pwrite_size :: "int \<Rightarrow> int \<Rightarrow> int \<Rightarrow> int \<Rightarrow> int \<Rightarrow> int" where
  "pwrite_size n n1 off tot off_x =
     (if tot < n1 \<and> n1 \<le> n
      then let m = min (n - tot) (512 - c_rem off 512) in pwrite_size n n1 off (tot + m) (off_x + m)
      else off_x)"
  by pat_completeness auto
termination
proof (relation "measure (\<lambda>(n, n1, off, tot, off_x). nat (n1 - tot))", goal_cases)
  case (2 n n1 off tot off_x m)
  have "off mod 512 < 512" "0 \<le> (- off) mod 512" by simp_all
  then have "512 - c_rem off 512 > 0" unfolding c_rem_def by (auto split: if_split)
  then show ?case using 2 by auto
qed simp

definition pwrite_chunk ::
  "(int \<Rightarrow> 'z filest_scheme devsw) \<Rightarrow> nat \<Rightarrow> addr \<Rightarrow> int \<Rightarrow> int \<Rightarrow> int \<Rightarrow> ('z filest_scheme, int \<times> int) kop" where
  "pwrite_chunk devsw f a n n1 off =
     seqK begin_op
    (seqK (\<lambda>s. ilock (Some (f_ip (ft s f))) s)
    (seqK (modifyK (\<lambda>s. if word_of_int off > i_size (ic s (f_ip (ft s f)))
              then upd_ino (f_ip (ft s f)) (\<lambda>i. i\<lparr>i_size := word_of_int (pwrite_size n n1 off 0 off)\<rparr>) s
              else s))
    (seqK (\<lambda>s. iunlock (Some (f_ip (ft s f))) s)
    (bindK (\<lambda>s. writei_user devsw (f_ip (ft s f)) a (word_of_int off) n1 s) (\<lambda>r.
     let off = (if r > 0 then off + r else off) in
     seqK (\<lambda>s. ilock (Some (f_ip (ft s f))) s)
    (seqK (modifyK (upd_file f (\<lambda>x. if f_off x < word_of_int off then x\<lparr>f_off := word_of_int off\<rparr> else x)))
    (seqK (\<lambda>s. iunlock (Some (f_ip (ft s f))) s)
    (seqK end_op
          (retK (r, off))))))))))"

function pwrite_loop ::
  "(int \<Rightarrow> 'z filest_scheme devsw) \<Rightarrow> nat \<Rightarrow> addr \<Rightarrow> int \<Rightarrow> int \<Rightarrow> int \<Rightarrow> ('z filest_scheme, int) kop" where
  "pwrite_loop devsw f a n i off =
     (if i < n
      then let n1 = min (n - i) FILEMAX in
           bindK (pwrite_chunk devsw f (a + word_of_int i) n n1 off) (\<lambda>(r, off).
           if r < 0 then retK (- 1)
           else if r \<noteq> n1 then panic ''short filewrite''
           else pwrite_loop devsw f a n (i + n1) off)
      else retK (if i = n then n else - 1))"
  by pat_completeness auto
termination
  by (relation "measure (\<lambda>(devsw, f, a, n, i, off). nat (n - i))") (auto simp: Let_def)

definition pwrite_os :: "(int \<Rightarrow> 'z filest_scheme devsw) \<Rightarrow> int \<Rightarrow> addr \<Rightarrow> int \<Rightarrow> int \<Rightarrow> ('z filest_scheme, int) kop" where
  "pwrite_os devsw fd a n off = (\<lambda>s.
     case fd_file s fd of
       None \<Rightarrow> Ret (- 1) s
     | Some f \<Rightarrow>
         if f_type (ft s f) \<noteq> FD_INODE then Panic ''filewrite''
         else pwrite_loop devsw f a n 0 off s)"

end
