(* ===== verification/Proc_Life.thy ===== *)
theory Proc_Life
  imports File
begin

text \<open>
  The life of a process and of a thread (\<^verbatim>\<open>proc.c\<close>): \<^verbatim>\<open>userinit\<close>, \<^verbatim>\<open>fork\<close>, \<^verbatim>\<open>exit\<close>, \<^verbatim>\<open>wait\<close>, \<^verbatim>\<open>forkret\<close>, and the thread
  calls. A thread is a process that shares the page directory of its parent and has a stack of its own in it.
\<close>

section \<open>Trap frames\<close>

text \<open>Offsets in \<^verbatim>\<open>struct trapframe\<close> (\<^verbatim>\<open>x86.h\<close>).\<close>

abbreviation (input) TF_EAX :: addr where "TF_EAX \<equiv> 28"
abbreviation (input) TF_ES :: addr where "TF_ES \<equiv> 40"
abbreviation (input) TF_DS :: addr where "TF_DS \<equiv> 44"
abbreviation (input) TF_TRAPNO :: addr where "TF_TRAPNO \<equiv> 48"
abbreviation (input) TF_EIP :: addr where "TF_EIP \<equiv> 56"
abbreviation (input) TF_CS :: addr where "TF_CS \<equiv> 60"
abbreviation (input) TF_EFLAGS :: addr where "TF_EFLAGS \<equiv> 64"
abbreviation (input) TF_ESP :: addr where "TF_ESP \<equiv> 68"
abbreviation (input) TF_SS :: addr where "TF_SS \<equiv> 72"

definition get_tf :: "nat \<Rightarrow> addr \<Rightarrow> 'z ptable_scheme \<Rightarrow> uint" where
  "get_tf p o' s = load32 (k_mem s) (p_tf (pt_procs s p) + o')"

definition set_tf :: "nat \<Rightarrow> addr \<Rightarrow> uint \<Rightarrow> 'z ptable_scheme \<Rightarrow> 'z ptable_scheme" where
  "set_tf p o' v s = s\<lparr>k_mem := store32 (k_mem s) (p_tf (pt_procs s p) + o') v\<rparr>"

text \<open>\<^verbatim>\<open>*np->tf = *p->tf\<close>\<close>

definition copy_tf :: "nat \<Rightarrow> nat \<Rightarrow> 'z ptable_scheme \<Rightarrow> 'z ptable_scheme" where
  "copy_tf np p s = s\<lparr>k_mem := memmove (k_mem s) (p_tf (pt_procs s np)) (p_tf (pt_procs s p)) TRAPFRAME\<rparr>"

text \<open>\<^verbatim>\<open>safestrcpy\<close> into \<^verbatim>\<open>name[16]\<close>: a NUL that was copied is followed by the one the function adds.\<close>

definition set_name :: "stream \<Rightarrow> stream \<Rightarrow> stream" where
  "set_name src old =
     (let k = length (takeWhile (\<lambda>c. c \<noteq> 0) (map src [0..<15])) in
      (\<lambda>i. if i < k then src i else if i = k \<or> i = k + 1 \<and> k < 15 then 0 else old i))"

definition string_stream :: "string \<Rightarrow> stream" where
  "string_stream cs = (\<lambda>i. if i < length cs then of_nat (of_char (cs ! i)) else 0)"

record lifest = filest +
  pl_first :: bool

section \<open>The first process\<close>

definition userinit :: "(int \<Rightarrow> 'z lifest_scheme devsw) \<Rightarrow> stream \<Rightarrow> uint \<Rightarrow> ('z lifest_scheme, unit) kop" where
  "userinit devsw initcode initcode_size =
     bindK allocproc (\<lambda>p.
     seqK (modifyK (\<lambda>s. s\<lparr>pt_initproc := p\<rparr>))
    (derefK p (\<lambda>p.
     bindK setupkvm (\<lambda>d.
     seqK (modifyK (upd_proc p (\<lambda>q. q\<lparr>p_pgdir := d\<rparr>)))
    (if d = 0 then panic ''userinit: out of memory?''
     else
       seqK (inituvm d initcode initcode_size)
      (seqK (modifyK (upd_proc p (\<lambda>q. q\<lparr>p_sz := PGSIZE\<rparr>)))
      (seqK (modifyK (\<lambda>s. s\<lparr>k_mem := memset (k_mem s) (p_tf (pt_procs s p)) 0 TRAPFRAME\<rparr>))
      (seqK (modifyK (set_tf p TF_CS 27))
      (seqK (modifyK (set_tf p TF_DS 35))
      (seqK (modifyK (set_tf p TF_ES 35))
      (seqK (modifyK (set_tf p TF_SS 35))
      (seqK (modifyK (set_tf p TF_EFLAGS 0x200))
      (seqK (modifyK (set_tf p TF_ESP PGSIZE))
      (seqK (modifyK (set_tf p TF_EIP 0))
      (seqK (modifyK (upd_proc p (\<lambda>q. q\<lparr>p_name := set_name (string_stream ''initcode'') (p_name q)\<rparr>)))
      (bindK (namei devsw [SLASH]) (\<lambda>ip.
       seqK (modifyK (upd_proc p (\<lambda>q. q\<lparr>p_cwd := ip\<rparr>)))
      (seqK (acquire PtableLock)
      (seqK (modifyK (set_state p RUNNABLE))
            (release PtableLock))))))))))))))))))))"

definition forkret :: "('z lifest_scheme, unit) kop" where
  "forkret =
     seqK (release PtableLock) (\<lambda>s.
     whenK (pl_first s)
      (seqK (modifyK (\<lambda>s. s\<lparr>pl_first := False\<rparr>))
      (seqK (iinit ROOTDEV)
            (initlog ROOTDEV))) s)"

section \<open>Fork\<close>

text \<open>The loop over the open files in \<^verbatim>\<open>fork\<close> and \<^verbatim>\<open>thread_create_os\<close>, and the directory after it.\<close>

definition dup_files :: "nat \<Rightarrow> nat \<Rightarrow> ('z filest_scheme, unit) kop" where
  "dup_files np p =
     seqK (forK [0..<NOFILE] (\<lambda>i s.
       case p_ofile (pt_procs s p) i of
         None \<Rightarrow> Ret () s
       | Some f \<Rightarrow> bindK (filedup f) (\<lambda>f. modifyK (upd_proc np (\<lambda>q. q\<lparr>p_ofile := (p_ofile q)(i := Some f)\<rparr>))) s))
    (\<lambda>s. derefK (p_cwd (pt_procs s p)) (\<lambda>d. bindK (idup d) (\<lambda>d. modifyK (upd_proc np (\<lambda>q. q\<lparr>p_cwd := Some d\<rparr>)))) s)"

definition fork :: "('z filest_scheme, int) kop" where
  "fork =
     bindK myproc (\<lambda>cur. derefK cur (\<lambda>cur.
     bindK allocproc (\<lambda>np.
     case np of
       None \<Rightarrow> retK (- 1)
     | Some np \<Rightarrow>
         bindK (\<lambda>s. copyuvm (p_pgdir (pt_procs s cur)) (p_sz (pt_procs s cur)) s) (\<lambda>d.
         seqK (modifyK (upd_proc np (\<lambda>q. q\<lparr>p_pgdir := d\<rparr>)))
        (if d = 0
         then seqK (\<lambda>s. kfree (p_kstack (pt_procs s np)) s)
             (seqK (modifyK (upd_proc np (\<lambda>q. q\<lparr>p_kstack := 0, p_state := UNUSED\<rparr>)))
                   (retK (- 1)))
         else
           seqK (modifyK (\<lambda>s. upd_proc np (\<lambda>q. q\<lparr>p_sz := p_sz (pt_procs s cur), p_parent := Some cur\<rparr>) s))
          (seqK (modifyK (copy_tf np cur))
          (seqK (modifyK (set_tf np TF_EAX 0))
          (seqK (dup_files np cur)
          (seqK (modifyK (\<lambda>s. upd_proc np (\<lambda>q. q\<lparr>p_name := set_name (p_name (pt_procs s cur)) (p_name q)\<rparr>) s))
          (bindK (getK (\<lambda>s. p_pid (pt_procs s np))) (\<lambda>pid.
           seqK (acquire PtableLock)
          (seqK (modifyK (set_state np RUNNABLE))
          (seqK (release PtableLock)
                (retK pid)))))))))))))) "

section \<open>Exit and wait\<close>

definition close_files :: "nat \<Rightarrow> ('z filest_scheme, unit) kop" where
  "close_files p =
     seqK (forK [0..<NOFILE] (\<lambda>fd s.
       case p_ofile (pt_procs s p) fd of
         None \<Rightarrow> Ret () s
       | Some f \<Rightarrow> seqK (fileclose f) (modifyK (upd_proc p (\<lambda>q. q\<lparr>p_ofile := (p_ofile q)(fd := None)\<rparr>))) s))
    (seqK begin_op
    (seqK (\<lambda>s. derefK (p_cwd (pt_procs s p)) iput s)
    (seqK end_op
          (modifyK (upd_proc p (\<lambda>q. q\<lparr>p_cwd := None\<rparr>))))))"

text \<open>\<^verbatim>\<open>wakeup1(proc)\<close>; no process sleeps on the null channel.\<close>

definition wake_proc_chan :: "nat option \<Rightarrow> ('z ptable_scheme, unit) kop" where
  "wake_proc_chan p = (case p of None \<Rightarrow> retK () | Some p \<Rightarrow> wakeup1 (ChanProc p))"

text \<open>The children of \<open>p\<close> become children of \<^verbatim>\<open>init\<close>.\<close>

definition orphan :: "nat \<Rightarrow> ('z ptable_scheme, unit) kop" where
  "orphan p =
     forK [0..<NPROC] (\<lambda>i s.
       if p_parent (pt_procs s i) = Some p
       then seqK (modifyK (\<lambda>s. upd_proc i (\<lambda>q. q\<lparr>p_parent := pt_initproc s\<rparr>) s)) (\<lambda>s.
            whenK (p_state (pt_procs s i) = ZOMBIE) (wake_proc_chan (pt_initproc s)) s) s
       else Ret () s)"

definition exit :: "('z filest_scheme, unit) kop" where
  "exit =
     bindK myproc (\<lambda>cur s.
     if cur = pt_initproc s then Panic ''init exiting''
     else derefK cur (\<lambda>cur.
       seqK (close_files cur)
      (seqK (acquire PtableLock)
      (seqK (\<lambda>s. wake_proc_chan (p_parent (pt_procs s cur)) s)
      (seqK (orphan cur)
      (seqK (modifyK (set_state cur ZOMBIE))
      (seqK sched
            (panic ''zombie exit''))))))) s)"

text \<open>What \<^verbatim>\<open>wait\<close> does with a zombie child.\<close>

definition reap :: "nat \<Rightarrow> ('z ptable_scheme, int) kop" where
  "reap p =
     bindK (getK (\<lambda>s. p_pid (pt_procs s p))) (\<lambda>pid.
     seqK (\<lambda>s. kfree (p_kstack (pt_procs s p)) s)
    (seqK (modifyK (upd_proc p (\<lambda>q. q\<lparr>p_kstack := 0\<rparr>)))
    (seqK (\<lambda>s. freevm (p_pgdir (pt_procs s p)) s)
    (seqK (modifyK (upd_proc p (\<lambda>q. q\<lparr>p_pid := 0, p_parent := None, p_name := (p_name q)(0 := 0), p_killed := False,
             p_state := UNUSED\<rparr>)))
    (seqK (release PtableLock)
          (retK pid))))))"

definition wait_loop :: "('z ptable_scheme, int) kop" where
  "wait_loop =
     bindK myproc (\<lambda>cur. derefK cur (\<lambda>cur s.
     case List.find (\<lambda>i. p_parent (pt_procs s i) = Some cur \<and> p_state (pt_procs s i) = ZOMBIE) [0..<NPROC] of
       Some p \<Rightarrow> reap p s
     | None \<Rightarrow>
         if \<not> list_ex (\<lambda>i. p_parent (pt_procs s i) = Some cur) [0..<NPROC] \<or> p_killed (pt_procs s cur)
         then seqK (release PtableLock) (retK (- 1)) s
         else sleep (ChanProc cur) (Some PtableLock) s))"

definition wait :: "('z ptable_scheme, int) kop" where
  "wait = seqK (acquire PtableLock) wait_loop"

definition wait_wake :: "('z ptable_scheme, int) kop" where
  "wait_wake = seqK (sleep_wake PtableLock) wait_loop"

definition getppid :: "('z ptable_scheme, int) kop" where
  "getppid = bindK myproc (\<lambda>p. derefK p (\<lambda>p s.
     derefK (p_parent (pt_procs s p)) (\<lambda>q s. Ret (p_pid (pt_procs s q)) s) s))"

section \<open>Threads\<close>

text \<open>\<^verbatim>\<open>mapper\<close>: the first free stack position of process \<open>p\<close>, or 100.\<close>

definition mapper :: "nat \<Rightarrow> nat \<Rightarrow> ('z ptable_scheme, uint) kop" where
  "mapper p np = (\<lambda>s.
     case List.find (\<lambda>i. p_thread (pt_procs s p) i = 0) [1..<100] of
       None \<Rightarrow> Ret 100 s
     | Some i \<Rightarrow> Ret (of_nat i) (upd_proc p (\<lambda>q. q\<lparr>p_thread := (p_thread q)(i := 1),
           p_thread_p := (p_thread_p q)(i := p_pid (pt_procs s np)),
           p_mtid := (if p_mtid q \<le> of_nat i then of_nat i else p_mtid q)\<rparr>) s))"

text \<open>The rest of \<^verbatim>\<open>thread_create_os\<close> once the stack is allocated: two words pushed, then the frame.\<close>

definition thread_stack :: "nat \<Rightarrow> uint \<Rightarrow> addr \<Rightarrow> ('z ptable_scheme, uint option) kop" where
  "thread_stack p sz arg = (\<lambda>s.
     let d = p_pgdir (pt_procs s p); sp = (sz - 4) AND NOT 3 in
     bindK (\<lambda>s. copyout d sp (user_stream s arg) 4 s) (\<lambda>r.
     if r < 0 then retK None
     else let sp = sp - 12;
              ustack = put32 (put32 (put32 (\<lambda>_. 0) 0 0xFFFFFFFF) 4 arg) 8 0 in
       bindK (copyout d sp ustack 12) (\<lambda>r.
       retK (if r < 0 then None else Some sp))) s)"

definition thread_create_os :: "addr \<Rightarrow> addr \<Rightarrow> addr \<Rightarrow> ('z filest_scheme, int) kop" where
  "thread_create_os thread start_routine arg =
     bindK myproc (\<lambda>p.
     bindK allocproc (\<lambda>np.
     case np of
       None \<Rightarrow> retK (- 1)
     | Some np \<Rightarrow>
         seqK (\<lambda>s. ustore32 thread (word_of_int (p_pid (pt_procs s np))) s)
        (derefK p (\<lambda>p.
         seqK (modifyK (copy_tf np p))
        (seqK (modifyK (\<lambda>s. upd_proc np (\<lambda>q. q\<lparr>p_sz := p_sz (pt_procs s p), p_parent := Some p\<rparr>) s))
        (seqK (dup_files np p)
        (seqK (modifyK (\<lambda>s. upd_proc np (\<lambda>q. q\<lparr>p_name := set_name (p_name (pt_procs s p)) (p_name q)\<rparr>) s))
        (seqK (modifyK (upd_proc p (\<lambda>q. if p_osz q = 0 then q\<lparr>p_osz := PGROUNDUP (p_sz q)\<rparr> else q)))
        (bindK (mapper p np) (\<lambda>tid.
         seqK (modifyK (upd_proc np (\<lambda>q. q\<lparr>p_tid := tid\<rparr>)))
        (bindK (\<lambda>s. let sz = PGROUNDUP (p_osz (pt_procs s p) + 2 * (tid - 1) * PGSIZE) in
                   allocuvm (p_pgdir (pt_procs s p)) sz (sz + 2 * PGSIZE) s) (\<lambda>sz.
         if sz = 0 then retK (- 1)
         else
           seqK (\<lambda>s. clearpteu (p_pgdir (pt_procs s p)) (sz - 2 * PGSIZE) s)
          (bindK (thread_stack p sz arg) (\<lambda>sp.
           case sp of
             None \<Rightarrow> retK (- 1)
           | Some sp \<Rightarrow>
               seqK (modifyK (\<lambda>s. upd_proc np (\<lambda>q. q\<lparr>p_pgdir := p_pgdir (pt_procs s p), p_sz := sz\<rparr>) s))
              (seqK (modifyK (upd_proc p (\<lambda>q. q\<lparr>p_sz := p_osz q + 2 * p_mtid q * PGSIZE\<rparr>)))
              (seqK (modifyK (set_tf np TF_EIP start_routine))
              (seqK (modifyK (set_tf np TF_ESP sp))
              (seqK (acquire PtableLock)
              (seqK (modifyK (set_state np RUNNABLE))
              (seqK (release PtableLock)
                    (retK 0)))))))))))))))))))))"

text \<open>What \<^verbatim>\<open>thread_join_os\<close> does with a zombie thread \<open>p\<close> of parent \<open>q\<close>. The loop over \<^verbatim>\<open>thread\<close> finds the
  highest position in use below the thread's own, or 1; position 0 has no turn of the loop.\<close>

definition new_mtid :: "(nat \<Rightarrow> int) \<Rightarrow> nat \<Rightarrow> uint \<Rightarrow> uint" where
  "new_mtid thread tid old =
     (case List.find (\<lambda>i. thread i = 1) (rev [1..<Suc tid]) of
        Some i \<Rightarrow> of_nat i
      | None \<Rightarrow> if tid = 0 then old else 1)"

definition reap_thread :: "nat \<Rightarrow> addr \<Rightarrow> ('z ptable_scheme, int) kop" where
  "reap_thread p retval =
     seqK (\<lambda>s. kfree (p_kstack (pt_procs s p)) s)
    (seqK (modifyK (upd_proc p (\<lambda>q. q\<lparr>p_kstack := 0\<rparr>)))
    (seqK (\<lambda>s. ustore32 retval (p_retval (pt_procs s p)) s) (\<lambda>s.
     derefK (p_parent (pt_procs s p)) (\<lambda>par.
       seqK (modifyK (\<lambda>s. if p_sz (pt_procs s par) = p_sz (pt_procs s p)
                then upd_proc par (\<lambda>q. q\<lparr>p_sz := p_sz (pt_procs s p) - 2 * PGSIZE\<rparr>) s else s))
      (seqK (\<lambda>s. deallocuvm (p_pgdir (pt_procs s p)) (p_sz (pt_procs s p)) (p_sz (pt_procs s p) - 2 * PGSIZE) s) (\<lambda>s.
       if p_pgdir (pt_procs s p) = 0 then Panic ''freevm: no pgdir''
       else
         seqK (modifyK (upd_proc p (\<lambda>q. q\<lparr>p_pid := 0\<rparr>)))
        (seqK (modifyK (\<lambda>s. upd_proc par (\<lambda>q. q\<lparr>p_thread := (p_thread q)(unat (p_tid (pt_procs s p)) := 0)\<rparr>) s))
        (seqK (modifyK (\<lambda>s. if p_mtid (pt_procs s par) = p_tid (pt_procs s p)
                 then upd_proc par (\<lambda>q. q\<lparr>p_mtid := new_mtid (p_thread q) (unat (p_tid (pt_procs s p))) (p_mtid q)\<rparr>) s else s))
        (seqK (modifyK (\<lambda>s. upd_proc par (\<lambda>q. q\<lparr>p_sz := p_osz q + 2 * p_mtid (pt_procs s p) * PGSIZE\<rparr>) s))
        (seqK (modifyK (upd_proc p (\<lambda>q. q\<lparr>p_tid := 0, p_parent := None, p_name := (p_name q)(0 := 0), p_killed := False,
                 p_state := UNUSED\<rparr>)))
        (seqK (release PtableLock)
              (retK 0)))))) s))) s)))"

text \<open>With \<^verbatim>\<open>select\<close> set and no zombie the scan is repeated with \<^verbatim>\<open>ptable.lock\<close> held, so that no process can ever exit: the
  machine is stuck.\<close>

definition thread_join_loop :: "int \<Rightarrow> addr \<Rightarrow> bool \<Rightarrow> ('z ptable_scheme, int) kop" where
  "thread_join_loop thread retval sel =
     bindK myproc (\<lambda>cur s.
     let mine = (\<lambda>i. (sel \<or> p_parent (pt_procs s i) = cur) \<and> p_pid (pt_procs s i) = thread) in
     case List.find (\<lambda>i. mine i \<and> p_state (pt_procs s i) = ZOMBIE) [0..<NPROC] of
       Some p \<Rightarrow> reap_thread p retval s
     | None \<Rightarrow>
         if sel then Panic ''stuck in thread_join_os''
         else derefK cur (\<lambda>cur s.
           if \<not> list_ex mine [0..<NPROC] \<or> p_killed (pt_procs s cur)
           then seqK (release PtableLock) (retK (- 1)) s
           else sleep (ChanProc cur) (Some PtableLock) s) s)"

definition thread_join_os :: "int \<Rightarrow> addr \<Rightarrow> bool \<Rightarrow> ('z ptable_scheme, int) kop" where
  "thread_join_os thread retval sel = seqK (acquire PtableLock) (thread_join_loop thread retval sel)"

definition thread_join_wake :: "int \<Rightarrow> addr \<Rightarrow> ('z ptable_scheme, int) kop" where
  "thread_join_wake thread retval = seqK (sleep_wake PtableLock) (thread_join_loop thread retval False)"

definition thread_exit_os :: "addr \<Rightarrow> int \<Rightarrow> ('z filest_scheme, unit) kop" where
  "thread_exit_os retval thread =
     bindK (if thread \<noteq> 0
            then seqK (acquire PtableLock)
                (bindK (getK (\<lambda>s. List.find (\<lambda>i. p_pid (pt_procs s i) = thread) [0..<NPROC])) (\<lambda>p.
                 seqK (release PtableLock) (retK p)))
            else myproc) (\<lambda>cur. derefK cur (\<lambda>cur.
     seqK (modifyK (stride_drop cur)) (\<lambda>s.
     if Some cur = pt_initproc s then Panic ''init exiting''
     else
       seqK (close_files cur)
      (seqK (modifyK (upd_proc cur (\<lambda>q. q\<lparr>p_retval := retval\<rparr>)))
      (seqK (acquire PtableLock)
      (seqK (\<lambda>s. wake_proc_chan (p_parent (pt_procs s cur)) s)
      (seqK (orphan cur)
      (seqK (modifyK (set_state cur ZOMBIE))
      (if thread \<noteq> 0 then release PtableLock
       else seqK sched (panic ''zombie exit''))))))) s)))"

end
