(* ===== verification/Console.thy ===== *)
theory Console
  imports Proc_Life
begin

text \<open>
  The console (\<^verbatim>\<open>console.c\<close>) and the keyboard (\<^verbatim>\<open>kbd.c\<close>, \<^verbatim>\<open>kbd.h\<close>). The bytes that the controllers deliver are arguments: a scan
  code for \<^verbatim>\<open>kbdgetc\<close>, a list of characters for \<^verbatim>\<open>consoleintr\<close>. What is sent to the serial port is recorded in \<open>cn_uart\<close>;
  the cursor register and the text memory of the display are \<open>cn_pos\<close> and \<open>cn_crt\<close>.
\<close>

section \<open>State\<close>

abbreviation (input) INPUT_BUF :: nat where "INPUT_BUF \<equiv> 128"

record conin =
  in_buf :: "nat \<Rightarrow> uchar"
  in_r :: uint
  in_w :: uint
  in_e :: uint

record consst = lifest +
  cn_in :: conin
  cn_uart :: "int list"
  cn_pos :: int
  cn_crt :: "nat \<Rightarrow> ushort"
  cn_shift :: uint

section \<open>Output\<close>

abbreviation (input) BACKSPACE :: int where "BACKSPACE \<equiv> 0x100"

definition cgaputc :: "int \<Rightarrow> ('z consst_scheme, unit) kop" where
  "cgaputc c = (\<lambda>s.
     let pos = cn_pos s;
         plain = (c \<noteq> 10 \<and> c \<noteq> BACKSPACE);
         crt = (if plain then (cn_crt s)(nat pos := (word_of_int c AND 0xFF) OR 0x0700) else cn_crt s);
         pos = (if c = 10 then pos + (80 - pos mod 80)
                else if c = BACKSPACE then (if pos > 0 then pos - 1 else pos)
                else pos + 1) in
     if pos < 0 \<or> pos > 25 * 80 then Panic ''pos under/overflow''
     else let scroll = (pos div 80 \<ge> 24);
              crt = (if scroll then (\<lambda>i. if i < 23 * 80 then crt (i + 80) else crt i) else crt);
              pos = (if scroll then pos - 80 else pos);
              crt = (if scroll then (\<lambda>i. if nat pos \<le> i \<and> i < 24 * 80 then 0 else crt i) else crt) in
       Ret () (s\<lparr>cn_pos := pos, cn_crt := crt(nat pos := 0x0720)\<rparr>))"

definition consputc :: "int \<Rightarrow> ('z consst_scheme, unit) kop" where
  "consputc c =
     seqK (modifyK (\<lambda>s. s\<lparr>cn_uart := cn_uart s @ (if c = BACKSPACE then [8, 32, 8] else [c])\<rparr>))
          (cgaputc c)"

text \<open>The digits of \<^verbatim>\<open>printint\<close>, least significant first: \<^verbatim>\<open>do { ... } while((x /= base) != 0)\<close>.\<close>

definition digit_char :: "nat \<Rightarrow> int" where
  "digit_char d = (if d < 10 then 48 + int d else 87 + int d)"

function digits_rev :: "nat \<Rightarrow> nat \<Rightarrow> int list" where
  "digits_rev b x = (if b < 2 then [] else digit_char (x mod b) # (if x div b = 0 then [] else digits_rev b (x div b)))"
  by pat_completeness auto
termination
proof (relation "measure (\<lambda>(b, x). x)", goal_cases)
  case (2 b x)
  then have "1 < b" "0 < x" by (auto intro: Nat.gr0I)
  then show ?case by simp
qed simp

declare digits_rev.simps [simp del]

definition printint_chars :: "uint \<Rightarrow> nat \<Rightarrow> bool \<Rightarrow> int list" where
  "printint_chars xx b signed_p =
     (let neg = (signed_p \<and> sint xx < 0); x = (if neg then - xx else xx) in
      (if neg then [45] else []) @ rev (digits_rev b (unat x)))"

text \<open>\<^verbatim>\<open>cprintf\<close>: the arguments in order, a string argument being the string or a null pointer.\<close>

datatype fmtarg = AInt uint | AStr "int list option"

definition arg_word :: "fmtarg list \<Rightarrow> uint" where
  "arg_word as = (case as of AInt x # _ \<Rightarrow> x | _ \<Rightarrow> 0)"

definition arg_str :: "fmtarg list \<Rightarrow> int list" where
  "arg_str as = (case as of AStr (Some cs) # _ \<Rightarrow> cs | _ \<Rightarrow> map (\<lambda>c. int (of_char c)) ''(null)'')"

fun cprintf_chars :: "int list \<Rightarrow> fmtarg list \<Rightarrow> int list" where
  "cprintf_chars [] as = []"
| "cprintf_chars [c] as = (if c \<noteq> 37 then [c] else [])"
| "cprintf_chars (c # d # fmt) as =
     (if c \<noteq> 37 then c # cprintf_chars (d # fmt) as
      else if d = 100 then printint_chars (arg_word as) 10 True @ cprintf_chars fmt (tl as)
      else if d = 120 \<or> d = 112 then printint_chars (arg_word as) 16 False @ cprintf_chars fmt (tl as)
      else if d = 115 then arg_str as @ cprintf_chars fmt (tl as)
      else if d = 37 then 37 # cprintf_chars fmt as
      else 37 # d # cprintf_chars fmt as)"

definition cprintf :: "int list \<Rightarrow> fmtarg list \<Rightarrow> ('z consst_scheme, unit) kop" where
  "cprintf fmt as =
     seqK (acquire ConsLock)
    (seqK (forK (cprintf_chars fmt as) consputc)
          (release ConsLock))"

section \<open>Input\<close>

definition in_at :: "conin \<Rightarrow> uint \<Rightarrow> uchar" where
  "in_at i k = in_buf i (unat k mod INPUT_BUF)"

text \<open>The loop of kill line, with its output.\<close>

function kill_line :: "conin \<Rightarrow> conin \<times> nat" where
  "kill_line i =
     (if in_e i \<noteq> in_w i \<and> in_at i (in_e i - 1) \<noteq> 10
      then (let (j, n) = kill_line (i\<lparr>in_e := in_e i - 1\<rparr>) in (j, Suc n))
      else (i, 0))"
  by pat_completeness auto
termination
proof (relation "measure (\<lambda>i. unat (in_e i - in_w i))", goal_cases)
  case (2 i)
  then have "in_e i - in_w i \<noteq> 0" by simp
  then have "unat (in_e i - in_w i - 1) < unat (in_e i - in_w i)"
    by (rule measure_unat)
  then show ?case by (simp add: algebra_simps)
qed simp

declare kill_line.simps [simp del]

text \<open>One character of \<^verbatim>\<open>consoleintr\<close>: the new input buffer, the characters echoed, and whether the reader is woken.\<close>

definition consintr_char :: "int \<Rightarrow> conin \<Rightarrow> conin \<times> int list \<times> bool" where
  "consintr_char c i =
     (if c = 16 then (i, [], False)
      else if c = 21 then (let (j, n) = kill_line i in (j, replicate n BACKSPACE, False))
      else if c = 8 \<or> c = 0x7F
      then if in_e i \<noteq> in_w i then (i\<lparr>in_e := in_e i - 1\<rparr>, [BACKSPACE], False) else (i, [], False)
      else if c \<noteq> 0 \<and> in_e i - in_r i < of_nat INPUT_BUF
      then let c = (if c = 13 then 10 else c);
               j = i\<lparr>in_buf := (in_buf i)(unat (in_e i) mod INPUT_BUF := word_of_int c), in_e := in_e i + 1\<rparr> in
           if c = 10 \<or> c = 4 \<or> in_e j = in_r j + of_nat INPUT_BUF
           then (j\<lparr>in_w := in_e j\<rparr>, [c], True)
           else (j, [c], False)
      else (i, [], False))"

definition consoleintr_step :: "int \<Rightarrow> ('z consst_scheme, unit) kop" where
  "consoleintr_step c = (\<lambda>s.
     let (i, echo, wake) = consintr_char c (cn_in s) in
     seqK (modifyK (\<lambda>s. s\<lparr>cn_in := i\<rparr>))
    (seqK (forK echo consputc)
          (whenK wake (wakeup ChanInput))) s)"

definition consoleintr :: "int list \<Rightarrow> ('z consst_scheme, unit) kop" where
  "consoleintr cs =
     seqK (acquire ConsLock)
    (seqK (forK cs consoleintr_step)
          (release ConsLock))"

text \<open>The loop of \<^verbatim>\<open>consoleread\<close> with \<open>n\<close> bytes to go; the result is the count left and the bytes stored, or the
  early return of a killed process.\<close>

primrec consoleread_loop :: "nat \<Rightarrow> nat \<Rightarrow> uchar list \<Rightarrow> ('z consst_scheme, (nat \<times> uchar list) option \<times> uchar list) kop" where
  "consoleread_loop 0 target acc = retK (Some (0, acc), acc)"
| "consoleread_loop (Suc n) target acc = (\<lambda>s.
     if in_r (cn_in s) = in_w (cn_in s)
     then if cur_killed s then seqK (release ConsLock) (retK (None, acc)) s
          else sleep ChanInput (Some ConsLock) s
     else let c = in_at (cn_in s) (in_r (cn_in s));
              s1 = s\<lparr>cn_in := (cn_in s)\<lparr>in_r := in_r (cn_in s) + 1\<rparr>\<rparr> in
       if c = 4
       then Ret (Some (Suc n, acc), acc) (if Suc n < target then s else s1)
       else if c = 10 then Ret (Some (n, acc @ [c]), acc @ [c]) s1
       else consoleread_loop n target (acc @ [c]) s1)"

definition consoleread_end :: "nat \<Rightarrow> nat \<Rightarrow> (nat \<times> uchar list) option \<times> uchar list \<Rightarrow> ('z consst_scheme, int \<times> uchar list) kop" where
  "consoleread_end ip target r =
     (case r of
        (None, acc) \<Rightarrow> seqK (ilock (Some ip)) (retK (- 1, acc))
      | (Some (n, _), acc) \<Rightarrow>
          seqK (release ConsLock)
         (seqK (ilock (Some ip))
               (retK (int target - int n, acc))))"

definition consoleread :: "nat \<Rightarrow> nat \<Rightarrow> ('z consst_scheme, int \<times> uchar list) kop" where
  "consoleread ip n =
     seqK (iunlock (Some ip))
    (seqK (acquire ConsLock)
    (bindK (consoleread_loop n n []) (consoleread_end ip n)))"

definition consoleread_wake :: "nat \<Rightarrow> nat \<Rightarrow> nat \<Rightarrow> uchar list \<Rightarrow> ('z consst_scheme, int \<times> uchar list) kop" where
  "consoleread_wake ip target n acc =
     seqK (sleep_wake ConsLock) (bindK (consoleread_loop n target acc) (consoleread_end ip target))"

definition consolewrite :: "nat \<Rightarrow> stream \<Rightarrow> nat \<Rightarrow> ('z consst_scheme, int) kop" where
  "consolewrite ip buf n =
     seqK (iunlock (Some ip))
    (seqK (acquire ConsLock)
    (seqK (forK [0..<n] (\<lambda>i. consputc (uint (buf i))))
    (seqK (release ConsLock)
    (seqK (ilock (Some ip))
          (retK (int n))))))"

text \<open>\<^verbatim>\<open>devsw\<close> after \<^verbatim>\<open>consoleinit\<close>.\<close>

definition console_devsw :: "int \<Rightarrow> 'z consst_scheme devsw" where
  "console_devsw major =
     (if major = 1 then \<lparr>dv_read = Some consoleread, dv_write = Some consolewrite\<rparr>
      else \<lparr>dv_read = None, dv_write = None\<rparr>)"

section \<open>The keyboard\<close>

abbreviation (input) SHIFT :: uint where "SHIFT \<equiv> 1"
abbreviation (input) CTL :: uint where "CTL \<equiv> 2"
abbreviation (input) ALT :: uint where "ALT \<equiv> 4"
abbreviation (input) CAPSLOCK :: uint where "CAPSLOCK \<equiv> 8"
abbreviation (input) NUMLOCK :: uint where "NUMLOCK \<equiv> 16"
abbreviation (input) SCROLLLOCK :: uint where "SCROLLLOCK \<equiv> 32"
abbreviation (input) E0ESC :: uint where "E0ESC \<equiv> 64"

definition shiftcode :: "nat \<Rightarrow> uint" where
  "shiftcode d = (if d = 0x1D \<or> d = 0x9D then CTL else if d = 0x2A \<or> d = 0x36 then SHIFT
     else if d = 0x38 \<or> d = 0xB8 then ALT else 0)"

definition togglecode :: "nat \<Rightarrow> uint" where
  "togglecode d = (if d = 0x3A then CAPSLOCK else if d = 0x45 then NUMLOCK else if d = 0x46 then SCROLLLOCK else 0)"

text \<open>The keys of the upper half, the same in the three maps but for \<^verbatim>\<open>KP_Enter\<close> and \<^verbatim>\<open>KP_Div\<close>.\<close>

definition highmap :: "uint \<Rightarrow> uint \<Rightarrow> nat \<Rightarrow> uint" where
  "highmap enter slash d =
     (case map_of [(0x9C, enter), (0xB5, slash), (0xC8, 0xE2), (0xD0, 0xE3), (0xC9, 0xE6), (0xD1, 0xE7),
        (0xCB, 0xE4), (0xCD, 0xE5), (0x97, 0xE0), (0xCF, 0xE1), (0xD2, 0xE8), (0xD3, 0xE9)] d of
        Some c \<Rightarrow> c | None \<Rightarrow> 0)"

definition keymap :: "nat list \<Rightarrow> uint \<Rightarrow> uint \<Rightarrow> nat \<Rightarrow> uint" where
  "keymap low enter slash d = (if d < length low then of_nat (low ! d) else highmap enter slash d)"

definition keys :: "string \<Rightarrow> nat list" where
  "keys cs = map of_char cs"

definition normalmap :: "nat \<Rightarrow> uint" where
  "normalmap = keymap
     ([0, 0x1B] @ keys ''1234567890-='' @ [8, 9] @ keys ''qwertyuiop[]'' @ [10, 0] @ keys ''asdfghjkl;'' @ [39, 96, 0, 92] @
      keys ''zxcvbnm,./'' @ [0, 42, 0, 32, 0, 0, 0, 0, 0, 0, 0, 0, 0, 0, 0, 0, 0] @ keys ''789-456+1230.'' @ [0, 0, 0, 0])
     10 47"

definition shiftmap :: "nat \<Rightarrow> uint" where
  "shiftmap = keymap
     ([0, 27] @ keys ''!@#$%^&*()_+'' @ [8, 9] @ keys ''QWERTYUIOP{}'' @ [10, 0] @ keys ''ASDFGHJKL:'' @ [34, 126, 0, 124] @
      keys ''ZXCVBNM<>?'' @ [0, 42, 0, 32, 0, 0, 0, 0, 0, 0, 0, 0, 0, 0, 0, 0, 0] @ keys ''789-456+1230.'' @ [0, 0, 0, 0])
     10 47"

definition ctl :: "string \<Rightarrow> nat list" where
  "ctl cs = map (\<lambda>c. of_char c - 64) cs"

text \<open>\<^verbatim>\<open>C('/')\<close> is negative, 239 as an unsigned byte.\<close>

definition ctlmap :: "nat \<Rightarrow> uint" where
  "ctlmap = keymap
     (replicate 16 0 @ ctl ''QWERTYUIOP'' @ [0, 0, 13, 0] @ ctl ''ASDFGHJKL'' @ [0, 0, 0, 0, 28] @ ctl ''ZXCVBNM'' @
      [0, 0, 239, 0, 0])
     13 239"

definition kbdgetc :: "uchar \<Rightarrow> uint \<Rightarrow> uint \<times> uint" where
  "kbdgetc data shift =
     (let d = ucast data :: uint in
      if d = 0xE0 then (shift OR E0ESC, 0)
      else if d AND 0x80 \<noteq> 0
      then let d = (if shift AND E0ESC \<noteq> 0 then d else d AND 0x7F) in
           (shift AND NOT (shiftcode (unat d) OR E0ESC), 0)
      else let (d, shift) = (if shift AND E0ESC \<noteq> 0 then (d OR 0x80, shift AND NOT E0ESC) else (d, shift));
               shift = shift OR shiftcode (unat d);
               shift = shift XOR togglecode (unat d);
               m = shift AND (CTL OR SHIFT);
               c = (if m = 0 then normalmap else if m = 1 then shiftmap else ctlmap) (unat d);
               c = (if shift AND CAPSLOCK \<noteq> 0
                    then if 97 \<le> c \<and> c \<le> 122 then c - 32 else if 65 \<le> c \<and> c \<le> 90 then c + 32 else c
                    else c) in
           (shift, c))"

text \<open>The characters of the scan codes that are waiting.\<close>

primrec kbd_chars :: "uchar list \<Rightarrow> uint \<Rightarrow> uint \<times> int list" where
  "kbd_chars [] shift = (shift, [])"
| "kbd_chars (d # ds) shift =
     (let (shift, c) = kbdgetc d shift; (shift, cs) = kbd_chars ds shift in (shift, uint c # cs))"

definition kbdintr :: "uchar list \<Rightarrow> ('z consst_scheme, unit) kop" where
  "kbdintr codes = (\<lambda>s.
     let (shift, cs) = kbd_chars codes (cn_shift s) in
     seqK (modifyK (\<lambda>s. s\<lparr>cn_shift := shift\<rparr>)) (consoleintr cs) s)"

end
