(* ===== verification/Sample_State.thy ===== *)
theory Sample_State
  imports Console
begin

text \<open>
  A small concrete state of the whole kernel, at which the properties of the higher components are evaluated:
  process 0 runs with one page of memory mapped at virtual address 0, no lock is held, the file table and the inode cache
  are empty and nothing was typed at the console.
\<close>

text \<open>The page directory at physical address \<open>0x1000\<close>, its page table at \<open>0x2000\<close> and the page at \<open>0x3000\<close>,
  which starts with the bytes of \<open>cs\<close>.\<close>

definition sample_mem :: "uchar list \<Rightarrow> mem" where
  "sample_mem cs a =
     (if a = 0x80001000 then 7 else if a = 0x80001001 then 0x20
      else if a = 0x80002000 then 7 else if a = 0x80002001 then 0x30
      else if a \<ge> 0x80003000 \<and> unat (a - 0x80003000) < length cs then cs ! unat (a - 0x80003000)
      else 0)"

definition sample_proc :: proc where
  "sample_proc = blank_proc\<lparr>p_state := RUNNING, p_pid := 1, p_sz := 4096, p_pgdir := 0x80001000, p_cwd := Some 0\<rparr>"

definition no_file :: ofile where
  "no_file = \<lparr>f_type = FD_NONE, f_ref = 0, f_readable = False, f_writable = False, f_pipe = 0, f_ip = 0, f_off = 0\<rparr>"

definition no_pipe :: pipe where
  "no_pipe = \<lparr>pi_data = \<lambda>_. 0, pi_nread = 0, pi_nwrite = 0, pi_readopen = True, pi_writeopen = True\<rparr>"

definition no_inode :: inode where
  "no_inode = \<lparr>i_dev = 0, i_inum = 0, i_ref = 0, i_valid = False, i_type = 0, i_major = 0, i_minor = 0, i_nlink = 0,
     i_size = 0, i_addrs = replicate 13 0\<rparr>"

definition sample_state :: "uchar list \<Rightarrow> consst" where
  "sample_state cs = lifest.extend (filest.extend (fs.extend (log.extend
     (one_write_log\<lparr>k_mem := sample_mem cs, pt_cr3 := 0x1000, pt_procs := (\<lambda>_. blank_proc)(0 := sample_proc)\<rparr>)
     (fs.fields (get_superblock (\<lambda>_. 0)) (\<lambda>_. no_inode)))
     (filest.fields (\<lambda>_. no_file) (\<lambda>_. no_pipe)))
     (lifest.fields False))
     (consst.fields \<lparr>in_buf = \<lambda>_. 0, in_r = 0, in_w = 0, in_e = 0\<rparr> [] 0 (\<lambda>_. 0) 0)"

lemmas sample_defs = sample_state_def lifest.defs filest.defs fs.defs log.defs consst.defs

lemma sample_simps [simp]:
  "k_held (sample_state cs) = {}" "k_mem (sample_state cs) = sample_mem cs" "pt_cr3 (sample_state cs) = 0x1000"
  "pt_procs (sample_state cs) = (\<lambda>_. blank_proc)(0 := sample_proc)" "pt_cur (sample_state cs) = Some 0"
  "ic (sample_state cs) = (\<lambda>_. no_inode)" "ft (sample_state cs) = (\<lambda>_. no_file)" "pipes (sample_state cs) = (\<lambda>_. no_pipe)"
  "cn_in (sample_state cs) = \<lparr>in_buf = \<lambda>_. 0, in_r = 0, in_w = 0, in_e = 0\<rparr>" "cn_uart (sample_state cs) = []"
  "cn_pos (sample_state cs) = 0" "sl_locked (sample_state cs) = (\<lambda>_. False)" "bc_list (sample_state cs) = [0..<NBUF]"
  "cn_shift (sample_state cs) = 0"
  by (simp_all add: sample_defs)

lemma sample_mem_tables:
  "sample_mem cs 0x80001000 = 7" "sample_mem cs 0x80001001 = 0x20" "sample_mem cs 0x80001002 = 0" "sample_mem cs 0x80001003 = 0"
  "sample_mem cs 0x80002000 = 7" "sample_mem cs 0x80002001 = 0x30" "sample_mem cs 0x80002002 = 0" "sample_mem cs 0x80002003 = 0"
  by (simp_all add: sample_mem_def)

text \<open>Any memory with the page tables of the sample maps the addresses below a page to the page at \<open>0x3000\<close>.\<close>

lemma sample_addr:
  assumes "\<And>a. a < 0x80003000 \<Longrightarrow> m a = sample_mem cs a" "va < 4096"
  shows "user_addr m 0x80001000 va = Some (0x80003000 + va)"
proof -
  have z: "drop_bit 22 va = 0" "drop_bit 12 va = 0"
    using assms(2) by (simp_all add: word_unat_eq_iff unat_drop_bit_eq drop_bit_eq_div word_less_nat_alt unat_div)
  have d: "get_pte m (pde_addr 0x80001000 va) = 0x2007"
    using assms(1) sample_mem_tables by (simp add: pde_addr_def PDX_def z get_pte_def load32_def join32_def)
  have t: "get_pte m (pte_addr 0x80002000 va) = 0x3007"
    using assms(1) sample_mem_tables by (simp add: pte_addr_def PTX_def z get_pte_def load32_def join32_def)
  have "PGROUNDDOWN va = 0" using assms(2) by (simp add: word_unat_eq_iff unat_PGROUNDDOWN word_less_nat_alt)
  then show ?thesis by (simp add: user_addr_def d t Let_def present_def PTE_ADDR_def P2V_def)
qed

end
