(* ===== verification/Ide_Queue.thy ===== *)
theory Ide_Queue
  imports Ide Sample_State
begin

text \<open>
  The interrupt driven driver of \<^verbatim>\<open>ide.c\<close> serves its queue of requests with the same effect as the synchronous
  driver of \<^verbatim>\<open>memide.c\<close>, which the file system components are proved with.
\<close>

section \<open>The effect of a request\<close>

definition mem_rw :: "nat \<Rightarrow> (nat \<Rightarrow> buf) \<times> disk \<Rightarrow> (nat \<Rightarrow> buf) \<times> disk" where
  "mem_rw b = (\<lambda>(B, d).
     if b_dirty (B b) then (B(b := (B b)\<lparr>b_dirty := False, b_valid := True\<rparr>), d(unat (b_blockno (B b)) := b_data (B b)))
     else (B(b := (B b)\<lparr>b_data := d (unat (b_blockno (B b))), b_valid := True\<rparr>), d))"

text \<open>The disk when the first request of the queue is started: a write has reached it.\<close>

definition started :: "nat list \<Rightarrow> (nat \<Rightarrow> buf) \<times> disk \<Rightarrow> disk" where
  "started q = (\<lambda>(B, d). case q of [] \<Rightarrow> d
     | b # _ \<Rightarrow> if b_dirty (B b) then d(unat (b_blockno (B b)) := b_data (B b)) else d)"

lemma mem_rw_other: "c \<noteq> b \<Longrightarrow> fst (mem_rw b x) c = fst x c"
  by (simp add: mem_rw_def split: prod.split)

lemma iderw_mem:
  assumes "k_held a = {}" "sl_locked a (BufSleep b)" "b_dev (bc_bufs a b) = 1" "b_blockno (bc_bufs a b) < dk_size a"
    and "\<not> (b_valid (bc_bufs a b) \<and> \<not> b_dirty (bc_bufs a b))"
  shows "\<exists>t. iderw b a = Ret () t \<and> (bc_bufs t, dk t) = mem_rw b (bc_bufs a, dk a) \<and> k_held t = {} \<and>
    sl_locked t = sl_locked a \<and> dk_size t = dk_size a"
  using assms by (auto simp: iderw_def kop_simps Let_def mem_rw_def upd_buf_def)

lemma idestart_eq:
  assumes "b_blockno (bc_bufs s b) < FSSIZE"
  obtains t where "idestart (Some b) s = Ret () t" "dk t = started (b # q) (bc_bufs s, dk s)"
    "t = s\<lparr>dk := dk t, dk_hist := dk_hist t\<rparr>"
  using assms that by (cases "b_dirty (bc_bufs s b)") (simp_all add: idestart_def started_def Let_def not_le [symmetric])

lemma disk_frame:
  assumes "t = s\<lparr>dk := d, dk_hist := h\<rparr>"
  shows "bc_bufs t = bc_bufs s" "k_held t = k_held s" "pt_procs t = pt_procs s" "pt_cur t = pt_cur s"
    "sl_locked t = sl_locked s" "id_queue t = id_queue s" "id_havedisk1 t = id_havedisk1 s"
  using assms by simp_all

section \<open>Queueing a request\<close>

lemma ide_iderw_queues:
  assumes "k_held s = {}" "sl_locked s (BufSleep b)" "b_dev (bc_bufs s b) = 0 \<or> id_havedisk1 s"
    and "\<not> (b_valid (bc_bufs s b) \<and> \<not> b_dirty (bc_bufs s b))" "b_blockno (bc_bufs s b) < FSSIZE"
    and "pt_cur s = Some p" "b \<notin> set (id_queue s)" "dk s = started (id_queue s) (bc_bufs s, d)"
  shows "\<exists>t. ide_iderw b s = Sleep t \<and> id_queue t = id_queue s @ [b] \<and> bc_bufs t = bc_bufs s \<and>
    dk t = started (id_queue t) (bc_bufs t, d) \<and> k_held t = {PtableLock} \<and>
    p_state (pt_procs t p) = SLEEPING \<and> p_chan (pt_procs t p) = Some (ChanBuf b) \<and>
    (\<forall>q. q \<noteq> p \<longrightarrow> pt_procs t q = pt_procs s q) \<and> sl_locked t = sl_locked s \<and> id_havedisk1 t = id_havedisk1 s"
proof -
  define s1 where "s1 = s\<lparr>k_held := {IdeLock}, id_queue := id_queue s @ [b]\<rparr>"
  obtain s2 where s2: "whenK (hd (id_queue s1) = b) (idestart (Some b)) s1 = Ret () s2" "dk s2 = started (id_queue s1) (bc_bufs s, d)"
    "id_queue s2 = id_queue s1" "bc_bufs s2 = bc_bufs s" "k_held s2 = {IdeLock}" "pt_procs s2 = pt_procs s" "pt_cur s2 = pt_cur s"
    "sl_locked s2 = sl_locked s" "id_havedisk1 s2 = id_havedisk1 s"
  proof (cases "id_queue s")
    case Nil
    obtain t where t: "idestart (Some b) s1 = Ret () t" "dk t = started [b] (bc_bufs s1, dk s1)"
      "t = s1\<lparr>dk := dk t, dk_hist := dk_hist t\<rparr>"
      using assms(5) by (rule_tac idestart_eq [of s1 b "[]"]) (simp_all add: s1_def)
    have "dk s1 = d" using assms(8) Nil by (simp add: s1_def started_def)
    then show ?thesis using that [of t] t disk_frame [OF t(3)] Nil by (simp add: s1_def kop_simps)
  next
    case (Cons c q)
    then have "c \<noteq> b" using assms(7) by auto
    then show ?thesis using that [of s1] Cons assms(8) by (simp add: s1_def started_def kop_simps)
  qed
  have "ide_iderw b s = sleep (ChanBuf b) (Some IdeLock) s2"
    using assms(1-4) s2(1,4) by (auto simp: ide_iderw_def kop_simps s1_def [symmetric] ide_wait_def)
  then show ?thesis
    using s2 assms(6) by (simp add: sleep_eq s1_def upd_proc_def)
qed

section \<open>Interrupts\<close>

lemma ideintr_serves:
  assumes "k_held s = {}" "id_queue s = b # q" "b \<notin> set q" "\<forall>c \<in> set q. b_blockno (bc_bufs s c) < FSSIZE"
    and "dk s = started (b # q) (bc_bufs s, d)" "mem_rw b (bc_bufs s, d) = (B', d')"
  shows "\<exists>t. ideintr True s = Ret () t \<and> id_queue t = q \<and> k_held t = {} \<and> bc_bufs t = B' \<and> dk t = started q (B', d') \<and>
    pt_procs t = pt_procs (wake_all (ChanBuf b) s)"
proof -
  define s' where "s' = s\<lparr>k_held := {IdeLock}, id_queue := q\<rparr>"
  define s0 where "s0 = s'\<lparr>bc_bufs := B'\<rparr>"
  define s1 where "s1 = wake_all (ChanBuf b) s0"
  have s0: "upd_buf b (\<lambda>B. B\<lparr>b_valid := True, b_dirty := False\<rparr>)
    (if \<not> b_dirty (bc_bufs s' b) \<and> True then upd_buf b (\<lambda>B. B\<lparr>b_data := dk s' (unat (b_blockno B))\<rparr>) s' else s') = s0"
  proof (cases "b_dirty (bc_bufs s b)")
    case False
    have f: "(bc_bufs s b)\<lparr>b_data := x, b_valid := True, b_dirty := False\<rparr> = (bc_bufs s b)\<lparr>b_data := x, b_valid := True\<rparr>" for x
      using False by (cases "bc_bufs s b") simp
    have b: "bc_bufs s' = bc_bufs s" "dk s' = dk s" by (simp_all add: s'_def)
    have "dk s = d" "B' = (bc_bufs s)(b := (bc_bufs s b)\<lparr>b_data := d (unat (b_blockno (bc_bufs s b))), b_valid := True\<rparr>)"
      using False assms(5,6) by (auto simp: mem_rw_def started_def)
    then show ?thesis using False by (simp add: b f s0_def upd_buf_def)
  next
    case True
    have b: "bc_bufs s' = bc_bufs s" by (simp add: s'_def)
    have "B' = (bc_bufs s)(b := (bc_bufs s b)\<lparr>b_dirty := False, b_valid := True\<rparr>)"
      using True assms(6) by (auto simp: mem_rw_def)
    moreover have "(bc_bufs s b)\<lparr>b_dirty := False, b_valid := True\<rparr> = (bc_bufs s b)\<lparr>b_valid := True, b_dirty := False\<rparr>" by simp
    ultimately show ?thesis using True by (simp add: b s0_def upd_buf_def)
  qed
  have w: "wakeup (ChanBuf b) s0 = Ret () s1" by (simp add: s1_def wakeup_eq s0_def s'_def wake_all_def)
  have dk0: "dk s = d'" using assms(5,6) by (simp add: started_def mem_rw_def split: if_splits)
  have dk: "dk s1 = d'" "bc_bufs s1 = B'" "k_held s1 = {IdeLock}" "id_queue s1 = q" "pt_procs s1 = pt_procs (wake_all (ChanBuf b) s)"
    by (simp_all add: s1_def s0_def s'_def wake_all_def dk0 cong: if_cong)
  have step: "ideintr True s = seqK (case q of [] \<Rightarrow> retK () | c # _ \<Rightarrow> idestart (Some c)) (release IdeLock) s1"
  proof -
    have b: "bc_bufs s' = bc_bufs s" "dk s' = dk s" by (simp_all add: s'_def)
    show ?thesis using assms(1,2) s0 w
      by (cases "b_dirty (bc_bufs s b)") (simp_all add: ideintr_def kop_simps s'_def [symmetric] b)
  qed
  show ?thesis
  proof (cases q)
    case (Cons c q')
    then have "c \<noteq> b" "b_blockno (bc_bufs s c) < FSSIZE" using assms(3,4) by auto
    then have "b_blockno (B' c) < FSSIZE" using mem_rw_other [of c b "(bc_bufs s, d)"] assms(6) by simp
    then obtain t where t: "idestart (Some c) s1 = Ret () t" "dk t = started (c # q') (bc_bufs s1, dk s1)"
      "t = s1\<lparr>dk := dk t, dk_hist := dk_hist t\<rparr>"
      using idestart_eq [of s1 c "q'"] dk(2) by metis
    then show ?thesis using step dk Cons disk_frame [OF t(3)] by (simp add: kop_simps)
  qed (simp add: kop_simps started_def dk step)
qed

section \<open>The whole queue\<close>

lemma ide_serves:
  assumes "k_held s = {}" "id_queue s = bs" "distinct bs" "\<forall>b \<in> set bs. b_blockno (bc_bufs s b) < FSSIZE"
    and "dk s = started bs (bc_bufs s, d)"
  shows "\<exists>t. forK bs (\<lambda>_. ideintr True) s = Ret () t \<and> id_queue t = [] \<and> k_held t = {} \<and>
    (bc_bufs t, dk t) = fold mem_rw bs (bc_bufs s, d) \<and>
    (\<forall>p < NPROC. p_state (pt_procs s p) = RUNNABLE \<or>
       p_state (pt_procs s p) = SLEEPING \<and> (\<exists>b \<in> set bs. p_chan (pt_procs s p) = Some (ChanBuf b)) \<longrightarrow>
       p_state (pt_procs t p) = RUNNABLE)"
  using assms
proof (induction bs arbitrary: s d)
  case Nil
  then show ?case by (auto simp: kop_simps started_def)
next
  case (Cons b q)
  obtain B' d' where m: "mem_rw b (bc_bufs s, d) = (B', d')" by (cases "mem_rw b (bc_bufs s, d)")
  obtain u where u: "ideintr True s = Ret () u" "id_queue u = q" "k_held u = {}" "bc_bufs u = B'" "dk u = started q (B', d')"
    "pt_procs u = pt_procs (wake_all (ChanBuf b) s)"
    using ideintr_serves [OF Cons.prems(1,2) _ _ Cons.prems(5) m] Cons.prems(3,4) by auto
  have "b_blockno (bc_bufs u c) < FSSIZE" if "c \<in> set q" for c
  proof -
    have "c \<noteq> b" using that Cons.prems(3) by auto
    then show ?thesis using mem_rw_other [of c b "(bc_bufs s, d)"] m u(4) that Cons.prems(4) by simp
  qed
  then obtain t where t: "forK q (\<lambda>_. ideintr True) u = Ret () t" "id_queue t = []" "k_held t = {}"
    "(bc_bufs t, dk t) = fold mem_rw q (B', d')"
    "\<forall>p < NPROC. p_state (pt_procs u p) = RUNNABLE \<or>
       p_state (pt_procs u p) = SLEEPING \<and> (\<exists>b \<in> set q. p_chan (pt_procs u p) = Some (ChanBuf b)) \<longrightarrow>
       p_state (pt_procs t p) = RUNNABLE"
    using Cons.IH [OF u(3,2), of d'] u(4,5) Cons.prems(3) by auto
  have "forK (b # q) (\<lambda>_. ideintr True) s = Ret () t" using u(1) t(1) by (simp add: kop_simps)
  moreover have "(bc_bufs t, dk t) = fold mem_rw (b # q) (bc_bufs s, d)" using t(4) m by simp
  moreover have "p_state (pt_procs t p) = RUNNABLE" if "p < NPROC" "p_state (pt_procs s p) = RUNNABLE \<or>
       p_state (pt_procs s p) = SLEEPING \<and> (\<exists>b \<in> set (b # q). p_chan (pt_procs s p) = Some (ChanBuf b))" for p
    using t(5) [rule_format, OF that(1)] that by (auto simp: u(6) wake_all_def wake_proc_def)
  ultimately show ?case using t(2,3) by blast
qed

lemma memide_serves:
  assumes "k_held a = {}" "distinct bs"
    and "\<forall>b \<in> set bs. sl_locked a (BufSleep b) \<and> b_dev (bc_bufs a b) = 1 \<and> b_blockno (bc_bufs a b) < dk_size a \<and>
      \<not> (b_valid (bc_bufs a b) \<and> \<not> b_dirty (bc_bufs a b))"
  shows "\<exists>t. forK bs iderw a = Ret () t \<and> (bc_bufs t, dk t) = fold mem_rw bs (bc_bufs a, dk a)"
  using assms
proof (induction bs arbitrary: a)
  case (Cons b q)
  then obtain u where u: "iderw b a = Ret () u" "(bc_bufs u, dk u) = mem_rw b (bc_bufs a, dk a)" "k_held u = {}"
    "sl_locked u = sl_locked a" "dk_size u = dk_size a"
    using iderw_mem [of a b] by auto
  have "bc_bufs u c = bc_bufs a c" if "c \<in> set q" for c
  proof -
    have "c \<noteq> b" using that Cons.prems(2) by auto
    then show ?thesis using mem_rw_other [of c b "(bc_bufs a, dk a)"] by (simp add: u(2) [symmetric])
  qed
  then have "\<exists>t. forK q iderw u = Ret () t \<and> (bc_bufs t, dk t) = fold mem_rw q (bc_bufs u, dk u)"
    using Cons.IH [OF u(3)] Cons.prems(2,3) u(4,5) by simp
  then show ?case using u(1,2) by (auto simp: kop_simps)
qed (simp add: kop_simps)

text \<open>
  C17. The interrupt driver is equivalent to the synchronous one: with any queue of pending requests whose first has been
  started, one interrupt per request empties the queue, wakes every process that waits for one of
  the buffers, and leaves the buffers and the disk exactly as the calls of memide.c's iderw for the same
  requests, one after the other.\<close>

theorem ide_equals_memide:
  fixes s :: "'z ide_scheme" and a :: "'y bio_scheme"
  assumes "k_held s = {}" "id_queue s = bs" "distinct bs" "dk s = started bs (bc_bufs s, dk a)"
    and "k_held a = {}" "bc_bufs a = bc_bufs s"
    and "\<forall>b \<in> set bs. sl_locked a (BufSleep b) \<and> b_dev (bc_bufs a b) = 1 \<and> b_blockno (bc_bufs a b) < min FSSIZE (dk_size a) \<and>
      \<not> (b_valid (bc_bufs a b) \<and> \<not> b_dirty (bc_bufs a b))"
  shows "\<exists>t u. forK bs (\<lambda>_. ideintr True) s = Ret () t \<and> forK bs iderw a = Ret () u \<and>
    bc_bufs t = bc_bufs u \<and> dk t = dk u \<and> id_queue t = [] \<and>
    (\<forall>p < NPROC. \<forall>b \<in> set bs. p_state (pt_procs s p) = SLEEPING \<and> p_chan (pt_procs s p) = Some (ChanBuf b) \<longrightarrow>
       p_state (pt_procs t p) = RUNNABLE)"
proof -
  have "\<forall>b \<in> set bs. b_blockno (bc_bufs s b) < FSSIZE" using assms(6,7) by simp
  from ide_serves [OF assms(1-3) this assms(4)] obtain t where t: "forK bs (\<lambda>_. ideintr True) s = Ret () t" "id_queue t = []"
    "(bc_bufs t, dk t) = fold mem_rw bs (bc_bufs s, dk a)"
    "\<forall>p < NPROC. p_state (pt_procs s p) = RUNNABLE \<or>
       p_state (pt_procs s p) = SLEEPING \<and> (\<exists>b \<in> set bs. p_chan (pt_procs s p) = Some (ChanBuf b)) \<longrightarrow>
       p_state (pt_procs t p) = RUNNABLE" by blast
  obtain u where u: "forK bs iderw a = Ret () u" "(bc_bufs u, dk u) = fold mem_rw bs (bc_bufs a, dk a)"
    using memide_serves [OF assms(5,3)] assms(7) by auto
  have "bc_bufs t = bc_bufs u" "dk t = dk u" using t(3) u(2) assms(6) by (metis prod.inject)+
  then show ?thesis using t u by blast
qed

text \<open>Two requests, a write of block 7 by process 0 and a read of it by process 1.\<close>

definition two_bufs :: "nat \<Rightarrow> buf" where
  "two_bufs b = \<lparr>b_valid = b = 0, b_dirty = b = 0, b_dev = 1, b_blockno = 7, b_refcnt = 1, b_data = (\<lambda>_. if b = 0 then 9 else 0)\<rparr>"

definition two_requests :: ide where
  "two_requests = bio.extend (sleepst.extend
     (boot_sleep\<lparr>sl_locked := (\<lambda>_. True), pt_cur := Some 0\<rparr>)
     (bio.fields two_bufs [0..<NBUF] (\<lambda>_ _. 0) 1000 []))
     (ide.fields [] True)"

lemma two_requests_simps [simp]:
  "k_held two_requests = {}" "id_queue two_requests = []" "bc_bufs two_requests = two_bufs" "dk two_requests = (\<lambda>_ _. 0)"
  "sl_locked two_requests = (\<lambda>_. True)" "pt_cur two_requests = Some 0" "id_havedisk1 two_requests" "dk_size two_requests = 1000"
  by (simp_all add: two_requests_def bio.defs sleepst.defs ide.defs)

theorem ide_equals_memide_witness:
  "\<exists>s1 s2 t. ide_iderw 0 two_requests = Sleep s1 \<and> ide_iderw 1 (s1\<lparr>k_held := {}, pt_cur := Some 1\<rparr>) = Sleep s2 \<and>
     forK [0, 1] (\<lambda>_. ideintr True) (s2\<lparr>k_held := {}\<rparr>) = Ret () t \<and> b_data (bc_bufs t 1) 5 = 9 \<and> p_state (pt_procs t 1) = RUNNABLE"
proof -
  let ?z = "(\<lambda>_ _. 0) :: disk"
  obtain s1 where s1: "ide_iderw 0 two_requests = Sleep s1" "id_queue s1 = [0]" "bc_bufs s1 = two_bufs"
    "dk s1 = started [0] (two_bufs, ?z)" "sl_locked s1 = (\<lambda>_. True)" "id_havedisk1 s1"
    using ide_iderw_queues [of two_requests 0 0 ?z] by (auto simp: two_bufs_def started_def)
  obtain s2 where s2: "ide_iderw 1 (s1\<lparr>k_held := {}, pt_cur := Some 1\<rparr>) = Sleep s2" "id_queue s2 = [0, 1]" "bc_bufs s2 = two_bufs"
    "dk s2 = started [0, 1] (two_bufs, ?z)" "p_state (pt_procs s2 1) = SLEEPING" "p_chan (pt_procs s2 1) = Some (ChanBuf 1)"
    using ide_iderw_queues [of "s1\<lparr>k_held := {}, pt_cur := Some 1\<rparr>" 1 1 ?z] s1 by (auto simp: two_bufs_def)
  obtain t u where t: "forK [0, 1] (\<lambda>_. ideintr True) (s2\<lparr>k_held := {}\<rparr>) = Ret () t" "forK [0, 1] iderw two_requests = Ret () u"
    "bc_bufs t = bc_bufs u" "p_state (pt_procs t 1) = RUNNABLE"
    using ide_equals_memide [of "s2\<lparr>k_held := {}\<rparr>" "[0, 1]" two_requests] s2 by (auto simp: two_bufs_def)
  have "b_data (bc_bufs u 1) 5 = 9"
    using memide_serves [of two_requests "[0, 1]"] t(2) by (auto simp: two_bufs_def mem_rw_def)
  then show ?thesis using s1(1) s2(1) t by auto
qed

end
