(* ===== verification/Log_Reserve.thy ===== *)
theory Log_Reserve
  imports Log
begin

text \<open>
  The reservation of log space: \<^verbatim>\<open>begin_op\<close> lets a file system call in when the log has room for what all calls inside may write, and
  in every run of calls that keep to their limit of \<^verbatim>\<open>MAXOPBLOCKS\<close> blocks the log does not overflow.
\<close>

section \<open>Operations that leave a part of the state alone\<close>

definition steady :: "('s \<Rightarrow> 'v) \<Rightarrow> ('s, 'a) kop \<Rightarrow> bool" where
  "steady v m \<longleftrightarrow> (\<forall>s. ends UNIV (\<lambda>t. v t = v s) (\<lambda>_ t. v t = v s) (m s))"

lemma steadyD: "steady v m \<Longrightarrow> m s = Ret a t \<Longrightarrow> v t = v s"
  unfolding steady_def by (drule spec [of _ s]) simp

lemma steady_sleepD: "steady v m \<Longrightarrow> m s = Sleep t \<Longrightarrow> v t = v s"
  unfolding steady_def by (drule spec [of _ s]) simp

lemma steadyI: "(\<And>s. ends UNIV (\<lambda>t. v t = v s) (\<lambda>_ t. v t = v s) (m s)) \<Longrightarrow> steady v m"
  by (simp add: steady_def)

named_theorems steady_intros \<open>operations that leave a part of the state alone\<close>

lemma steady_bindK [steady_intros]:
  assumes "steady v m" "\<And>a. steady v (f a)"
  shows "steady v (bindK m f)"
proof (rule steadyI, rule ends_bindK)
  fix s
  have "ends UNIV (\<lambda>t. v t = v s) (\<lambda>_ t. v t = v s) (m s)" using assms(1) by (simp add: steady_def)
  then show "ends UNIV (\<lambda>t. v t = v s) (\<lambda>a s'. ends UNIV (\<lambda>t. v t = v s) (\<lambda>_ t. v t = v s) (f a s')) (m s)"
  proof (rule ends_weaken)
    fix a t assume t: "v t = v s"
    have "ends UNIV (\<lambda>u. v u = v t) (\<lambda>_ u. v u = v t) (f a t)" using assms(2) by (simp add: steady_def)
    then show "ends UNIV (\<lambda>u. v u = v s) (\<lambda>_ u. v u = v s) (f a t)" by (simp only: t)
  qed auto
qed

lemma steady_seqK [steady_intros]: "steady v m \<Longrightarrow> steady v n \<Longrightarrow> steady v (seqK m n)"
  unfolding seqK_def by (rule steady_bindK)

lemma steady_basic [steady_intros]:
  "steady v (retK a)" "steady v (panic e)" "steady v (getK g)" "(\<And>s. v (f s) = v s) \<Longrightarrow> steady v (modifyK f)"
  by (simp_all add: steady_def kop_simps)

lemma steady_whenK [steady_intros]: "steady v m \<Longrightarrow> steady v (whenK b m)"
  by (simp add: steady_def kop_simps)

lemma steady_state: "(\<And>x. steady v (m x)) \<Longrightarrow> steady v (\<lambda>s. m (f s) s)"
  by (simp add: steady_def)

lemma steady_if [steady_intros]:
  "steady v m \<Longrightarrow> steady v n \<Longrightarrow> steady v (\<lambda>s. if P s then m s else n s)" "steady v m \<Longrightarrow> steady v n \<Longrightarrow> steady v (if b then m else n)"
  by (simp_all add: steady_def)

lemma steady_option [steady_intros]:
  "steady v m \<Longrightarrow> (\<And>x. steady v (n x)) \<Longrightarrow> steady v (\<lambda>s. case f s of None \<Rightarrow> m s | Some x \<Rightarrow> n x s)"
  by (simp add: steady_def split: option.split)

lemma steady_forK [steady_intros]: "(\<And>i. steady v (body i)) \<Longrightarrow> steady v (forK is body)"
  by (induction "is") (simp_all add: steady_intros)

text \<open>The layers below the log leave it alone.\<close>

lemma steady_locks [steady_intros]:
  "steady bio.more (acquire l)" "steady bio.more (release l)"
  by (simp_all add: steady_def acquire_def release_def)

lemma steady_sleep [steady_intros]: "steady bio.more (sleep c lk)"
  unfolding sleep_def sched_def myproc_def set_state_def
  by (intro steady_intros) (auto simp: steady_def kop_simps derefK_def acquire_def release_def upd_proc_def split: option.splits)

lemma steady_wakeup [steady_intros]: "steady bio.more (wakeup c)" "steady bio.more (wakeup1 c)"
  unfolding wakeup_def wakeup1_def by (intro steady_intros; simp add: upd_proc_def)+

lemma steady_sleeplock [steady_intros]:
  "steady bio.more (acquiresleep l)" "steady bio.more (releasesleep l)" "steady bio.more (holdingsleep l)"
proof -
  have "steady bio.more (\<lambda>s. derefK (pt_cur s) (\<lambda>p s. Ret () (upd_sl l True (p_pid (pt_procs s p)) s)) s)"
    by (simp add: steady_def derefK_def kop_simps upd_sl_def split: option.split)
  then show "steady bio.more (acquiresleep l)" unfolding acquiresleep_def acquiresleep_loop_def by (intro steady_intros)
  show "steady bio.more (releasesleep l)" unfolding releasesleep_def by (intro steady_intros) (simp add: upd_sl_def)
  show "steady bio.more (holdingsleep l)" unfolding holdingsleep_def by (intro steady_intros)
qed

lemma steady_iderw [steady_intros]: "steady bio.more (iderw b)"
proof -
  have "steady bio.more (\<lambda>s. let B = bc_bufs s b in
      if b_valid B \<and> \<not> b_dirty B then Panic ''iderw: nothing to do''
      else if b_dev B \<noteq> 1 then Panic ''iderw: request not for disk 1''
      else if b_blockno B \<ge> dk_size s then Panic ''iderw: block out of range''
      else if b_dirty B
      then Ret () (upd_buf b (\<lambda>B. B\<lparr>b_dirty := False, b_valid := True\<rparr>)
             (s\<lparr>dk_hist := dk s # dk_hist s, dk := (dk s)(unat (b_blockno B) := b_data B)\<rparr>))
      else Ret () (upd_buf b (\<lambda>B. B\<lparr>b_data := dk s (unat (b_blockno B)), b_valid := True\<rparr>) s))"
    by (simp add: steady_def Let_def upd_buf_def)
  then show ?thesis unfolding iderw_def by (intro steady_intros)
qed

lemma steady_bget [steady_intros]: "steady bio.more (bget dev n)"
  unfolding bget_def by (intro steady_intros) (simp_all add: upd_buf_def steady_def)

lemma steady_bio [steady_intros]:
  "steady bio.more (bread dev n)" "steady bio.more (bwrite b)" "steady bio.more (brelse b)"
proof -
  have "steady bio.more (\<lambda>s. whenK (\<not> b_valid (bc_bufs s b)) (iderw b) s)" for b
    by (rule steady_state [of _ "\<lambda>x. whenK x (iderw b)"]) (intro steady_intros)
  then show "steady bio.more (bread dev n)" unfolding bread_def by (intro steady_intros)
  show "steady bio.more (bwrite b)" unfolding bwrite_def by (intro steady_intros) (simp add: upd_buf_def)
  have "steady bio.more (\<lambda>s. whenK (b_refcnt (bc_bufs s b) = 0) (modifyK (\<lambda>s. s\<lparr>bc_list := b # remove1 b (bc_list s)\<rparr>)) s)"
    by (rule steady_state [of _ "\<lambda>x. whenK x (modifyK (\<lambda>s. s\<lparr>bc_list := b # remove1 b (bc_list s)\<rparr>))"]) (intro steady_intros, simp)
  then show "steady bio.more (brelse b)" unfolding brelse_def by (intro steady_intros) (simp_all add: upd_buf_def)
qed

section \<open>The log itself\<close>

text \<open>The part of the log that the reservation is about.\<close>

definition lgs :: "'z log_scheme \<Rightarrow> int \<times> int \<times> int" where
  "lgs s = (lg_n s, lg_outstanding s, lg_size s)"

lemma more_lgs: "bio.more t = bio.more s \<Longrightarrow> lgs t = lgs s" for s :: "'z log_scheme"
  by (cases s; cases t) (simp add: lgs_def)

lemma steady_lgs: "steady bio.more m \<Longrightarrow> steady lgs m" for m :: "('z log_scheme, 'a) kop"
  unfolding steady_def
proof
  fix s :: "'z log_scheme"
  assume "\<forall>s. ends UNIV (\<lambda>t. bio.more t = bio.more s) (\<lambda>_ t. bio.more t = bio.more s) (m s)"
  then have "ends UNIV (\<lambda>t. bio.more t = bio.more s) (\<lambda>_ t. bio.more t = bio.more s) (m s)" ..
  then show "ends UNIV (\<lambda>t. lgs t = lgs s) (\<lambda>_ t. lgs t = lgs s) (m s)" by (rule ends_weaken) (auto intro: more_lgs)
qed

lemma steady_commit_parts:
  "steady lgs (write_log :: ('z log_scheme, unit) kop)" "steady lgs (write_head :: ('z log_scheme, unit) kop)"
  "steady lgs (install_trans :: ('z log_scheme, unit) kop)"
proof -
  have rd: "steady lgs (\<lambda>s. bread (f s) (g s) s)" for f g :: "'z log_scheme \<Rightarrow> uint"
    by (rule steady_state [of _ "\<lambda>x. bread (fst x) (snd x)" "\<lambda>s. (f s, g s)", simplified]) (intro steady_lgs steady_intros)
  have md: "steady lgs (modifyK (\<lambda>s. set_data (b s) (d s) s))" for b and d :: "'z log_scheme \<Rightarrow> stream"
    by (intro steady_intros more_lgs) (simp add: set_data_def upd_buf_def)
  have one: "steady lgs (write_log_one k :: ('z log_scheme, unit) kop)" "steady lgs (install_one k :: ('z log_scheme, unit) kop)" for k
    unfolding write_log_one_def install_one_def
    by (intro steady_bindK steady_seqK rd md steady_lgs steady_bio)+
  show "steady lgs (write_log :: ('z log_scheme, unit) kop)" "steady lgs (install_trans :: ('z log_scheme, unit) kop)"
    unfolding write_log_def install_trans_def by (rule steady_state, intro steady_intros one)+
  show "steady lgs (write_head :: ('z log_scheme, unit) kop)"
    unfolding write_head_def by (intro steady_bindK steady_seqK rd md steady_lgs steady_bio)
qed

lemma commit_lgs:
  assumes "commit s = Ret () t" "0 \<le> lg_n s"
  shows "lg_n t \<le> lg_n s \<and> 0 \<le> lg_n t \<and> lg_outstanding t = lg_outstanding s \<and> lg_size t = lg_size s"
proof (cases "lg_n s > 0")
  case True
  from assms(1) obtain a b c where r: "write_log s = Ret () a" "write_head a = Ret () b" "install_trans b = Ret () c"
    "write_head (c\<lparr>lg_n := 0\<rparr>) = Ret () t"
    using True by (auto simp: commit_def kop_simps split: outcome.splits)
  have "lgs c = lgs s"
    using steadyD [OF steady_commit_parts(1) r(1)] steadyD [OF steady_commit_parts(2) r(2)] steadyD [OF steady_commit_parts(3) r(3)] by simp
  moreover have "lgs t = lgs (c\<lparr>lg_n := 0\<rparr>)" by (rule steadyD [OF steady_commit_parts(2) r(4)])
  ultimately show ?thesis using assms(2) by (simp add: lgs_def)
next
  case False
  then show ?thesis using assms by (simp add: commit_def kop_simps)
qed

lemma sleep_never_returns: "sleep c lk s \<noteq> Ret a t"
  by (auto simp: sleep_def sched_def kop_simps derefK_def myproc_def split: option.splits outcome.splits if_splits)

lemma steady_sleep_wake: "steady bio.more (sleep_wake lk)"
  unfolding sleep_wake_def derefK_def myproc_def
  by (intro steady_bindK steady_basic) (auto split: option.split intro!: steady_intros simp: upd_proc_def)

lemma begin_op_loop_ret:
  assumes "begin_op_loop s = Ret () t"
  shows "lg_n s + (lg_outstanding s + 1) * MAXOPBLOCKS \<le> LOGSIZE \<and> lgs t = (lg_n s, lg_outstanding s + 1, lg_size s)"
  using assms by (auto simp: begin_op_loop_def kop_simps release_def lgs_def sleep_never_returns split: if_splits)

lemma begin_op_loop_sleep:
  assumes "begin_op_loop s = Sleep t"
  shows "lgs t = lgs s"
proof -
  have "(sleep ChanLog (Some LogLock) s :: (_, unit) outcome) = Sleep t"
    using assms by (auto simp: begin_op_loop_def kop_simps release_def split: if_splits)
  then show ?thesis by (rule steady_sleepD [OF steady_lgs [OF steady_sleep]])
qed

lemmas steady_before_loop = steadyD [OF steady_lgs [OF steady_locks(1)]] steadyD [OF steady_lgs [OF steady_sleep_wake]]
  steady_sleepD [OF steady_lgs [OF steady_locks(1)]] steady_sleepD [OF steady_lgs [OF steady_sleep_wake]]

lemma begin_op_lgs:
  assumes "begin_op s = Ret () t \<or> begin_op_wake s = Ret () t"
  shows "lg_n s + (lg_outstanding s + 1) * MAXOPBLOCKS \<le> LOGSIZE \<and> lgs t = (lg_n s, lg_outstanding s + 1, lg_size s)"
proof -
  from assms obtain u where u: "acquire LogLock s = Ret () u \<or> sleep_wake LogLock s = Ret () u" "begin_op_loop u = Ret () t"
    by (auto simp: begin_op_def begin_op_wake_def kop_simps split: outcome.splits)
  then have "lgs u = lgs s" using steady_before_loop(1,2) by blast
  then show ?thesis using begin_op_loop_ret [OF u(2)] by (simp add: lgs_def)
qed

lemma begin_op_sleep_lgs:
  assumes "begin_op s = Sleep t \<or> begin_op_wake s = Sleep t"
  shows "lgs t = lgs s"
proof -
  from assms consider "acquire LogLock s = Sleep t \<or> sleep_wake LogLock s = Sleep t"
    | u where "acquire LogLock s = Ret () u \<or> sleep_wake LogLock s = Ret () u" "begin_op_loop u = Sleep t"
    by (auto simp: begin_op_def begin_op_wake_def kop_simps split: outcome.splits)
  then show ?thesis
  proof cases
    case 1
    then show ?thesis using steady_before_loop(3,4) by blast
  next
    case 2
    then have "lgs u = lgs s" using steady_before_loop(1,2) by blast
    then show ?thesis using begin_op_loop_sleep [OF 2(2)] by simp
  qed
qed

lemma end_op_lgs:
  assumes "end_op s = Ret () t" "0 \<le> lg_n s"
  shows "lg_n t \<le> lg_n s \<and> 0 \<le> lg_n t \<and> lg_outstanding t = lg_outstanding s - 1 \<and> lg_size t = lg_size s"
proof -
  have wk: "wakeup ChanLog a = Ret () b \<Longrightarrow> lgs b = lgs a" for a b :: "'a log_scheme"
    by (rule steadyD [OF steady_lgs [OF steady_wakeup(1)]])
  have rl: "release LogLock a = Ret () b \<Longrightarrow> lgs b = lgs a" for a b :: "'a log_scheme"
    by (rule steadyD [OF steady_lgs [OF steady_locks(2)]])
  have aq: "acquire LogLock a = Ret () b \<Longrightarrow> lgs b = lgs a" for a b :: "'a log_scheme"
    by (rule steadyD [OF steady_lgs [OF steady_locks(1)]])
  obtain v where v: "acquire LogLock s = Ret () v"
    using assms(1) by (auto simp: end_op_def kop_simps split: outcome.splits)
  have vs: "lgs v = lgs s" by (rule aq [OF v])
  show ?thesis
  proof (cases "lg_outstanding v = 1")
    case True
    from assms(1) v True obtain a b c d where r: "release LogLock (v\<lparr>lg_outstanding := 0, lg_committing := True\<rparr>) = Ret () a"
      "commit a = Ret () b" "acquire LogLock b = Ret () c" "wakeup ChanLog (c\<lparr>lg_committing := False\<rparr>) = Ret () d" "release LogLock d = Ret () t"
      by (auto simp: end_op_def kop_simps split: outcome.splits if_splits)
    have "lgs a = (lg_n s, 0, lg_size s)" using rl [OF r(1)] vs by (simp add: lgs_def)
    moreover have "lgs t = lgs b" using aq [OF r(3)] wk [OF r(4)] rl [OF r(5)] by (simp add: lgs_def)
    ultimately show ?thesis using commit_lgs [OF r(2)] assms(2) vs True by (simp add: lgs_def)
  next
    case False
    from assms(1) v False obtain a where r: "wakeup ChanLog (v\<lparr>lg_outstanding := lg_outstanding v - 1\<rparr>) = Ret () a" "release LogLock a = Ret () t"
      by (auto simp: end_op_def kop_simps split: outcome.splits if_splits)
    then show ?thesis using wk [OF r(1)] rl [OF r(2)] vs assms(2) by (simp add: lgs_def)
  qed
qed

lemma log_write_lgs:
  assumes "log_write b s = Ret () t" "0 \<le> lg_n s"
  shows "lgs t = (if b_blockno (bc_bufs s b) \<in> lg_block s ` {..<nat (lg_n s)} then lg_n s else lg_n s + 1, lg_outstanding s, lg_size s)"
proof -
  define n where "n = b_blockno (bc_bufs s b)"
  have "lgs t = (if int (log_index s n) = lg_n s then lg_n s + 1 else lg_n s, lg_outstanding s, lg_size s)"
    using assms(1) by (auto simp: log_write_def kop_simps acquire_def release_def Let_def lgs_def upd_buf_def n_def split: if_splits)
  moreover have "int (log_index s n) = lg_n s \<longleftrightarrow> n \<notin> lg_block s ` {..<nat (lg_n s)}"
    using log_index_cases [of s n]
  proof (elim disjE conjE)
    assume "log_index s n < nat (lg_n s)" "lg_block s (log_index s n) = n"
    then show ?thesis using assms(2) by force
  qed (use assms(2) in auto)
  ultimately show ?thesis by (auto simp: n_def)
qed

section \<open>Runs of file system calls\<close>

text \<open>
  A run of the log: \<open>us\<close> has an entry for each call that is inside, the number of blocks it has added to the transaction. A
  call enters by \<^verbatim>\<open>begin_op\<close>, at once or when it is woken, or goes to sleep there; a call that has not used up its
  \<^verbatim>\<open>MAXOPBLOCKS\<close> blocks writes any block, one that has writes only blocks that are in the transaction; a call leaves by
  \<^verbatim>\<open>end_op\<close>, with the commit when it is the last. Everything else the kernel does in between leaves the log alone.
\<close>

inductive log_runs :: "'z log_scheme \<Rightarrow> int list \<Rightarrow> bool" where
  start: "lg_n s = 0 \<Longrightarrow> lg_outstanding s = 0 \<Longrightarrow> log_runs s []"
| enter: "log_runs s us \<Longrightarrow> begin_op s = Ret () t \<or> begin_op_wake s = Ret () t \<Longrightarrow> log_runs t (0 # us)"
| wait: "log_runs s us \<Longrightarrow> begin_op s = Sleep t \<or> begin_op_wake s = Sleep t \<Longrightarrow> log_runs t us"
| add: "log_runs s us \<Longrightarrow> k < length us \<Longrightarrow>
    us ! k < MAXOPBLOCKS \<or> b_blockno (bc_bufs s b) \<in> lg_block s ` {..<nat (lg_n s)} \<Longrightarrow> log_write b s = Ret () t \<Longrightarrow>
    log_runs t (us[k := us ! k + (lg_n t - lg_n s)])"
| leave: "log_runs s us \<Longrightarrow> k < length us \<Longrightarrow> end_op s = Ret () t \<Longrightarrow> log_runs t (take k us @ drop (Suc k) us)"
| other: "log_runs s us \<Longrightarrow> lg_n t = lg_n s \<Longrightarrow> lg_outstanding t = lg_outstanding s \<Longrightarrow> lg_block t = lg_block s \<Longrightarrow>
    lg_size t = lg_size s \<Longrightarrow> log_runs t us"

text \<open>The blocks that the calls inside may still add.\<close>

definition allowance :: "int list \<Rightarrow> int" where
  "allowance us = (\<Sum>u \<leftarrow> us. MAXOPBLOCKS - u)"

lemma allowance_at:
  assumes "k < length us"
  shows "allowance us = allowance (take k us @ drop (Suc k) us) + (MAXOPBLOCKS - us ! k)"
    "allowance (us[k := u]) = allowance (take k us @ drop (Suc k) us) + (MAXOPBLOCKS - u)"
proof -
  have "us = take k us @ us ! k # drop (Suc k) us" using assms by (rule id_take_nth_drop)
  then have "allowance us = allowance (take k us @ us ! k # drop (Suc k) us)" by (rule arg_cong)
  then show "allowance us = allowance (take k us @ drop (Suc k) us) + (MAXOPBLOCKS - us ! k)" by (simp add: allowance_def)
  show "allowance (us[k := u]) = allowance (take k us @ drop (Suc k) us) + (MAXOPBLOCKS - u)"
    using assms by (simp add: upd_conv_take_nth_drop allowance_def)
qed

lemma allowance_le: "\<forall>u \<in> set us. 0 \<le> u \<Longrightarrow> allowance us \<le> MAXOPBLOCKS * int (length us)"
  by (induction us) (simp_all add: allowance_def)

lemma allowance_nonneg: "\<forall>u \<in> set us. u \<le> MAXOPBLOCKS \<Longrightarrow> 0 \<le> allowance us"
  by (induction us) (simp_all add: allowance_def)

definition reserved :: "'z log_scheme \<Rightarrow> int list \<Rightarrow> bool" where
  "reserved s us \<longleftrightarrow> 0 \<le> lg_n s \<and> lg_outstanding s = int (length us) \<and> (\<forall>u \<in> set us. 0 \<le> u \<and> u \<le> MAXOPBLOCKS) \<and>
     lg_n s + allowance us \<le> LOGSIZE"

lemma log_runs_reserved: "log_runs s us \<Longrightarrow> reserved s us"
proof (induction rule: log_runs.induct)
  case (start s)
  then show ?case by (simp add: reserved_def allowance_def)
next
  case (enter s us t)
  from begin_op_lgs [OF enter(2)] have t: "lg_n s + (lg_outstanding s + 1) * MAXOPBLOCKS \<le> LOGSIZE" "lg_n t = lg_n s"
    "lg_outstanding t = lg_outstanding s + 1" by (simp_all add: lgs_def)
  have "allowance (0 # us) = MAXOPBLOCKS + allowance us" by (simp add: allowance_def)
  then show ?case using t enter.IH allowance_le [of us] by (auto simp: reserved_def)
next
  case (wait s us t)
  then show ?case using begin_op_sleep_lgs [OF wait(2)] by (simp add: reserved_def lgs_def)
next
  case (add s us k b t)
  have "0 \<le> lg_n s" using add.IH by (simp add: reserved_def)
  note t = log_write_lgs [OF add(4) this]
  have "us ! k \<in> set us" using add(2) by simp
  then have k: "0 \<le> us ! k" "us ! k \<le> MAXOPBLOCKS" using add.IH by (auto simp: reserved_def)
  have "lg_n t + allowance (us[k := us ! k + (lg_n t - lg_n s)]) = lg_n s + allowance us"
    using allowance_at [OF add(2)] by simp
  then show ?case using add.IH t k add(3) by (auto simp: reserved_def lgs_def split: if_splits dest!: set_update_subset_insert [THEN subsetD])
next
  case (leave s us k t)
  have "0 \<le> lg_n s" using leave.IH by (simp add: reserved_def)
  note t = end_op_lgs [OF leave(3) this]
  have "us ! k \<in> set us" using leave(2) by simp
  then have "allowance (take k us @ drop (Suc k) us) \<le> allowance us"
    using allowance_at(1) [OF leave(2)] leave.IH by (auto simp: reserved_def)
  moreover have "set (take k us @ drop (Suc k) us) \<subseteq> set us" using set_take_subset set_drop_subset by fastforce
  ultimately show ?case using leave.IH t leave(2) by (auto simp: reserved_def)
next
  case (other s us t)
  then show ?case by (simp add: reserved_def)
qed


definition idle_log :: log where
  "idle_log = one_write_log\<lparr>lg_n := 0, lg_outstanding := 0, lg_committing := False\<rparr>"


end
