(* ===== verification/Pipe_Fifo.thy ===== *)
theory Pipe_Fifo
  imports Sample_State
begin

text \<open>
  Pipes are first-in first-out queues. A locale states the contract of a bounded ring of bytes with free
  running indices; it is interpreted on the ring of \<^verbatim>\<open>struct pipe\<close>, and the properties of \<^verbatim>\<open>pipewrite\<close> and \<^verbatim>\<open>piperead\<close> rest on it.
\<close>

section \<open>Bounded queues of bytes\<close>

locale byte_ring =
  fixes cap :: nat and inv :: "'q \<Rightarrow> bool" and contents :: "'q \<Rightarrow> uchar list"
    and put :: "uchar \<Rightarrow> 'q \<Rightarrow> 'q" and front :: "'q \<Rightarrow> uchar" and pop :: "'q \<Rightarrow> 'q"
  assumes put: "inv q \<Longrightarrow> length (contents q) < cap \<Longrightarrow> inv (put c q) \<and> contents (put c q) = contents q @ [c]"
    and pop: "inv q \<Longrightarrow> contents q \<noteq> [] \<Longrightarrow> inv (pop q) \<and> contents q = front q # contents (pop q)"
begin

lemma puts:
  assumes "inv q" "length (contents q) + length cs \<le> cap"
  shows "inv (fold put cs q) \<and> contents (fold put cs q) = contents q @ cs"
  using assms
proof (induction cs arbitrary: q)
  case Nil
  then show ?case by simp
next
  case (Cons c cs)
  then have "inv (put c q) \<and> contents (put c q) = contents q @ [c]" by (intro put) auto
  then show ?case using Cons.IH [of "put c q"] Cons.prems(2) by simp
qed

text \<open>Taking \<open>n\<close> bytes off the front.\<close>

lemma pops:
  assumes "inv q" "n \<le> length (contents q)"
  shows "inv ((pop ^^ n) q) \<and> contents ((pop ^^ n) q) = drop n (contents q) \<and>
    map (\<lambda>i. front ((pop ^^ i) q)) [0..<n] = take n (contents q)"
  using assms(2)
proof (induction n)
  case 0
  then show ?case using assms(1) by simp
next
  case (Suc n)
  then have IH: "inv ((pop ^^ n) q)" "contents ((pop ^^ n) q) = drop n (contents q)"
    "map (\<lambda>i. front ((pop ^^ i) q)) [0..<n] = take n (contents q)" by auto
  moreover have "contents ((pop ^^ n) q) \<noteq> []" using IH(2) Suc.prems by simp
  ultimately have p: "inv (pop ((pop ^^ n) q))"
    "contents ((pop ^^ n) q) = front ((pop ^^ n) q) # contents (pop ((pop ^^ n) q))"
    using pop by blast+
  have "front ((pop ^^ n) q) = contents q ! n" "contents (pop ((pop ^^ n) q)) = drop (Suc n) (contents q)"
    using p(2) IH(2) Suc.prems by (metis Cons_nth_drop_Suc Suc_le_lessD list.inject)+
  then show ?case using p(1) IH(3) Suc.prems by (simp add: take_Suc_conv_app_nth)
qed

text \<open>What goes in comes out, in the same order, after what was there before.\<close>

lemma fifo:
  assumes "inv q" "length (contents q) + length cs \<le> cap" "n = length (contents q) + length cs"
  shows "map (\<lambda>i. front ((pop ^^ i) (fold put cs q))) [0..<n] = contents q @ cs"
  using pops [of "fold put cs q" n] puts [OF assms(1,2)] assms(3) by simp

end

section \<open>The ring of a pipe\<close>

definition pipe_ok :: "pipe \<Rightarrow> bool" where
  "pipe_ok x \<longleftrightarrow> unat (pi_nwrite x - pi_nread x) \<le> PIPESIZE"

definition pipe_contents :: "pipe \<Rightarrow> uchar list" where
  "pipe_contents x = map (\<lambda>i. pi_data x (unat (pi_nread x + of_nat i) mod PIPESIZE)) [0..<unat (pi_nwrite x - pi_nread x)]"

definition pipe_pop :: "pipe \<Rightarrow> pipe" where
  "pipe_pop x = x\<lparr>pi_nread := pi_nread x + 1\<rparr>"

text \<open>The indices run over all 32-bit numbers, a multiple of the size of the ring: slots within one window of 512
  indices are different.\<close>

lemma slot_mod: "unat (r + of_nat i :: uint) mod 512 = (unat r + i) mod 512"
proof -
  have "unat (r + of_nat i) = (unat r + i) mod 4294967296"
    by (simp add: unat_word_ariths unat_of_nat mod_simps)
  then show ?thesis by (simp add: mod_mod_cancel)
qed

lemma add_mod_inj:
  assumes "i < m" "j < m" "(a + i) mod m = (a + j) mod (m :: nat)"
  shows "i = j"
proof -
  have *: "i = j" if "i < m" "j \<le> i" "(a + i) mod m = (a + j) mod m" for i j
  proof -
    have "m dvd a + i - (a + j)" using that mod_eq_dvd_iff_nat [of "a + j" "a + i" m] by simp
    then have "m dvd i - j" by simp
    then show ?thesis using that by (auto dest: dvd_imp_le)
  qed
  show ?thesis using * [of i j] * [of j i] assms by (cases "j \<le> i") auto
qed

lemma slot_inj:
  assumes "i < 512" "j < 512" "unat (r + of_nat i :: uint) mod 512 = unat (r + of_nat j :: uint) mod 512"
  shows "i = j"
  using assms add_mod_inj [of i 512 j "unat r"] by (simp only: slot_mod)

lemma pipe_put_contents:
  assumes "pipe_ok x" "length (pipe_contents x) < PIPESIZE"
  shows "pipe_ok (pipe_put c x) \<and> pipe_contents (pipe_put c x) = pipe_contents x @ [c]"
proof -
  define r n where "r = pi_nread x" and "n = unat (pi_nwrite x - r)"
  have n: "n < 512" using assms(2) by (simp add: pipe_contents_def n_def r_def)
  have w: "pi_nwrite x = r + of_nat n" by (simp add: n_def)
  have n': "unat (pi_nwrite x + 1 - r) = Suc n"
  proof -
    have "pi_nwrite x + 1 - r = of_nat (Suc n)" by (simp add: w)
    then show ?thesis using n by (simp only: unat_of_nat32)
  qed
  have "pi_data (pipe_put c x) (unat (r + of_nat i) mod 512) = pi_data x (unat (r + of_nat i) mod 512)" if "i < n" for i
    using slot_inj [of i n r] that n by (auto simp: pipe_put_def w)
  moreover have "pi_data (pipe_put c x) (unat (r + of_nat n) mod 512) = c" by (simp add: pipe_put_def w)
  ultimately have "pipe_contents (pipe_put c x) = pipe_contents x @ [c]"
    using n' by (simp add: pipe_contents_def pipe_put_def n_def [symmetric] r_def [symmetric])
  moreover have "pipe_ok (pipe_put c x)" using n' n by (simp add: pipe_ok_def pipe_put_def r_def)
  ultimately show ?thesis by blast
qed

lemma pipe_pop_contents:
  assumes "pipe_ok x" "pipe_contents x \<noteq> []"
  shows "pipe_ok (pipe_pop x) \<and> pipe_contents x = pipe_get x # pipe_contents (pipe_pop x)"
proof -
  define r n where "r = pi_nread x" and "n = unat (pi_nwrite x - r)"
  have "n \<noteq> 0" using assms(2) by (simp add: pipe_contents_def n_def r_def)
  then obtain k where k: "n = Suc k" by (cases n) auto
  have "pi_nwrite x - r \<noteq> 0" using k n_def by (metis nat.distinct(1) unat_0)
  then have n': "unat (pi_nwrite x - (r + 1)) = k"
    using k unat_minus_one [of "pi_nwrite x - r"] by (simp add: n_def diff_diff_eq)
  have "pipe_contents x = pipe_get x # map (\<lambda>i. pi_data x (unat (r + of_nat (Suc i)) mod 512)) [0..<k]"
    unfolding pipe_contents_def r_def [symmetric] n_def [symmetric] k map_upt_Suc
    by (simp add: pipe_get_def r_def)
  moreover have "map (\<lambda>i. pi_data x (unat (r + of_nat (Suc i)) mod 512)) [0..<k] = pipe_contents (pipe_pop x)"
    using n' by (simp add: pipe_contents_def pipe_pop_def r_def [symmetric] add.assoc)
  moreover have "pipe_ok (pipe_pop x)"
    using n' k assms(1) by (simp add: pipe_ok_def pipe_pop_def r_def [symmetric] n_def [symmetric])
  ultimately show ?thesis by simp
qed

interpretation pipe: byte_ring PIPESIZE pipe_ok pipe_contents pipe_put pipe_get pipe_pop
  by unfold_locales (use pipe_put_contents pipe_pop_contents in blast)+

section \<open>Writing\<close>

declare pipewrite_from.simps [simp del] piperead_copy.simps [simp del]

lemma upd_pipe_simps [simp]:
  "pipes (upd_pipe p f s) = (pipes s)(p := f (pipes s p))" "k_mem (upd_pipe p f s) = k_mem s" "pt_cr3 (upd_pipe p f s) = pt_cr3 s"
  "k_held (upd_pipe p f s) = k_held s" "pt_procs (upd_pipe p f s) = pt_procs s" "pt_cur (upd_pipe p f s) = pt_cur s"
  by (simp_all add: upd_pipe_def)

lemma upd_pipe_upd_pipe [simp]: "upd_pipe p f (upd_pipe p g s) = upd_pipe p (\<lambda>x. f (g x)) s"
  by (simp add: upd_pipe_def)

lemma upd_pipe_id: "f (pipes s p) = pipes s p \<Longrightarrow> upd_pipe p f s = s"
  by (simp add: upd_pipe_def)

lemma cur_addr_cong: "k_mem t = k_mem s \<Longrightarrow> pt_cr3 t = pt_cr3 s \<Longrightarrow> cur_addr t = cur_addr s"
  by (rule ext) (simp add: cur_addr_def)

lemma user_stream_cong: "k_mem t = k_mem s \<Longrightarrow> pt_cr3 t = pt_cr3 s \<Longrightarrow> user_stream t = user_stream s"
  by (rule ext, rule ext) (simp add: user_stream_def cur_addr_def cong: option.case_cong)

lemma user_mapped_cong: "k_mem t = k_mem s \<Longrightarrow> pt_cr3 t = pt_cr3 s \<Longrightarrow> user_mapped t = user_mapped s"
  using cur_addr_cong [of t s] by (simp add: user_mapped_def fun_eq_iff)

lemma length_contents: "pipe_ok x \<Longrightarrow> length (pipe_contents x) = unat (pi_nwrite x - pi_nread x)"
  by (simp add: pipe_contents_def)

lemma full_iff:
  assumes "pipe_ok x"
  shows "pi_nwrite x = pi_nread x + 512 \<longleftrightarrow> length (pipe_contents x) = PIPESIZE"
proof -
  have "pi_nwrite x = pi_nread x + 512 \<longleftrightarrow> pi_nwrite x - pi_nread x = 512" by (auto simp: algebra_simps)
  also have "\<dots> \<longleftrightarrow> unat (pi_nwrite x - pi_nread x) = 512" by (simp add: word_unat_eq_iff)
  finally show ?thesis by (simp add: length_contents [OF assms])
qed

lemma empty_iff: "pipe_ok x \<Longrightarrow> pi_nread x = pi_nwrite x \<longleftrightarrow> pipe_contents x = []"
  by (auto simp: pipe_contents_def unat_eq_zero)

lemma uload_mapped:
  "user_mapped s a n \<Longrightarrow> i < n \<Longrightarrow> uload (a + of_nat i) s = Ret (user_stream s a i) s"
  by (auto simp: user_mapped_def list_all_iff uload_def user_stream_def split: option.split)

text \<open>The part of \<^verbatim>\<open>pipewrite\<close> after the last byte.\<close>

definition pipe_finish :: "chan \<Rightarrow> addr \<Rightarrow> 'z filest_scheme \<Rightarrow> 'z filest_scheme" where
  "pipe_finish c p s = (wake_all c s)\<lparr>k_held := k_held s - {PipeLock p}\<rparr>"

lemma finish_eq:
  assumes "PipeLock p \<in> k_held s" "PtableLock \<notin> k_held s"
  shows "seqK (wakeup c) (seqK (release (PipeLock p)) (retK n)) s = Ret n (pipe_finish c p s)"
  using assms by (simp add: kop_simps wakeup_eq pipe_finish_def wake_all_def cong: if_cong)

lemma pipewrite_from_spec:
  assumes "PipeLock p \<in> k_held s" "PtableLock \<notin> k_held s" "pipe_ok (pipes s p)" "user_mapped s a (nat n)"
    and "0 \<le> i" "i \<le> n" "length (pipe_contents (pipes s p)) + nat (n - i) \<le> PIPESIZE"
  shows "pipewrite_from p a n i s =
    Ret n (pipe_finish (ChanPipeRead p) p (upd_pipe p (fold pipe_put (map (user_stream s a) [nat i..<nat n])) s))"
  using assms
proof (induction "nat (n - i)" arbitrary: i s)
  case 0
  then have "n = i" by simp
  then show ?case using 0 by (subst pipewrite_from.simps) (simp add: finish_eq upd_pipe_id)
next
  case (Suc k)
  then have i: "i < n" "nat (n - (i + 1)) = k" "nat (i + 1) = Suc (nat i)" by auto
  define c where "c = user_stream s a (nat i)"
  define t where "t = upd_pipe p (pipe_put c) s"
  have put: "pipe_ok (pipes t p)" "pipe_contents (pipes t p) = pipe_contents (pipes s p) @ [c]"
    using pipe.put [OF Suc.prems(3), of c] Suc.prems(7) Suc.hyps(2) by (simp_all add: t_def)
  have "length (pipe_contents (pipes s p)) \<noteq> PIPESIZE" using Suc.prems(7) Suc.hyps(2) by linarith
  then have nf: "pi_nwrite (pipes s p) \<noteq> pi_nread (pipes s p) + 512"
    unfolding full_iff [OF Suc.prems(3)] .
  have st: "user_stream t = user_stream s" "user_mapped t a (nat n)"
    using Suc.prems(4) user_stream_cong [of t s] user_mapped_cong [of t s] by (simp_all add: t_def)
  have "uload (a + of_nat (nat i)) s = Ret c s"
    unfolding c_def by (rule uload_mapped [OF Suc.prems(4)]) (use i Suc.prems in simp)
  then have u: "uload (a + word_of_int i) s = Ret c s" using Suc.prems(5) by simp
  have IH: "pipewrite_from p a n (i + 1) t =
    Ret n (pipe_finish (ChanPipeRead p) p (upd_pipe p (fold pipe_put (map (user_stream t a) [nat (i + 1)..<nat n])) t))"
    by (rule Suc.hyps(1)) (use Suc.prems Suc.hyps(2) i put st in \<open>auto simp: t_def\<close>)
  have "map (user_stream s a) [nat i..<nat n] = c # map (user_stream s a) [nat (i + 1)..<nat n]"
    using i Suc.prems(5) by (simp add: c_def upt_conv_Cons)
  then have e: "upd_pipe p (fold pipe_put (map (user_stream t a) [nat (i + 1)..<nat n])) t =
    upd_pipe p (fold pipe_put (map (user_stream s a) [nat i..<nat n])) s"
    unfolding st(1) by (simp add: t_def comp_def)
  have "pipewrite_from p a n i s = pipewrite_from p a n (i + 1) t"
    using i nf u by (subst pipewrite_from.simps) (simp add: kop_simps t_def)
  then show ?case using IH e by simp
qed

lemma pipewrite_spec:
  assumes "k_held s = {}" "pipe_ok (pipes s p)" "user_mapped s a (nat n)" "0 \<le> n"
    and "length (pipe_contents (pipes s p)) + nat n \<le> PIPESIZE"
  shows "\<exists>t. pipewrite p a n s = Ret n t \<and> k_held t = {} \<and> k_mem t = k_mem s \<and> pt_cr3 t = pt_cr3 s \<and>
    pipe_ok (pipes t p) \<and> pipe_contents (pipes t p) = pipe_contents (pipes s p) @ map (user_stream s a) [0..<nat n] \<and>
    pt_procs t = pt_procs (wake_all (ChanPipeRead p) s)"
proof -
  define s1 where "s1 = s\<lparr>k_held := {PipeLock p}\<rparr>"
  have st: "user_stream s1 = user_stream s" "user_mapped s1 a (nat n)"
    using assms(3) user_stream_cong [of s1 s] user_mapped_cong [of s1 s] by (simp_all add: s1_def)
  have "pipewrite_from p a n 0 s1 =
    Ret n (pipe_finish (ChanPipeRead p) p (upd_pipe p (fold pipe_put (map (user_stream s1 a) [nat 0..<nat n])) s1))"
    by (rule pipewrite_from_spec) (use assms st in \<open>simp_all add: s1_def\<close>)
  moreover have "pipewrite p a n s = pipewrite_from p a n 0 s1"
    using assms(1) by (simp add: pipewrite_def kop_simps s1_def)
  moreover have "pipe_ok (fold pipe_put (map (user_stream s a) [0..<nat n]) (pipes s p)) \<and>
    pipe_contents (fold pipe_put (map (user_stream s a) [0..<nat n]) (pipes s p)) =
      pipe_contents (pipes s p) @ map (user_stream s a) [0..<nat n]"
    by (rule pipe.puts) (use assms in auto)
  ultimately show ?thesis by (simp add: pipe_finish_def wake_all_def st(1)) (simp add: s1_def cong: if_cong)
qed

section \<open>Reading\<close>

text \<open>The buffer at \<open>a\<close> is mapped to the kernel addresses \<open>ks\<close>, and no byte of it is part of the page tables that
  map it: whatever is stored there, the translation stays.\<close>

definition user_buffer :: "'z ptable_scheme \<Rightarrow> addr \<Rightarrow> addr list \<Rightarrow> bool" where
  "user_buffer s a ks \<longleftrightarrow> (\<forall>m. (\<forall>x. x \<notin> set ks \<longrightarrow> m x = k_mem s x) \<longrightarrow>
     (\<forall>i < length ks. user_addr m (P2V (pt_cr3 s)) (a + of_nat i) = Some (ks ! i)))"

lemma user_buffer_addr: "user_buffer s a ks \<Longrightarrow> i < length ks \<Longrightarrow> cur_addr s (a + of_nat i) = Some (ks ! i)"
  unfolding user_buffer_def cur_addr_def by blast

lemma user_buffer_mem:
  assumes "user_buffer s a ks" "\<And>x. x \<notin> set ks \<Longrightarrow> k_mem t x = k_mem s x" "pt_cr3 t = pt_cr3 s"
  shows "user_buffer t a ks"
  using assms by (simp add: user_buffer_def)

lemma user_buffer_mapped: "user_buffer s a ks \<Longrightarrow> user_mapped s a (length ks)"
  by (simp add: user_mapped_def list_all_iff user_buffer_addr)

primrec stores :: "addr list \<Rightarrow> uchar list \<Rightarrow> mem \<Rightarrow> mem" where
  "stores [] cs m = m"
| "stores (k # ks) cs m = (case cs of [] \<Rightarrow> m | c # cs' \<Rightarrow> stores ks cs' (m(k := c)))"

lemma stores_Nil [simp]: "stores ks [] m = m"
  by (cases ks) auto

lemma stores_other: "x \<notin> set ks \<Longrightarrow> stores ks cs m x = m x"
  by (induction ks arbitrary: cs m) (auto split: list.split)

lemma map_stores: "distinct ks \<Longrightarrow> length cs = length ks \<Longrightarrow> map (stores ks cs m) ks = cs"
  by (induction ks arbitrary: cs m) (auto simp: stores_other split: list.split)

lemma stores_take: "length cs \<le> j \<Longrightarrow> stores (take j ks) cs m = stores ks cs m"
  by (induction ks arbitrary: j cs m) (auto simp: take_Cons' split: list.split)

lemma pipes_mem_commute: "s\<lparr>pipes := x, k_mem := m\<rparr> = s\<lparr>k_mem := m, pipes := x\<rparr>" for s :: "'z filest_scheme"
  by simp

lemma piperead_copy_spec:
  assumes "pipe_ok (pipes s p)" "user_buffer s a ks" "nat n \<le> length ks" "0 \<le> i" "i \<le> n"
    and "j = min (nat (n - i)) (length (pipe_contents (pipes s p)))"
  shows "piperead_copy p a n i s = Ret (i + int j)
    (upd_pipe p (pipe_pop ^^ j) (s\<lparr>k_mem := stores (drop (nat i) ks) (take j (pipe_contents (pipes s p))) (k_mem s)\<rparr>))"
  using assms
proof (induction j arbitrary: i s)
  case 0
  then have "nat (n - i) = 0 \<or> length (pipe_contents (pipes s p)) = 0" by (metis min_def)
  then have "\<not> (i < n \<and> pi_nread (pipes s p) \<noteq> pi_nwrite (pipes s p))"
    using empty_iff [OF 0(1)] by auto
  then show ?case by (subst piperead_copy.simps) (auto simp: upd_pipe_def)
next
  case (Suc j)
  define cs where "cs = pipe_contents (pipes s p)"
  have "0 < nat (n - i)" "0 < length cs" using Suc.prems(6) unfolding cs_def by linarith+
  then have i: "i < n" "cs \<noteq> []" "nat i < length ks" using Suc.prems(3,4) by auto
  have p': "pipe_ok (pipe_pop (pipes s p))" "cs = pipe_get (pipes s p) # pipe_contents (pipe_pop (pipes s p))"
    using pipe.pop [OF Suc.prems(1)] i(2) unfolding cs_def by blast+
  define c where "c = pipe_get (pipes s p)"
  define t where "t = upd_pipe p pipe_pop (s\<lparr>k_mem := (k_mem s)(ks ! nat i := c)\<rparr>)"
  have "cur_addr s (a + of_nat (nat i)) = Some (ks ! nat i)" by (rule user_buffer_addr [OF Suc.prems(2) i(3)])
  then have u: "cur_addr (upd_pipe p pipe_pop s) (a + word_of_int i) = Some (ks ! nat i)"
    using Suc.prems(4) by (simp add: cur_addr_cong [of "upd_pipe p pipe_pop s" s])
  have ub: "user_buffer t a ks"
    by (rule user_buffer_mem [OF Suc.prems(2)]) (use i(3) in \<open>auto simp: t_def\<close>)
  have step: "piperead_copy p a n i s = piperead_copy p a n (i + 1) t"
    using i empty_iff [OF Suc.prems(1)] u
    by (subst piperead_copy.simps)
      (simp add: kop_simps t_def cs_def c_def ustore_def pipe_pop_def [symmetric] Let_def upd_pipe_def pipes_mem_commute)
  have IH: "piperead_copy p a n (i + 1) t = Ret (i + 1 + int j)
    (upd_pipe p (pipe_pop ^^ j) (t\<lparr>k_mem := stores (drop (nat (i + 1)) ks) (take j (pipe_contents (pipes t p))) (k_mem t)\<rparr>))"
    by (rule Suc.IH) (use Suc.prems i p' ub in \<open>auto simp: t_def cs_def [symmetric]\<close>)
  have "drop (nat i) ks = ks ! nat i # drop (nat (i + 1)) ks"
    using i(3) Suc.prems(4) by (simp add: Cons_nth_drop_Suc nat_add_distrib)
  moreover have "take (Suc j) cs = c # take j (pipe_contents (pipes t p))"
    by (simp add: p'(2) c_def t_def)
  ultimately have "stores (drop (nat (i + 1)) ks) (take j (pipe_contents (pipes t p))) (k_mem t) =
    stores (drop (nat i) ks) (take (Suc j) cs) (k_mem s)"
    by (simp add: t_def)
  then show ?case
    unfolding step IH cs_def [symmetric] by (simp add: t_def upd_pipe_def funpow_swap1)
qed

lemma piperead_spec:
  assumes "k_held s = {}" "pipe_ok (pipes s p)" "user_buffer s a ks" "distinct ks" "length ks = nat n" "0 \<le> n"
    and "pipe_contents (pipes s p) \<noteq> []" "j = min (nat n) (length (pipe_contents (pipes s p)))"
  shows "\<exists>t. piperead p a n s = Ret (int j) t \<and> k_held t = {} \<and> pipe_ok (pipes t p) \<and>
    pipe_contents (pipes t p) = drop j (pipe_contents (pipes s p)) \<and>
    map (k_mem t) (take j ks) = take j (pipe_contents (pipes s p)) \<and>
    (\<forall>x. x \<notin> set ks \<longrightarrow> k_mem t x = k_mem s x)"
proof -
  define cs where "cs = pipe_contents (pipes s p)"
  define s1 where "s1 = s\<lparr>k_held := {PipeLock p}\<rparr>"
  define m where "m = stores ks (take j cs) (k_mem s)"
  define s2 where "s2 = upd_pipe p (pipe_pop ^^ j) (s1\<lparr>k_mem := m\<rparr>)"
  have "piperead_copy p a n 0 s1 = Ret (0 + int j)
    (upd_pipe p (pipe_pop ^^ j) (s1\<lparr>k_mem := stores (drop (nat 0) ks) (take j (pipe_contents (pipes s1 p))) (k_mem s1)\<rparr>))"
    by (rule piperead_copy_spec)
      (use assms in \<open>simp_all add: s1_def user_buffer_mem [OF assms(3)]\<close>)
  then have cp: "piperead_copy p a n 0 s1 = Ret (int j) s2" by (simp add: s2_def m_def s1_def cs_def)
  have h: "PipeLock p \<in> k_held s2" "PtableLock \<notin> k_held s2" by (simp_all add: s2_def s1_def)
  have "piperead p a n s = Ret (int j) (pipe_finish (ChanPipeWrite p) p s2)"
    using assms(1,7) empty_iff [OF assms(2)] cp finish_eq [OF h, of "ChanPipeWrite p" "int j"]
    by (simp add: piperead_def piperead_loop_def kop_simps s1_def [symmetric]) (simp add: s1_def)
  moreover have "pipe_ok ((pipe_pop ^^ j) (pipes s p)) \<and> pipe_contents ((pipe_pop ^^ j) (pipes s p)) = drop j cs"
    using pipe.pops [OF assms(2), of j] assms(8) by (simp add: cs_def)
  moreover have "map m (take j ks) = take j cs"
    using map_stores [of "take j ks" "take j cs" "k_mem s"] stores_take [of "take j cs" j ks "k_mem s"] assms(4,5,8)
    by (simp add: m_def cs_def)
  moreover have "\<forall>x. x \<notin> set ks \<longrightarrow> m x = k_mem s x" by (simp add: m_def stores_other)
  ultimately show ?thesis
    by (simp add: pipe_finish_def wake_all_def s2_def s1_def cs_def)
qed

section \<open>First in, first out\<close>

text \<open>
  C3. A pipe is a first-in first-out queue, whatever the positions of its wrapping 32-bit indices: when there is room,
  pipewrite returns the number of bytes, and a later piperead by any process that asks for everything in the pipe
  returns that number and stores, in order, the bytes that were there before and then the bytes of the
  writer's buffer, and leaves the pipe empty.\<close>

theorem pipe_fifo:
  fixes s :: "'z filest_scheme"
  assumes "k_held s = {}" "pipe_ok (pipes s p)" "user_mapped s src (nat n)" "0 < n"
    and "length (pipe_contents (pipes s p)) + nat n \<le> PIPESIZE"
  shows "\<exists>s1. pipewrite p src n s = Ret n s1 \<and> k_held s1 = {} \<and> k_mem s1 = k_mem s \<and> pt_cr3 s1 = pt_cr3 s \<and>
    (\<forall>(s2 :: 'z filest_scheme) dst ks. k_held s2 = {} \<and> pipes s2 p = pipes s1 p \<and> user_buffer s2 dst ks \<and> distinct ks \<and>
         length ks = length (pipe_contents (pipes s p)) + nat n \<longrightarrow>
       (\<exists>s3. piperead p dst (int (length ks)) s2 = Ret (int (length ks)) s3 \<and> pipe_contents (pipes s3 p) = [] \<and>
          map (k_mem s3) ks = pipe_contents (pipes s p) @ map (user_stream s src) [0..<nat n]))"
proof -
  define cs where "cs = pipe_contents (pipes s p) @ map (user_stream s src) [0..<nat n]"
  obtain s1 where s1: "pipewrite p src n s = Ret n s1" "k_held s1 = {}" "k_mem s1 = k_mem s" "pt_cr3 s1 = pt_cr3 s"
    "pipe_ok (pipes s1 p)" "pipe_contents (pipes s1 p) = cs"
    using pipewrite_spec [of s p src n] assms by (auto simp: cs_def)
  have "\<exists>s3. piperead p dst (int (length ks)) s2 = Ret (int (length ks)) s3 \<and> pipe_contents (pipes s3 p) = [] \<and>
      map (k_mem s3) ks = cs"
    if h: "k_held s2 = {}" "pipes s2 p = pipes s1 p" "user_buffer s2 dst ks" "distinct ks"
      "length ks = length (pipe_contents (pipes s p)) + nat n" for s2 :: "'z filest_scheme" and dst ks
  proof -
    have l: "length cs = length ks" "cs \<noteq> []" using h(5) assms(4) by (auto simp: cs_def)
    have "\<exists>t. piperead p dst (int (length ks)) s2 = Ret (int (length ks)) t \<and> k_held t = {} \<and> pipe_ok (pipes t p) \<and>
      pipe_contents (pipes t p) = drop (length ks) (pipe_contents (pipes s2 p)) \<and>
      map (k_mem t) (take (length ks) ks) = take (length ks) (pipe_contents (pipes s2 p)) \<and>
      (\<forall>x. x \<notin> set ks \<longrightarrow> k_mem t x = k_mem s2 x)"
      by (rule piperead_spec [OF h(1) _ h(3,4)]) (use s1(5,6) h(2) l in simp_all)
    then show ?thesis using s1(6) h(2) l by auto
  qed
  then show ?thesis using s1 unfolding cs_def by blast
qed

theorem pipe_fifo_witness:
  "\<exists>s1 s3. pipewrite 0 0 2 (sample_state [104, 105]) = Ret 2 s1 \<and> piperead 0 100 2 s1 = Ret 2 s3 \<and>
     k_mem s3 0x80003064 = 104 \<and> k_mem s3 0x80003065 = 105"
proof -
  let ?s = "sample_state [104, 105]"
  have c: "cur_addr ?s va = Some (0x80003000 + va)" if "va < 4096" for va
    unfolding cur_addr_def using that by (simp add: P2V_def sample_addr)
  have c01: "cur_addr ?s 0 = Some 0x80003000" "cur_addr ?s 1 = Some 0x80003001" using c [of 0] c [of 1] by simp_all
  have u2: "[0..<nat 2] = [0, 1]" by (simp add: upt_rec)
  have um: "user_mapped ?s 0 (nat 2)" using c01 by (simp add: user_mapped_def u2 del: nat_numeral)
  have us: "map (user_stream ?s 0) [0..<nat 2] = [104, 105]"
    using c01 unfolding u2 by (simp add: user_stream_def sample_mem_def)
  have e: "pipe_contents (pipes ?s 0) = []" "pipe_ok (pipes ?s 0)" by (simp_all add: no_pipe_def pipe_contents_def pipe_ok_def)
  obtain s1 :: consst where s1: "pipewrite 0 0 2 ?s = Ret 2 s1" "k_held s1 = {}" "k_mem s1 = k_mem ?s" "pt_cr3 s1 = pt_cr3 ?s"
    and rd: "\<forall>(s2 :: consst) dst ks. k_held s2 = {} \<and> pipes s2 0 = pipes s1 0 \<and> user_buffer s2 dst ks \<and> distinct ks \<and>
         length ks = length (pipe_contents (pipes ?s 0)) + nat 2 \<longrightarrow>
       (\<exists>s3. piperead 0 dst (int (length ks)) s2 = Ret (int (length ks)) s3 \<and> pipe_contents (pipes s3 0) = [] \<and>
          map (k_mem s3) ks = pipe_contents (pipes ?s 0) @ map (user_stream ?s 0) [0..<nat 2])"
    using pipe_fifo [of ?s 0 0 2, OF _ e(2) um] e(1) by auto
  have "user_addr m (P2V (pt_cr3 s1)) (100 + of_nat i) = Some ([0x80003064, 0x80003065] ! i)"
    if m: "\<forall>x. x \<notin> set [0x80003064, 0x80003065] \<longrightarrow> m x = k_mem s1 x" and i: "i < 2" for m i
  proof -
    have "m a = sample_mem [104, 105] a" if "a < 0x80003000" for a
    proof -
      have "a \<noteq> 0x80003064" "a \<noteq> 0x80003065" using that by auto
      then show ?thesis using m s1(3) by simp
    qed
    then have "user_addr m 0x80001000 va = Some (0x80003000 + va)" if "va < 4096" for va
      using sample_addr that by blast
    then show ?thesis using i by (auto simp: s1(4) P2V_def less_2_cases_iff)
  qed
  then have "user_buffer s1 100 [0x80003064, 0x80003065]" unfolding user_buffer_def by simp
  then obtain s3 where "piperead 0 100 2 s1 = Ret 2 s3" "map (k_mem s3) [0x80003064, 0x80003065] = [104, 105]"
    using rd [rule_format, of s1 100 "[0x80003064, 0x80003065]"] s1(2) e(1) us by auto
  then show ?thesis using s1(1) by auto
qed

end
