(* ===== verification/Console_Line.thy ===== *)
theory Console_Line
  imports Pipe_Fifo
begin

text \<open>
  The line discipline of the console. The three wrapping indices of \<^verbatim>\<open>input\<close> stand for two sequences, the bytes that
  readers may take and the line that is being edited; \<^verbatim>\<open>consoleintr\<close> and \<^verbatim>\<open>consoleread\<close> are the operations on
  them. The screen position stays on the screen.
\<close>

section \<open>Windows of the ring\<close>

definition window :: "conin \<Rightarrow> uint \<Rightarrow> nat \<Rightarrow> uchar list" where
  "window i k n = map (\<lambda>d. in_at i (k + of_nat d)) [0..<n]"

lemma slot_mod_input: "unat (r + of_nat i :: uint) mod 128 = (unat r + i) mod 128"
proof -
  have "unat (r + of_nat i) = (unat r + i) mod 4294967296"
    by (simp add: unat_word_ariths unat_of_nat mod_simps)
  then show ?thesis by (simp add: mod_mod_cancel)
qed

lemma length_window [simp]: "length (window i k n) = n"
  by (simp add: window_def)

lemma window_0 [simp]: "window i k 0 = []"
  by (simp add: window_def)

lemma window_Suc: "window i k (Suc n) = window i k n @ [in_at i (k + of_nat n)]"
  by (simp add: window_def)

lemma window_Cons: "window i k (Suc n) = in_at i k # window i (k + 1) n"
  by (rule nth_equalityI) (auto simp: window_def nth_Cons' algebra_simps of_nat_diff simp del: upt_Suc)

lemma window_append: "window i k (m + n) = window i k m @ window i (k + of_nat m) n"
  by (rule nth_equalityI) (auto simp: window_def nth_append algebra_simps of_nat_diff)

lemma window_indices [simp]:
  "window (i\<lparr>in_r := a\<rparr>) k n = window i k n" "window (i\<lparr>in_w := a\<rparr>) k n = window i k n" "window (i\<lparr>in_e := a\<rparr>) k n = window i k n"
  by (simp_all add: window_def in_at_def)

lemma window_write:
  assumes "n < 128"
  shows "window (i\<lparr>in_buf := (in_buf i)(unat (k + of_nat n) mod INPUT_BUF := c)\<rparr>) k (Suc n) = window i k n @ [c]"
proof -
  have "unat (k + of_nat d) mod 128 \<noteq> unat (k + of_nat n) mod 128" if "d < n" for d
    using that assms add_mod_inj [of d 128 n "unat k"] by (auto simp: slot_mod_input)
  then show ?thesis by (simp add: window_def in_at_def)
qed

section \<open>The two sequences\<close>

text \<open>Committed bytes, from \<^verbatim>\<open>r\<close> to \<^verbatim>\<open>w\<close>, and the line being edited, from \<^verbatim>\<open>w\<close> to \<^verbatim>\<open>e\<close>.\<close>

definition committed :: "conin \<Rightarrow> uchar list" where
  "committed i = window i (in_r i) (unat (in_w i - in_r i))"

definition edited :: "conin \<Rightarrow> uchar list" where
  "edited i = window i (in_w i) (unat (in_e i - in_w i))"

definition conin_ok :: "conin \<Rightarrow> bool" where
  "conin_ok i \<longleftrightarrow> unat (in_w i - in_r i) + unat (in_e i - in_w i) \<le> INPUT_BUF \<and> 10 \<notin> set (edited i)"

text \<open>The abstract line discipline.\<close>

definition line_step :: "int \<Rightarrow> uchar list \<times> uchar list \<Rightarrow> uchar list \<times> uchar list" where
  "line_step c l =
     (if c = 16 then l
      else if c = 21 then (fst l, [])
      else if c = 8 \<or> c = 127 then (fst l, butlast (snd l))
      else if c = 0 \<or> length (fst l) + length (snd l) = INPUT_BUF then l
      else let c = (if c = 13 then 10 else c); e = snd l @ [word_of_int c] in
        if c = 10 \<or> c = 4 \<or> length (fst l) + length e = INPUT_BUF then (fst l @ e, []) else (fst l, e))"

lemma index_sum:
  fixes w r e :: uint
  assumes "unat (w - r) = m" "unat (e - w) = n" "m + n \<le> 128"
  shows "unat (e - r) = m + n" "w = r + of_nat m" "e = w + of_nat n" "(e = w) = (n = 0)"
proof -
  show w: "w = r + of_nat m" and e: "e = w + of_nat n" using assms by auto
  have "e - r = of_nat (m + n)" using w e by simp
  then show "unat (e - r) = m + n" using assms(3) unat_of_nat32 [of "m + n"] by simp
  show "(e = w) = (n = 0)" using assms(2) by (auto simp: e)
qed

lemma kill_line_all:
  assumes "unat (in_e i - in_w i) = n" "n \<le> 128" "10 \<notin> set (window i (in_w i) n)"
  shows "kill_line i = (i\<lparr>in_e := in_w i\<rparr>, n)"
  using assms
proof (induction n arbitrary: i)
  case 0
  then have "in_e i = in_w i" by (simp add: unat_eq_zero)
  then show ?case by (subst kill_line.simps) simp
next
  case (Suc n)
  have "in_e i = in_w i + of_nat (unat (in_e i - in_w i))" by simp
  then have e: "in_e i = in_w i + of_nat (Suc n)" unfolding Suc.prems(1) .
  then have e': "in_e i - 1 = in_w i + of_nat n" by simp
  have ne: "in_e i \<noteq> in_w i" using Suc.prems(1) by auto
  have nl: "in_at i (in_e i - 1) \<noteq> 10" using Suc.prems(3) by (auto simp: window_Suc e')
  have "unat (in_e i - 1 - in_w i) = n" using Suc.prems(2) by (simp add: e' unat_of_nat32)
  then have "kill_line (i\<lparr>in_e := in_e i - 1\<rparr>) = (i\<lparr>in_e := in_w i\<rparr>, n)"
    using Suc.IH [of "i\<lparr>in_e := in_e i - 1\<rparr>"] Suc.prems(2,3) by (simp add: window_Suc)
  then show ?case using ne nl by (subst kill_line.simps) simp
qed

text \<open>The positions of a buffer in a state that is well formed.\<close>

lemma conin_okD:
  assumes "conin_ok i"
  obtains m n where "unat (in_w i - in_r i) = m" "unat (in_e i - in_w i) = n" "m + n \<le> 128" "unat (in_e i - in_r i) = m + n"
    "in_w i = in_r i + of_nat m" "in_e i = in_w i + of_nat n" "length (committed i) = m" "length (edited i) = n"
    "edited i = window i (in_w i) n" "committed i = window i (in_r i) m" "10 \<notin> set (edited i)"
proof -
  define m n where "m = unat (in_w i - in_r i)" and "n = unat (in_e i - in_w i)"
  have "m + n \<le> 128" "10 \<notin> set (edited i)" using assms by (simp_all add: conin_ok_def m_def n_def)
  moreover from this(1) have "unat (in_e i - in_r i) = m + n" "in_w i = in_r i + of_nat m" "in_e i = in_w i + of_nat n"
    using index_sum [OF m_def [symmetric] n_def [symmetric]] by simp_all
  moreover have "edited i = window i (in_w i) n" "committed i = window i (in_r i) m"
    by (simp_all add: edited_def committed_def m_def n_def)
  ultimately show thesis using that [OF m_def [symmetric] n_def [symmetric]] by simp
qed

text \<open>A buffer that agrees with given positions.\<close>

lemma conin_okI:
  assumes "in_w i = in_r i + of_nat m" "in_e i = in_w i + of_nat n" "m + n \<le> 128" "10 \<notin> set (window i (in_w i) n)"
  shows "conin_ok i \<and> committed i = window i (in_r i) m \<and> edited i = window i (in_w i) n"
proof -
  have "unat (of_nat m :: uint) = m" "unat (of_nat n :: uint) = n" using assms(3) by (simp_all add: unat_of_nat32)
  then have "unat (in_w i - in_r i) = m" "unat (in_e i - in_w i) = n" using assms(1,2) by simp_all
  then show ?thesis using assms(3,4) by (simp add: conin_ok_def committed_def edited_def)
qed

lemma less_iff_unat: "(a :: uint) < 128 \<longleftrightarrow> unat a < 128"
  by (simp add: word_less_nat_alt)

lemma store_char:
  assumes "conin_ok i" "length (committed i) + length (edited i) < 128"
    and j_def: "j = i\<lparr>in_buf := (in_buf i)(unat (in_e i) mod INPUT_BUF := c), in_e := in_e i + 1\<rparr>"
  shows "window j (in_w i) (Suc (length (edited i))) = edited i @ [c]"
    "window j (in_r i) (length (committed i)) = committed i"
    "window j (in_r i) (Suc (length (committed i) + length (edited i))) = committed i @ edited i @ [c]"
proof -
  obtain m n where p: "in_w i = in_r i + of_nat m" "in_e i = in_w i + of_nat n" "length (committed i) = m"
    "length (edited i) = n" "edited i = window i (in_w i) n" "committed i = window i (in_r i) m"
    using assms(1) by (elim conin_okD)
  have er: "in_e i = in_r i + of_nat (m + n)" using p(1,2) by simp
  show "window j (in_w i) (Suc (length (edited i))) = edited i @ [c]"
    using window_write [of n i "in_w i" c] assms(2) p by (simp add: j_def)
  have "window j (in_r i) (Suc (m + n)) = window i (in_r i) (m + n) @ [c]"
    using window_write [of "m + n" i "in_r i" c] assms(2) p(3,4) unfolding j_def er by simp
  then show *: "window j (in_r i) (Suc (length (committed i) + length (edited i))) = committed i @ edited i @ [c]"
    using p by (simp add: window_append)
  show "window j (in_r i) (length (committed i)) = committed i"
    using * p(3,4,6) window_append [of j "in_r i" m "Suc n"] by simp
qed

text \<open>One character typed is one step of the line discipline; it is echoed, and readers are woken
  exactly when bytes become available.\<close>

lemma consintr_char_refines:
  assumes ok: "conin_ok i" and c: "0 \<le> c" "c < 256"
  shows "case consintr_char c i of (j, echo, wake) \<Rightarrow> conin_ok j \<and> in_r j = in_r i \<and>
    (committed j, edited j) = line_step c (committed i, edited i) \<and> wake = (committed j \<noteq> committed i)"
proof -
  obtain m n where p: "unat (in_e i - in_w i) = n" "m + n \<le> 128" "unat (in_e i - in_r i) = m + n"
    "in_w i = in_r i + of_nat m" "in_e i = in_w i + of_nat n" "length (committed i) = m" "length (edited i) = n"
    "edited i = window i (in_w i) n" "committed i = window i (in_r i) m" "10 \<notin> set (edited i)"
    using ok by (elim conin_okD)
  consider (none) "c = 16 \<or> c = 0 \<or> c \<noteq> 21 \<and> c \<noteq> 8 \<and> c \<noteq> 127 \<and> m + n = 128" | (kill) "c = 21" | (bs) "c = 8 \<or> c = 127"
    | (char) "c \<noteq> 16" "c \<noteq> 0" "c \<noteq> 21" "c \<noteq> 8" "c \<noteq> 127" "m + n < 128" using p(2) by linarith
  then show ?thesis
  proof cases
    case none
    then show ?thesis using ok p(3,6,7) by (auto simp: consintr_char_def line_step_def less_iff_unat)
  next
    case kill
    have "kill_line i = (i\<lparr>in_e := in_w i\<rparr>, n)" by (rule kill_line_all) (use p in auto)
    then show ?thesis using kill p conin_okI [of "i\<lparr>in_e := in_w i\<rparr>" m 0] by (simp add: consintr_char_def line_step_def)
  next
    case bs
    show ?thesis
    proof (cases n)
      case 0
      then show ?thesis using bs p ok by (auto simp: consintr_char_def line_step_def)
    next
      case (Suc k)
      let ?j = "i\<lparr>in_e := in_e i - 1\<rparr>"
      have e: "edited i = window i (in_w i) k @ [in_at i (in_w i + of_nat k)]" using p(8) by (simp add: Suc window_Suc)
      have "in_e i \<noteq> in_w i" using p(1) Suc by auto
      moreover have "conin_ok ?j \<and> committed ?j = window ?j (in_r ?j) m \<and> edited ?j = window ?j (in_w ?j) k"
        by (rule conin_okI) (use p(2,4,5,10) Suc e in \<open>simp_all\<close>)
      ultimately show ?thesis using bs p(9) e by (auto simp: consintr_char_def line_step_def)
    qed
  next
    case char
    define d where "d = (if c = 13 then 10 else c)"
    define j where "j = i\<lparr>in_buf := (in_buf i)(unat (in_e i) mod INPUT_BUF := word_of_int d), in_e := in_e i + 1\<rparr>"
    have st: "window j (in_w i) (Suc n) = edited i @ [word_of_int d]" "window j (in_r i) m = committed i"
      "window j (in_r i) (Suc (m + n)) = committed i @ edited i @ [word_of_int d]"
      using store_char [OF ok _ j_def] char(6) p(6,7) by simp_all
    have ix: "in_r j = in_r i" "in_w j = in_w i" "in_e j = in_r j + of_nat (Suc (m + n))" using p(4,5) by (simp_all add: j_def)
    have lim: "in_e j = in_r j + of_nat INPUT_BUF \<longleftrightarrow> Suc (m + n) = 128"
    proof -
      have "in_e j = in_r j + of_nat INPUT_BUF \<longleftrightarrow> of_nat (Suc (m + n)) = (of_nat 128 :: uint)"
        unfolding ix(3) by (rule add_left_cancel)
      also have "\<dots> \<longleftrightarrow> Suc (m + n) = 128"
        unfolding word_unat_eq_iff using char(6) by (simp only: unat_of_nat32)
      finally show ?thesis .
    qed
    have lt: "in_e i - in_r i < 128" using p(3) char(6) by (simp add: less_iff_unat)
    have "consintr_char c i =
      (if d = 10 \<or> d = 4 \<or> in_e j = in_r j + of_nat INPUT_BUF then (j\<lparr>in_w := in_e j\<rparr>, [d], True) else (j, [d], False))"
      using char lt by (simp add: consintr_char_def d_def j_def Let_def)
    then have call: "consintr_char c i =
      (if d = 10 \<or> d = 4 \<or> Suc (m + n) = 128 then (j\<lparr>in_w := in_e j\<rparr>, [d], True) else (j, [d], False))"
      unfolding lim .
    have d: "0 \<le> d" "d < 256" using c by (auto simp: d_def)
    show ?thesis
    proof (cases "d = 10 \<or> d = 4 \<or> Suc (m + n) = 128")
      case True
      let ?k = "j\<lparr>in_w := in_e j\<rparr>"
      have "conin_ok ?k \<and> committed ?k = window ?k (in_r ?k) (Suc (m + n)) \<and> edited ?k = window ?k (in_w ?k) 0"
        by (rule conin_okI) (use ix char(6) in auto)
      then show ?thesis using True char p(6,7) st ix(1)
        by (simp add: call line_step_def d_def [symmetric] Let_def)
    next
      case False
      have "word_of_int d \<noteq> (10 :: uchar)"
      proof
        assume "word_of_int d = (10 :: uchar)"
        then have "uint (word_of_int d :: uchar) = 10" by simp
        then show False using d False by (simp add: uint_word_of_int)
      qed
      then have "conin_ok j \<and> committed j = window j (in_r j) m \<and> edited j = window j (in_w j) (Suc n)"
        by (intro conin_okI) (use ix st p(4,10) char(6) in auto)
      then show ?thesis using False char p(6,7) st ix
        by (simp add: call line_step_def d_def [symmetric] Let_def)
    qed
  qed
qed

section \<open>The screen\<close>

definition screen_ok :: "'z consst_scheme \<Rightarrow> bool" where
  "screen_ok s \<longleftrightarrow> 0 \<le> cn_pos s \<and> cn_pos s < 24 * 80"

lemma next_line:
  fixes p :: int
  assumes "0 \<le> p" "p < 1920"
  shows "0 \<le> p + (80 - p mod 80)" "p + (80 - p mod 80) \<le> (1920 :: int)"
proof -
  define k where "k = p div 80"
  have e: "p + (80 - p mod 80) = 80 * (k + 1)" unfolding k_def using div_mult_mod_eq [of p 80] by (simp add: algebra_simps)
  have "k < 24" "0 \<le> k" unfolding k_def using assms zdiv_mono1 [of p 1919 80] by (simp_all add: pos_imp_zdiv_nonneg_iff)
  then show "0 \<le> p + (80 - p mod 80)" "p + (80 - p mod 80) \<le> 1920" unfolding e by simp_all
qed

lemma cgaputc_spec:
  assumes "screen_ok s"
  shows "\<exists>p f. cgaputc c s = Ret () (s\<lparr>cn_pos := p, cn_crt := f\<rparr>) \<and> 0 \<le> p \<and> p < 24 * 80"
proof -
  define q where "q = (if c = 10 then cn_pos s + (80 - cn_pos s mod 80)
    else if c = BACKSPACE then (if cn_pos s > 0 then cn_pos s - 1 else cn_pos s) else cn_pos s + 1)"
  have q: "0 \<le> q" "q \<le> 1920" using assms next_line [of "cn_pos s"] by (auto simp: q_def screen_ok_def)
  define p where "p = (if q div 80 \<ge> 24 then q - 80 else q)"
  have "q div 80 \<ge> 24 \<longleftrightarrow> q = 1920"
    using q zdiv_mono1 [of q 1919 80] by (cases "q = 1920") auto
  then have "p = (if q = 1920 then 1840 else q)" by (simp add: p_def)
  then have "0 \<le> p" "p < 1920" using q by auto
  moreover have "\<exists>f. cgaputc c s = Ret () (s\<lparr>cn_pos := p, cn_crt := f\<rparr>)"
  proof -
    have n: "\<not> (q < 0 \<or> q > 25 * 80)" using q by simp
    show ?thesis unfolding cgaputc_def Let_def q_def [symmetric] p_def [symmetric]
      by (rule exI, subst if_not_P [OF n], rule refl)
  qed
  ultimately show ?thesis by auto
qed

lemma consputc_spec:
  assumes "screen_ok s"
  shows "\<exists>u p f. consputc c s = Ret () (s\<lparr>cn_uart := u, cn_pos := p, cn_crt := f\<rparr>) \<and> 0 \<le> p \<and> p < 24 * 80"
  using cgaputc_spec [of "s\<lparr>cn_uart := u\<rparr>" c for u] assms by (fastforce simp: consputc_def kop_simps screen_ok_def)

lemma consputcs_spec:
  assumes "screen_ok s"
  shows "\<exists>u p f. forK cs consputc s = Ret () (s\<lparr>cn_uart := u, cn_pos := p, cn_crt := f\<rparr>) \<and> 0 \<le> p \<and> p < 24 * 80"
  using assms
proof (induction cs arbitrary: s)
  case Nil
  then show ?case
    by (intro exI [of _ "cn_uart s"] exI [of _ "cn_pos s"] exI [of _ "cn_crt s"]) (simp add: kop_simps screen_ok_def)
next
  case (Cons c cs)
  obtain u p f where 1: "consputc c s = Ret () (s\<lparr>cn_uart := u, cn_pos := p, cn_crt := f\<rparr>)" "0 \<le> p" "p < 24 * 80"
    using consputc_spec [OF Cons.prems] by blast
  then have "screen_ok (s\<lparr>cn_uart := u, cn_pos := p, cn_crt := f\<rparr>)" by (simp add: screen_ok_def)
  from Cons.IH [OF this] show ?case using 1(1) by (auto simp: kop_simps)
qed

section \<open>The interrupt handler\<close>

definition console_ok :: "'z consst_scheme \<Rightarrow> bool" where
  "console_ok s \<longleftrightarrow> screen_ok s \<and> conin_ok (cn_in s)"

definition con_lines :: "'z consst_scheme \<Rightarrow> uchar list \<times> uchar list" where
  "con_lines s = (committed (cn_in s), edited (cn_in s))"

lemma consoleintr_one:
  assumes "console_ok s" "k_held s = {ConsLock}" "0 \<le> c" "c < 256"
  shows "\<exists>t. consoleintr_step c s = Ret () t \<and>
    console_ok t \<and> k_held t = {ConsLock} \<and> con_lines t = line_step c (con_lines s)"
proof -
  obtain i echo wake where e: "consintr_char c (cn_in s) = (i, echo, wake)" by (metis prod_cases3)
  have i: "conin_ok i" "(committed i, edited i) = line_step c (con_lines s)"
    using consintr_char_refines [of "cn_in s" c] assms e by (simp_all add: console_ok_def con_lines_def)
  obtain u p f where o: "forK echo consputc (s\<lparr>cn_in := i\<rparr>) = Ret () (s\<lparr>cn_in := i, cn_uart := u, cn_pos := p, cn_crt := f\<rparr>)"
    "0 \<le> p" "p < 24 * 80"
    using consputcs_spec [of "s\<lparr>cn_in := i\<rparr>" echo] assms(1) by (auto simp: console_ok_def screen_ok_def)
  show ?thesis using assms(2) i o
    by (cases wake) (simp_all add: consoleintr_step_def e kop_simps wakeup_eq wake_all_def console_ok_def screen_ok_def con_lines_def)
qed

lemma consoleintr_all:
  assumes "console_ok s" "k_held s = {ConsLock}" "\<forall>c \<in> set cs. 0 \<le> c \<and> c < 256"
  shows "\<exists>t. forK cs consoleintr_step s = Ret () t \<and>
    console_ok t \<and> k_held t = {ConsLock} \<and> con_lines t = fold line_step cs (con_lines s)"
  using assms
proof (induction cs arbitrary: s)
  case Nil
  then show ?case by (simp add: kop_simps)
next
  case (Cons c cs)
  then obtain t where 1: "consoleintr_step c s = Ret () t"
    "console_ok t" "k_held t = {ConsLock}" "con_lines t = line_step c (con_lines s)"
    using consoleintr_one [of s c] by auto
  have "\<forall>c \<in> set cs. 0 \<le> c \<and> c < 256" using Cons.prems(3) by simp
  from Cons.IH [OF 1(2,3) this] obtain t' where "forK cs consoleintr_step t = Ret () t'"
    "console_ok t'" "k_held t' = {ConsLock}" "con_lines t' = fold line_step cs (con_lines t)" by blast
  then show ?case using 1 by (simp add: kop_simps)
qed

lemma consoleintr_line:
  assumes "console_ok s" "k_held s = {}" "\<forall>c \<in> set cs. 0 \<le> c \<and> c < 256"
  shows "\<exists>t. consoleintr cs s = Ret () t \<and> console_ok t \<and> k_held t = {} \<and> con_lines t = fold line_step cs (con_lines s)"
proof -
  have "console_ok (s\<lparr>k_held := {ConsLock}\<rparr>)" "con_lines (s\<lparr>k_held := {ConsLock}\<rparr>) = con_lines s"
    using assms(1) by (simp_all add: console_ok_def screen_ok_def con_lines_def)
  then obtain t where "forK cs consoleintr_step (s\<lparr>k_held := {ConsLock}\<rparr>) = Ret () t"
    "console_ok t" "k_held t = {ConsLock}" "con_lines t = fold line_step cs (con_lines s)"
    using consoleintr_all [of "s\<lparr>k_held := {ConsLock}\<rparr>" cs] assms(3) by auto
  then show ?thesis using assms(2)
    by (simp add: consoleintr_def kop_simps console_ok_def screen_ok_def con_lines_def)
qed

text \<open>
  C12. The console interrupt handler implements the line discipline: for every sequence of characters it returns without a
  panic and without holding a lock, keeps the indices of the input buffer and the cursor in range, and changes
  the committed bytes and the line being edited by the abstract steps (erase, kill line, commit at a
  newline, an end of file or a full buffer), whatever the positions of the wrapping indices.\<close>

theorem consoleintr_line_discipline:
  assumes "console_ok s" "k_held s = {}" "\<forall>c \<in> set cs. 0 \<le> c \<and> c < 256"
  shows "\<exists>t. consoleintr cs s = Ret () t \<and> console_ok t \<and> k_held t = {} \<and> con_lines t = fold line_step cs (con_lines s)"
  by (rule consoleintr_line [OF assms])

theorem consoleintr_line_discipline_witness:
  "\<exists>t. consoleintr [108, 120, 8, 115, 13] (sample_state []) = Ret () t \<and> con_lines t = ([108, 115, 10], [])"
proof -
  have "console_ok (sample_state [])" "con_lines (sample_state []) = ([], [])"
    by (simp_all add: console_ok_def screen_ok_def conin_ok_def con_lines_def committed_def edited_def)
  then show ?thesis
    using consoleintr_line_discipline [of "sample_state []" "[108, 120, 8, 115, 13]"] by (auto simp: line_step_def)
qed

section \<open>Reading a line\<close>

lemma committed_pop:
  assumes "conin_ok i" "committed i \<noteq> []"
  shows "conin_ok (i\<lparr>in_r := in_r i + 1\<rparr>)" "committed i = in_at i (in_r i) # committed (i\<lparr>in_r := in_r i + 1\<rparr>)"
    "edited (i\<lparr>in_r := in_r i + 1\<rparr>) = edited i" "in_r i \<noteq> in_w i"
proof -
  let ?j = "i\<lparr>in_r := in_r i + 1\<rparr>"
  obtain m n where p: "unat (in_w i - in_r i) = m" "m + n \<le> 128" "in_w i = in_r i + of_nat m" "in_e i = in_w i + of_nat n"
    "length (committed i) = m" "edited i = window i (in_w i) n" "committed i = window i (in_r i) m" "10 \<notin> set (edited i)"
    using assms(1) by (elim conin_okD)
  then obtain k where k: "m = Suc k" using assms(2) by (cases m) auto
  have "conin_ok ?j \<and> committed ?j = window ?j (in_r ?j) k \<and> edited ?j = window ?j (in_w ?j) n"
    by (rule conin_okI) (use p(2-4,6,8) k in simp_all)
  then show "conin_ok ?j" "committed i = in_at i (in_r i) # committed ?j" "edited ?j = edited i"
    using p(6,7) by (simp_all add: k window_Cons)
  show "in_r i \<noteq> in_w i" using p(1) k by auto
qed

lemma consoleread_loop_line:
  assumes "conin_ok (cn_in s)" "committed (cn_in s) = l @ 10 # rest" "10 \<notin> set l" "4 \<notin> set l" "length l < n"
  shows "\<exists>t. consoleread_loop n target acc s = Ret (Some (n - Suc (length l), acc @ l @ [10]), acc @ l @ [10]) t \<and>
    t = s\<lparr>cn_in := cn_in t\<rparr> \<and> conin_ok (cn_in t) \<and> con_lines t = (rest, edited (cn_in s))"
  using assms
proof (induction l arbitrary: s n acc)
  case (Cons c l)
  then obtain k where k: "n = Suc k" by (cases n) auto
  define t where "t = s\<lparr>cn_in := (cn_in s)\<lparr>in_r := in_r (cn_in s) + 1\<rparr>\<rparr>"
  have t: "conin_ok (cn_in t)" "committed (cn_in s) = in_at (cn_in s) (in_r (cn_in s)) # committed (cn_in t)"
    "edited (cn_in t) = edited (cn_in s)" "in_r (cn_in s) \<noteq> in_w (cn_in s)"
    using committed_pop [OF Cons.prems(1)] Cons.prems(2) by (simp_all add: t_def)
  have c: "in_at (cn_in s) (in_r (cn_in s)) = c" "committed (cn_in t) = l @ 10 # rest" using t(2) Cons.prems(2) by simp_all
  have "consoleread_loop n target acc s = consoleread_loop k target (acc @ [c]) t"
    using t(4) c(1) Cons.prems(3,4) by (simp add: k Let_def t_def)
  then show ?case using Cons.IH [OF t(1) c(2), of k "acc @ [c]"] Cons.prems(3-5) t(3) by (auto simp: k t_def)
next
  case Nil
  then obtain k where k: "n = Suc k" by (cases n) auto
  define t where "t = s\<lparr>cn_in := (cn_in s)\<lparr>in_r := in_r (cn_in s) + 1\<rparr>\<rparr>"
  have t: "conin_ok (cn_in t)" "committed (cn_in s) = in_at (cn_in s) (in_r (cn_in s)) # committed (cn_in t)"
    "edited (cn_in t) = edited (cn_in s)" "in_r (cn_in s) \<noteq> in_w (cn_in s)"
    using committed_pop [OF Nil.prems(1)] Nil.prems(2) by (simp_all add: t_def)
  have c: "in_at (cn_in s) (in_r (cn_in s)) = 10" "committed (cn_in t) = rest" using t(2) Nil.prems(2) by simp_all
  have "consoleread_loop n target acc s = Ret (Some (k, acc @ [10]), acc @ [10]) t"
    using t(4) c(1) by (simp add: k Let_def t_def)
  then show ?case using t c by (simp add: k con_lines_def) (simp add: t_def)
qed

lemma type_plain:
  assumes "\<forall>c \<in> set cs. 32 \<le> c \<and> c < 127" "length e + length cs < 128"
  shows "fold line_step cs ([], e) = ([], e @ map word_of_int cs)"
  using assms
proof (induction cs arbitrary: e)
  case (Cons c cs)
  then have "line_step c ([], e) = ([], e @ [word_of_int c])" by (auto simp: line_step_def)
  then show ?case using Cons.IH [of "e @ [word_of_int c]"] Cons.prems by simp
qed simp

lemma plain_byte:
  assumes "32 \<le> c" "c < 127"
  shows "word_of_int c \<noteq> (10 :: uchar)" "word_of_int c \<noteq> (4 :: uchar)"
proof -
  have "uint (word_of_int c :: uchar) = c" using assms by (simp add: uint_word_of_int)
  then show "word_of_int c \<noteq> (10 :: uchar)" "word_of_int c \<noteq> (4 :: uchar)" using assms by auto
qed

text \<open>
  C31. A line typed at the console is read back: after fewer than 128 printable characters and a carriage return, a reader
  that asks for at least that many bytes gets exactly those characters and a newline, does not sleep, and
  the buffer is empty again.\<close>

theorem console_line_roundtrip:
  assumes "console_ok s" "k_held s = {}" "con_lines s = ([], [])"
    and "\<forall>c \<in> set cs. 32 \<le> c \<and> c < 127" "length cs < INPUT_BUF" "length cs < n"
  shows "\<exists>t u. consoleintr (cs @ [13]) s = Ret () t \<and>
    consoleread_loop n n [] t = Ret (Some (n - Suc (length cs), map word_of_int cs @ [10]), map word_of_int cs @ [10]) u \<and>
    con_lines u = ([], [])"
proof -
  let ?l = "map word_of_int cs :: uchar list"
  have "\<forall>c \<in> set (cs @ [13]). 0 \<le> c \<and> c < 256" using assms(4) by auto
  then obtain t where t: "consoleintr (cs @ [13]) s = Ret () t" "console_ok t" "con_lines t = fold line_step (cs @ [13]) ([], [])"
    using consoleintr_line [OF assms(1,2), of "cs @ [13]"] assms(3) by auto
  have l: "con_lines t = (?l @ 10 # [], [])"
    using t(3) type_plain [OF assms(4), of "[]"] assms(5) by (simp add: line_step_def)
  have "10 \<notin> set ?l" "4 \<notin> set ?l" using assms(4) plain_byte by force+
  then obtain u where "consoleread_loop n n [] t =
    Ret (Some (n - Suc (length ?l), [] @ ?l @ [10]), [] @ ?l @ [10]) u" "con_lines u = ([], edited (cn_in t))"
    using consoleread_loop_line [of t ?l "[]" n n "[]"] t(2) l assms(6) by (auto simp: console_ok_def con_lines_def)
  then show ?thesis using t(1) l by (auto simp: con_lines_def)
qed

theorem console_line_roundtrip_witness:
  "\<exists>t u. consoleintr [108, 115, 13] (sample_state []) = Ret () t \<and>
     consoleread_loop 100 100 [] t = Ret (Some (97, [108, 115, 10]), [108, 115, 10]) u"
proof -
  have "console_ok (sample_state [])" "con_lines (sample_state []) = ([], [])"
    by (simp_all add: console_ok_def screen_ok_def conin_ok_def con_lines_def committed_def edited_def)
  then show ?thesis
    using console_line_roundtrip [of "sample_state []" "[108, 115]" 100] by auto
qed

section \<open>Printing numbers\<close>

definition digit_val :: "int \<Rightarrow> nat" where
  "digit_val c = nat (if c < 97 then c - 48 else c - 87)"

definition digits_val :: "nat \<Rightarrow> int list \<Rightarrow> nat" where
  "digits_val b cs = foldl (\<lambda>v c. v * b + digit_val c) 0 cs"

definition parse_int :: "int list \<Rightarrow> int" where
  "parse_int cs = (case cs of [] \<Rightarrow> 0 | c # ds \<Rightarrow> if c = 45 then - int (digits_val 10 ds) else int (digits_val 10 cs))"

lemma digit_val_char: "d < 16 \<Longrightarrow> digit_val (digit_char d) = d"
  by (simp add: digit_val_def digit_char_def)

lemma digits_val_digits:
  assumes "2 \<le> b" "b \<le> 16"
  shows "digits_val b (rev (digits_rev b x)) = x"
  using assms
proof (induction b x rule: digits_rev.induct)
  case (1 b x)
  have d: "digit_val (digit_char (x mod b)) = x mod b"
    using "1.prems" mod_less_divisor [of b x] by (intro digit_val_char) linarith
  show ?case
  proof (cases "x div b = 0")
    case True
    then have "x mod b = x" using "1.prems" by (simp add: div_eq_0_iff)
    then show ?thesis using True "1.prems" d by (subst digits_rev.simps) (simp add: digits_val_def)
  next
    case False
    then have "digits_val b (rev (digits_rev b (x div b))) = x div b" using "1.IH" "1.prems" by simp
    then show ?thesis using False "1.prems" d by (subst digits_rev.simps) (simp add: digits_val_def)
  qed
qed

lemma digits_rev_length:
  assumes "10 \<le> b" "x < 10 ^ Suc k"
  shows "length (digits_rev b x) \<le> Suc k"
  using assms
proof (induction k arbitrary: x)
  case 0
  then have "x div b = 0" by (simp add: div_eq_0_iff)
  then show ?case by (subst digits_rev.simps) simp
next
  case (Suc k)
  have "x div b \<le> x div 10" using Suc.prems(1) by (simp add: div_le_mono2)
  also have "\<dots> < 10 ^ Suc k" using Suc.prems(2) by (simp add: less_mult_imp_div_less)
  finally have "length (digits_rev b (x div b)) \<le> Suc k" using Suc.IH Suc.prems(1) by simp
  then show ?case by (subst digits_rev.simps) simp
qed

lemma digits_rev_chars: "set (digits_rev b x) \<subseteq> {48..57} \<union> {97..}"
  by (induction b x rule: digits_rev.induct) (subst digits_rev.simps, auto simp: digit_char_def)

lemma digits_rev_Cons: "2 \<le> b \<Longrightarrow> digits_rev b x \<noteq> []"
  by (subst digits_rev.simps) simp

lemma sint_cases: "sint (x :: uint) = uint x - 4294967296 * of_bool (bit (uint x) 31)"
  using uint_lt2p [of x]
  by (simp add: sint_uint signed_take_bit_eq_take_bit_minus take_bit_int_eq_self)

text \<open>
  C39. printint prints the number it is given: the characters of %d read as a signed decimal are the argument for each of the
  2^32 values, the most negative one included, those of %x are the argument in base 16, and neither needs more
  than the 16 bytes of the buffer.\<close>

theorem printint_reads_back:
  "parse_int (printint_chars x 10 True) = sint x \<and> digits_val 16 (printint_chars x 16 False) = unat x \<and>
   length (printint_chars x 10 True) \<le> 16 \<and> length (printint_chars x 16 False) \<le> 16"
proof -
  have pos: "parse_int (rev (digits_rev 10 n)) = int n" for n
  proof -
    obtain c ds where e: "rev (digits_rev 10 n) = c # ds" using digits_rev_Cons [of 10 n] by (cases "rev (digits_rev 10 n)") auto
    then have "c \<in> set (digits_rev 10 n)" by (metis list.set_intros(1) set_rev)
    then have "c \<noteq> 45" using digits_rev_chars [of 10 n] by auto
    then show ?thesis using e digits_val_digits [of 10 n] by (simp add: parse_int_def)
  qed
  have v: "parse_int (printint_chars x 10 True) = sint x"
  proof (cases "sint x < 0")
    case True
    have m: "sint x = uint x - 4294967296" using True sint_cases [of x] uint_lt2p [of x] by (auto simp: of_bool_def split: if_splits)
    then have "0 < uint x" using sint_greater_eq [of x] by simp
    then have "(- uint x) mod 4294967296 = 4294967296 - uint x"
      using uint_lt2p [of x] mod_pos_pos_trivial [of "4294967296 - uint x" 4294967296] mod_add_self1 [of 4294967296 "- uint x"] by simp
    then have "int (unat (- x)) = - sint x" by (simp add: m uint_word_ariths)
    then show ?thesis using True digits_val_digits [of 10 "unat (- x)"]
      by (simp add: printint_chars_def parse_int_def Let_def)
  next
    case False
    then have "int (unat x) = sint x" using sint_cases [of x] uint_lt2p [of x] by (auto simp: of_bool_def split: if_splits)
    then show ?thesis using False pos [of "unat x"] by (simp add: printint_chars_def Let_def)
  qed
  have l: "length (digits_rev b (unat y)) \<le> 10" if "10 \<le> b" for b and y :: uint
    using digits_rev_length [of b "unat y" 9] that unat_lt32 [of y] by simp
  show ?thesis
    using v digits_val_digits [of 16 "unat x"] l [of 10 x] l [of 10 "- x"] l [of 16 x] by (auto simp: printint_chars_def Let_def)
qed

end
