(* ===== verification/Proc_Exit.thy ===== *)
theory Proc_Exit
  imports Sample_State
begin

text \<open>
  The end of a process: \<^verbatim>\<open>exit\<close> and \<^verbatim>\<open>thread_exit_os\<close> leave a zombie, hand its children to \<^verbatim>\<open>init\<close> and wake the parent,
  and \<^verbatim>\<open>wait\<close> then finds the zombie.
\<close>

section \<open>Orphans\<close>

text \<open>The table after some waking: nothing changes but sleeping processes that become runnable.\<close>

definition only_woken :: "(nat \<Rightarrow> proc) \<Rightarrow> (nat \<Rightarrow> proc) \<Rightarrow> bool" where
  "only_woken P Q \<longleftrightarrow> (\<forall>i. Q i = P i \<or> p_state (P i) = SLEEPING \<and> Q i = (P i)\<lparr>p_state := RUNNABLE\<rparr>)"

lemma only_woken_refl [simp]: "only_woken P P"
  by (simp add: only_woken_def)

lemma only_wokenE: "only_woken P Q \<Longrightarrow> Q i = P i \<or> p_state (P i) = SLEEPING \<and> Q i = (P i)\<lparr>p_state := RUNNABLE\<rparr>"
  by (simp add: only_woken_def)

lemma only_woken_trans:
  assumes "only_woken P Q" "only_woken Q R"
  shows "only_woken P R"
  unfolding only_woken_def
proof
  fix i
  show "R i = P i \<or> p_state (P i) = SLEEPING \<and> R i = (P i)\<lparr>p_state := RUNNABLE\<rparr>"
    using only_wokenE [OF assms(1), of i] only_wokenE [OF assms(2), of i] by auto
qed

lemma only_woken_wake: "only_woken P (\<lambda>i. if i < NPROC then wake_proc c (P i) else P i)"
  by (simp add: only_woken_def wake_proc_def)

lemma only_wokenD:
  assumes "only_woken P Q"
  shows "p_parent (Q i) = p_parent (P i)" "p_state (P i) \<noteq> SLEEPING \<Longrightarrow> Q i = P i" "p_pid (Q i) = p_pid (P i)"
    "p_state (P i) = RUNNABLE \<Longrightarrow> p_state (Q i) = RUNNABLE" "(p_state (Q i) = ZOMBIE) = (p_state (P i) = ZOMBIE)"
  using only_wokenE [OF assms, of i] by auto

lemma wake_proc_chan_eq:
  "\<exists>Q. wake_proc_chan p s = Ret () (s\<lparr>pt_procs := Q\<rparr>) \<and> only_woken (pt_procs s) Q \<and>
    (\<forall>i. i < NPROC \<and> p = Some q \<and> p_state (pt_procs s i) = SLEEPING \<and> p_chan (pt_procs s i) = Some (ChanProc q) \<longrightarrow>
       p_state (Q i) = RUNNABLE)"
proof (cases p)
  case None
  then show ?thesis by (intro exI [of _ "pt_procs s"]) (simp add: wake_proc_chan_def kop_simps)
next
  case (Some r)
  then show ?thesis
    by (intro exI [of _ "\<lambda>i. if i < NPROC then wake_proc (ChanProc r) (pt_procs s i) else pt_procs s i"])
      (simp add: wake_proc_chan_def wakeup1_eq only_woken_wake, simp add: wake_proc_def)
qed

text \<open>The table with the children of \<open>p\<close> among the first \<open>n\<close> entries handed over.\<close>

definition handed :: "nat \<Rightarrow> nat option \<Rightarrow> nat \<Rightarrow> (nat \<Rightarrow> proc) \<Rightarrow> nat \<Rightarrow> proc" where
  "handed p init n P = (\<lambda>i. if i < n \<and> p_parent (P i) = Some p then (P i)\<lparr>p_parent := init\<rparr> else P i)"

lemma orphan_eq:
  assumes "pt_initproc s \<noteq> Some p"
  shows "\<exists>Q. orphan p s = Ret () (s\<lparr>pt_procs := Q\<rparr>) \<and> only_woken (handed p (pt_initproc s) NPROC (pt_procs s)) Q"
proof -
  define I where "I = (\<lambda>n t. \<exists>Q. t = s\<lparr>pt_procs := Q\<rparr> \<and> only_woken (handed p (pt_initproc s) n (pt_procs s)) Q)"
  have "\<exists>t. orphan p s = Ret () t \<and> I NPROC t"
    unfolding orphan_def
  proof (rule forK_upt_Ret)
    show "I 0 s" unfolding I_def by (intro exI [of _ "pt_procs s"]) (simp add: handed_def)
    fix i t assume "I i t"
    then obtain Q where t: "t = s\<lparr>pt_procs := Q\<rparr>" and Q: "only_woken (handed p (pt_initproc s) i (pt_procs s)) Q"
      by (auto simp: I_def)
    have pi: "p_parent (Q i) = p_parent (pt_procs s i)" using only_wokenD(1) [OF Q, of i] by (simp add: handed_def)
    show "\<exists>u. (if p_parent (pt_procs t i) = Some p
       then seqK (modifyK (\<lambda>s. upd_proc i (\<lambda>q. q\<lparr>p_parent := pt_initproc s\<rparr>) s)) (\<lambda>s.
            whenK (p_state (pt_procs s i) = ZOMBIE) (wake_proc_chan (pt_initproc s)) s) t
       else Ret () t) = Ret () u \<and> I (Suc i) u"
    proof (cases "p_parent (pt_procs s i) = Some p")
      case False
      then have "handed p (pt_initproc s) (Suc i) (pt_procs s) = handed p (pt_initproc s) i (pt_procs s)"
        by (auto simp: handed_def fun_eq_iff less_Suc_eq)
      then show ?thesis using t Q pi False by (auto simp: I_def)
    next
      case True
      define R where "R = Q(i := (Q i)\<lparr>p_parent := pt_initproc s\<rparr>)"
      have R: "only_woken (handed p (pt_initproc s) (Suc i) (pt_procs s)) R"
        unfolding only_woken_def
      proof
        fix j
        show "R j = handed p (pt_initproc s) (Suc i) (pt_procs s) j \<or>
          p_state (handed p (pt_initproc s) (Suc i) (pt_procs s) j) = SLEEPING \<and>
          R j = (handed p (pt_initproc s) (Suc i) (pt_procs s) j)\<lparr>p_state := RUNNABLE\<rparr>"
          using only_wokenE [OF Q, of j] True by (cases "j = i") (auto simp: R_def handed_def less_Suc_eq)
      qed
      obtain Q' where Q': "wake_proc_chan (pt_initproc s) (s\<lparr>pt_procs := R\<rparr>) = Ret () (s\<lparr>pt_procs := R, pt_procs := Q'\<rparr>)"
        "only_woken R Q'" using wake_proc_chan_eq [of "pt_initproc s" "s\<lparr>pt_procs := R\<rparr>"] by auto
      have "upd_proc i (\<lambda>q. q\<lparr>p_parent := pt_initproc s\<rparr>) t = s\<lparr>pt_procs := R\<rparr>" by (simp add: upd_proc_def t R_def)
      then show ?thesis using t pi True Q' R only_woken_trans [OF R Q'(2)]
        by (cases "p_state (R i) = ZOMBIE") (auto simp: kop_simps I_def)
    qed
  qed
  then show ?thesis by (auto simp: I_def)
qed

section \<open>The last steps of a process\<close>

text \<open>What \<^verbatim>\<open>exit\<close> and \<^verbatim>\<open>thread_exit_os\<close> have in common: \<^verbatim>\<open>ptable.lock\<close> is taken, the parent is woken, the children are handed over
  and the process becomes a zombie.\<close>

lemma exit_tail:
  assumes "k_held s = {}" "pt_cur s = Some c" "c < NPROC" "pt_initproc s \<noteq> Some c" "p_state (pt_procs s c) \<noteq> SLEEPING"
    and "p_parent (pt_procs s c) = Some par" "par < NPROC" "par \<noteq> c" "p_state (pt_procs s par) = SLEEPING"
    and "p_chan (pt_procs s par) = Some (ChanProc par)"
  shows "\<exists>Q. seqK (acquire PtableLock)
      (seqK (\<lambda>s. wake_proc_chan (p_parent (pt_procs s c)) s) (seqK (orphan c) (modifyK (set_state c ZOMBIE)))) s =
      Ret () (s\<lparr>k_held := {PtableLock}, pt_procs := Q\<rparr>) \<and>
    p_state (Q c) = ZOMBIE \<and> p_parent (Q c) = Some par \<and> p_pid (Q c) = p_pid (pt_procs s c) \<and> p_state (Q par) = RUNNABLE \<and>
    (\<forall>i < NPROC. p_parent (pt_procs s i) = Some c \<longrightarrow> p_parent (Q i) = pt_initproc s)"
proof -
  let ?s1 = "s\<lparr>k_held := {PtableLock}\<rparr>"
  obtain Q1 where Q1: "wake_proc_chan (Some par) ?s1 = Ret () (?s1\<lparr>pt_procs := Q1\<rparr>)" "only_woken (pt_procs s) Q1"
    "p_state (Q1 par) = RUNNABLE"
    using wake_proc_chan_eq [of "Some par" ?s1 par] assms(7,9,10) by auto
  obtain Q2 where Q2: "orphan c (?s1\<lparr>pt_procs := Q1\<rparr>) = Ret () (?s1\<lparr>pt_procs := Q1, pt_procs := Q2\<rparr>)"
    "only_woken (handed c (pt_initproc s) NPROC Q1) Q2"
    using orphan_eq [of "?s1\<lparr>pt_procs := Q1\<rparr>" c] assms(4) by auto
  define Q where "Q = Q2(c := (Q2 c)\<lparr>p_state := ZOMBIE\<rparr>)"
  have par: "p_parent (Q2 i) = (if i < NPROC \<and> p_parent (pt_procs s i) = Some c then pt_initproc s else p_parent (pt_procs s i))" for i
    using only_wokenD(1) [OF Q2(2), of i] only_wokenD(1) [OF Q1(2), of i] by (simp add: handed_def)
  have pid: "p_pid (Q2 c) = p_pid (pt_procs s c)"
    using only_wokenD(3) [OF Q2(2), of c] only_wokenD(3) [OF Q1(2), of c] by (simp add: handed_def split: if_splits)
  have rn: "p_state (Q2 par) = RUNNABLE"
    using only_wokenD(4) [OF Q2(2), of par] Q1(3) by (simp add: handed_def split: if_splits)
  have "seqK (acquire PtableLock)
      (seqK (\<lambda>s. wake_proc_chan (p_parent (pt_procs s c)) s) (seqK (orphan c) (modifyK (set_state c ZOMBIE)))) s =
      Ret () (s\<lparr>k_held := {PtableLock}, pt_procs := Q\<rparr>)"
    using assms(1,6) Q1(1) Q2(1) by (simp add: kop_simps set_state_def upd_proc_def Q_def)
  moreover have "p_state (Q c) = ZOMBIE" "p_parent (Q c) = Some par" "p_pid (Q c) = p_pid (pt_procs s c)" "p_state (Q par) = RUNNABLE"
    using par [of c] assms(6,8) pid rn by (simp_all add: Q_def)
  moreover have "\<forall>i < NPROC. p_parent (pt_procs s i) = Some c \<longrightarrow> p_parent (Q i) = pt_initproc s"
    using par by (simp add: Q_def)
  ultimately show ?thesis by blast
qed

lemma seqK_cont:
  assumes "seqK a (seqK b (seqK c d)) s = Ret () t"
  shows "seqK a (seqK b (seqK c (seqK d k))) s = k t"
  using assms by (auto simp: kop_simps split: outcome.splits)

lemma wait_finds_zombie:
  assumes "pt_cur s = Some par" "c < NPROC" "p_state (pt_procs s c) = ZOMBIE" "p_parent (pt_procs s c) = Some par"
  shows "\<exists>z \<le> c. p_state (pt_procs s z) = ZOMBIE \<and> p_parent (pt_procs s z) = Some par \<and> wait_loop s = reap z s"
proof -
  obtain z where z: "List.find (\<lambda>i. p_parent (pt_procs s i) = Some par \<and> p_state (pt_procs s i) = ZOMBIE) [0..<NPROC] = Some z"
    using assms(2-4) find_NoneD [of "\<lambda>i. p_parent (pt_procs s i) = Some par \<and> p_state (pt_procs s i) = ZOMBIE" "[0..<NPROC]" c]
    by fastforce
  then have "z \<le> c" "p_state (pt_procs s z) = ZOMBIE" "p_parent (pt_procs s z) = Some par"
    using assms(3,4) by (auto simp: find_upt_Some not_le [symmetric])
  then show ?thesis using z assms(1) by (auto simp: wait_loop_def myproc_def kop_simps)
qed

text \<open>
  C10. exit wakes a waiting parent for good: when a child whose parent sleeps in wait exits, it ends in the scheduler as a
  zombie that still names its parent and its process id, its own children belong to init, and the
  parent is runnable; and when the parent runs again its wait does not go back to sleep or fail but
  reaps a zombie child.\<close>

theorem exit_wakes_waiting_parent:
  assumes "pt_cur s = Some c" "pt_initproc s \<noteq> Some c" "close_files c s = Ret () s1"
    and "k_held s1 = {}" "pt_cur s1 = Some c" "c < NPROC" "pt_initproc s1 \<noteq> Some c" "p_state (pt_procs s1 c) = RUNNING"
    and "p_parent (pt_procs s1 c) = Some par" "par < NPROC" "par \<noteq> c" "p_state (pt_procs s1 par) = SLEEPING"
    and "p_chan (pt_procs s1 par) = Some (ChanProc par)"
  shows "\<exists>t. exit s = Sleep t \<and> k_held t = {PtableLock} \<and> p_state (pt_procs t c) = ZOMBIE \<and>
    p_parent (pt_procs t c) = Some par \<and> p_pid (pt_procs t c) = p_pid (pt_procs s1 c) \<and> p_state (pt_procs t par) = RUNNABLE \<and>
    (\<forall>i < NPROC. p_parent (pt_procs s1 i) = Some c \<longrightarrow> p_parent (pt_procs t i) = pt_initproc s1) \<and>
    (\<exists>z u. wait_wake (t\<lparr>pt_cur := Some par\<rparr>) = reap z u \<and> p_state (pt_procs u z) = ZOMBIE \<and> p_parent (pt_procs u z) = Some par)"
proof -
  obtain Q where Q: "seqK (acquire PtableLock)
      (seqK (\<lambda>s. wake_proc_chan (p_parent (pt_procs s c)) s) (seqK (orphan c) (modifyK (set_state c ZOMBIE)))) s1 =
      Ret () (s1\<lparr>k_held := {PtableLock}, pt_procs := Q\<rparr>)"
    "p_state (Q c) = ZOMBIE" "p_parent (Q c) = Some par" "p_pid (Q c) = p_pid (pt_procs s1 c)" "p_state (Q par) = RUNNABLE"
    "\<forall>i < NPROC. p_parent (pt_procs s1 i) = Some c \<longrightarrow> p_parent (Q i) = pt_initproc s1"
    using exit_tail [OF assms(4-7) _ assms(9-13)] assms(8) by auto
  define t where "t = s1\<lparr>k_held := {PtableLock}, pt_procs := Q\<rparr>"
  have sc: "sched t = Sleep t" by (rule sched_eq [of _ c]) (simp_all add: t_def assms(5) Q(2))
  have "seqK (acquire PtableLock)
      (seqK (\<lambda>s. wake_proc_chan (p_parent (pt_procs s c)) s) (seqK (orphan c) (seqK (modifyK (set_state c ZOMBIE))
      (seqK sched (panic ''zombie exit''))))) s1 = seqK sched (panic ''zombie exit'') t"
    using seqK_cont [OF Q(1), of "seqK sched (panic ''zombie exit'')"] by (simp add: t_def)
  then have e: "exit s = Sleep t"
    using assms(1-3) sc by (simp add: exit_def myproc_def kop_simps)
  define u where "u = upd_proc par (\<lambda>q. q\<lparr>p_chan := None\<rparr>) (t\<lparr>pt_cur := Some par\<rparr>)"
  have w: "wait_wake (t\<lparr>pt_cur := Some par\<rparr>) = wait_loop u"
    by (simp add: wait_wake_def sleep_wake_def myproc_def kop_simps u_def)
  obtain z where "p_state (pt_procs u z) = ZOMBIE" "p_parent (pt_procs u z) = Some par" "wait_loop u = reap z u"
    using wait_finds_zombie [of u par c] Q(2,3) assms(6,11) by (auto simp: u_def t_def)
  then show ?thesis using e w Q(2-6) by (auto simp: t_def)
qed

text \<open>Process 0, a child of process 1, which waits; init is process 2.\<close>

definition child_state :: consst where
  "child_state = (sample_state [])\<lparr>lg_n := 0, pt_initproc := Some 2, pt_procs := (\<lambda>_. blank_proc)
     (0 := sample_proc\<lparr>p_parent := Some 1\<rparr>,
      1 := blank_proc\<lparr>p_state := SLEEPING, p_pid := 7, p_chan := Some (ChanProc 1), p_parent := Some 2\<rparr>)\<rparr>"

lemma forK_skip: "(\<And>x. x \<in> set xs \<Longrightarrow> f x s = Ret () s) \<Longrightarrow> forK xs f s = Ret () s"
  by (induction xs) (simp_all add: kop_simps)

lemma iput_keep:
  assumes "k_held s = {}" "\<not> sl_locked s (InodeSleep ip)" "pt_cur s = Some p" "\<not> (i_valid (ic s ip) \<and> i_nlink (ic s ip) = 0)"
  shows "\<exists>l m. iput ip s = Ret () (upd_ino ip (\<lambda>i. i\<lparr>i_ref := i_ref i - 1\<rparr>)
    (wake_all (ChanSleeplock (InodeSleep ip)) (s\<lparr>sl_locked := l, sl_pid := m\<rparr>)))"
proof -
  let ?t = "upd_sl (InodeSleep ip) True (p_pid (pt_procs s p)) s"
  have i: "ic ?t = ic s" by (simp add: upd_sl_def)
  have "iput ip s = iput_locked ip ?t"
    using assms(1-3) acquiresleep_free [of "InodeSleep ip" s p] by (simp add: iput_def kop_simps)
  also have "\<dots> = seqK (releasesleep (InodeSleep ip)) (seqK (acquire IcacheLock)
    (seqK (modifyK (upd_ino ip (\<lambda>i. i\<lparr>i_ref := i_ref i - 1\<rparr>))) (release IcacheLock))) ?t"
    using assms(4) by (auto simp: iput_locked_def kop_simps i)
  finally have e: "iput ip s = \<dots>" .
  define l m where "l = (sl_locked s)(InodeSleep ip := False)" and "m = (sl_pid s)(InodeSleep ip := 0)"
  define t where "t = wake_all (ChanSleeplock (InodeSleep ip)) (s\<lparr>sl_locked := l, sl_pid := m\<rparr>)"
  have "releasesleep (InodeSleep ip) ?t = Ret () t"
    using assms(1) releasesleep_eq [of "InodeSleep ip" ?t] by (simp add: t_def l_def m_def upd_sl_def)
  moreover have k: "k_held t = {}" using assms(1) by (simp add: t_def wake_all_def)
  moreover have "(upd_ino ip f (t\<lparr>k_held := {IcacheLock}\<rparr>))\<lparr>k_held := {}\<rparr> = upd_ino ip f t" for f
    using k by (cases t) (simp add: upd_ino_def)
  ultimately have "iput ip s = Ret () (upd_ino ip (\<lambda>i. i\<lparr>i_ref := i_ref i - 1\<rparr>) t)"
    by (simp add: e kop_simps) (simp add: upd_ino_def)
  then show ?thesis unfolding t_def by blast
qed

lemma end_op_idle:
  assumes "k_held s = {}" "\<not> lg_committing s" "lg_outstanding s = 1" "lg_n s \<le> 0"
  shows "\<exists>t. end_op s = Ret () t \<and> k_held t = {} \<and> pt_cur t = pt_cur s \<and> pt_initproc t = pt_initproc s \<and>
    pt_procs t = pt_procs (wake_all ChanLog s)"
  using assms by (simp add: end_op_def kop_simps commit_none wakeup_eq wake_all_def cong: if_cong)

lemma child_state_closes:
  "\<exists>s1. close_files 0 child_state = Ret () s1 \<and> k_held s1 = {} \<and> pt_cur s1 = Some 0 \<and> pt_initproc s1 = Some 2 \<and>
     p_state (pt_procs s1 0) = RUNNING \<and> p_parent (pt_procs s1 0) = Some 1 \<and> p_state (pt_procs s1 1) = SLEEPING \<and>
     p_chan (pt_procs s1 1) = Some (ChanProc 1)"
proof -
  let ?s = child_state
  have f: "k_held ?s = {}" "pt_cur ?s = Some 0" "pt_initproc ?s = Some 2" "ic ?s = (\<lambda>_. no_inode)" "lg_n ?s = 0"
    "sl_locked ?s = (\<lambda>_. False)" "\<not> lg_committing ?s" "lg_outstanding ?s = 0" "p_ofile (pt_procs ?s 0) = (\<lambda>_. None)"
    "p_cwd (pt_procs ?s 0) = Some 0" "p_state (pt_procs ?s 0) = RUNNING" "p_parent (pt_procs ?s 0) = Some 1"
    "p_state (pt_procs ?s 1) = SLEEPING" "p_chan (pt_procs ?s 1) = Some (ChanProc 1)"
    by (simp_all add: child_state_def sample_defs sample_proc_def blank_proc_def)
  have o: "forK [0..<NOFILE] (\<lambda>fd s. case p_ofile (pt_procs s 0) fd of None \<Rightarrow> Ret () s
       | Some f \<Rightarrow> seqK (fileclose f) (modifyK (upd_proc 0 (\<lambda>q. q\<lparr>p_ofile := (p_ofile q)(fd := None)\<rparr>))) s) ?s = Ret () ?s"
    by (rule forK_skip) (simp add: f)
  define s1 where "s1 = ?s\<lparr>lg_outstanding := 1\<rparr>"
  have b: "begin_op ?s = Ret () s1" using f by (simp add: begin_op_def begin_op_loop_def kop_simps s1_def)
  obtain l m where i: "iput 0 s1 = Ret () (upd_ino 0 (\<lambda>i. i\<lparr>i_ref := i_ref i - 1\<rparr>)
    (wake_all (ChanSleeplock (InodeSleep 0)) (s1\<lparr>sl_locked := l, sl_pid := m\<rparr>)))" (is "_ = Ret () ?s2")
    using iput_keep [of s1 0 0] f by (auto simp: s1_def no_inode_def)
  have g: "k_held ?s2 = {}" "pt_cur ?s2 = Some 0" "pt_initproc ?s2 = Some 2" "lg_n ?s2 = 0" "\<not> lg_committing ?s2"
    "lg_outstanding ?s2 = 1" "p_state (pt_procs ?s2 0) = RUNNING" "p_parent (pt_procs ?s2 0) = Some 1"
    "p_state (pt_procs ?s2 1) = SLEEPING" "p_chan (pt_procs ?s2 1) = Some (ChanProc 1)"
    using f by (simp_all add: upd_ino_def s1_def wake_all_def wake_proc_def)
  obtain s3 where "end_op ?s2 = Ret () s3" and h: "k_held s3 = {}" "pt_cur s3 = Some 0" "pt_initproc s3 = Some 2"
    "pt_procs s3 = pt_procs (wake_all ChanLog ?s2)" using end_op_idle [of ?s2] g by auto
  moreover have "p_state (pt_procs s3 0) = RUNNING" "p_parent (pt_procs s3 0) = Some 1" "p_state (pt_procs s3 1) = SLEEPING"
     "p_chan (pt_procs s3 1) = Some (ChanProc 1)"
    unfolding h(4) using g by (simp_all add: wake_all_def [of ChanLog] wake_proc_def)
  moreover have "close_files 0 ?s = seqK end_op (modifyK (upd_proc 0 (\<lambda>q. q\<lparr>p_cwd := None\<rparr>))) ?s2"
    unfolding close_files_def using o b i f by (simp add: kop_simps s1_def)
  ultimately show ?thesis by (simp add: kop_simps upd_proc_def)
qed

theorem exit_wakes_waiting_parent_witness:
  "\<exists>t. exit child_state = Sleep t \<and> p_state (pt_procs t 0) = ZOMBIE \<and> p_state (pt_procs t 1) = RUNNABLE"
proof -
  have c: "pt_cur child_state = Some 0" "pt_initproc child_state \<noteq> Some 0" by (simp_all add: child_state_def)
  obtain s1 where s1: "close_files 0 child_state = Ret () s1" "k_held s1 = {}" "pt_cur s1 = Some 0" "pt_initproc s1 = Some 2"
     "p_state (pt_procs s1 0) = RUNNING" "p_parent (pt_procs s1 0) = Some 1" "p_state (pt_procs s1 1) = SLEEPING"
     "p_chan (pt_procs s1 1) = Some (ChanProc 1)" using child_state_closes by blast
  show ?thesis using exit_wakes_waiting_parent [OF c s1(1-3) _ _ s1(5,6) _ _ s1(7,8)] s1(4) by auto
qed

end
