(* ===== verification/Exec.thy ===== *)
theory Exec
  imports Proc_Life
begin

text \<open>
  \<^verbatim>\<open>exec\<close> (\<^verbatim>\<open>exec.c\<close>) and \<^verbatim>\<open>loaduvm\<close> (\<^verbatim>\<open>vm.c\<close>): a new page directory is filled from an ELF file and from the arguments, and
  only then replaces the old one. \<^term>\<open>None\<close> as the result of a stage is a jump to \<^verbatim>\<open>bad\<close>.
\<close>

section \<open>ELF headers\<close>

abbreviation (input) ELF_MAGIC :: uint where "ELF_MAGIC \<equiv> 0x464C457F"

record elfhdr =
  e_magic :: uint
  e_entry :: uint
  e_phoff :: uint
  e_phnum :: ushort

definition get_elfhdr :: "stream \<Rightarrow> elfhdr" where
  "get_elfhdr d = \<lparr>e_magic = get32 d 0, e_entry = get32 d 24, e_phoff = get32 d 28, e_phnum = get16 d 44\<rparr>"

record proghdr =
  ph_type :: uint
  ph_off :: uint
  ph_vaddr :: uint
  ph_filesz :: uint
  ph_memsz :: uint

definition get_proghdr :: "stream \<Rightarrow> proghdr" where
  "get_proghdr d = \<lparr>ph_type = get32 d 0, ph_off = get32 d 4, ph_vaddr = get32 d 8, ph_filesz = get32 d 16,
     ph_memsz = get32 d 20\<rparr>"

section \<open>Loading\<close>

text \<open>The loop of \<^verbatim>\<open>loaduvm\<close>, from offset \<open>i\<close> of the segment.\<close>

function loaduvm_loop ::
  "(int \<Rightarrow> 'z fs_scheme devsw) \<Rightarrow> addr \<Rightarrow> addr \<Rightarrow> nat \<Rightarrow> uint \<Rightarrow> uint \<Rightarrow> nat \<Rightarrow> ('z fs_scheme, int) kop" where
  "loaduvm_loop devsw pgdir a ip offset sz i =
     (if i < unat sz
      then bindK (walkpgdir pgdir (a + of_nat i) False) (\<lambda>pte.
           case pte of
             None \<Rightarrow> panic ''loaduvm: address should exist''
           | Some pte \<Rightarrow> (\<lambda>s.
               let pa = PTE_ADDR (get_pte (k_mem s) pte);
                   n = (if sz - of_nat i < PGSIZE then sz - of_nat i else PGSIZE) in
               bindK (readi devsw ip (offset + of_nat i) n) (\<lambda>(r, bytes).
               seqK (modifyK (\<lambda>s. s\<lparr>k_mem := write_bytes (k_mem s) (P2V pa) (\<lambda>j. bytes ! j) (of_nat (length bytes))\<rparr>))
              (if r \<noteq> uint n then retK (- 1) else loaduvm_loop devsw pgdir a ip offset sz (i + 4096))) s))
      else retK 0)"
  by pat_completeness auto
termination
  by (relation "measure (\<lambda>(devsw, pgdir, a, ip, offset, sz, i). unat sz - i)") auto

definition loaduvm :: "(int \<Rightarrow> 'z fs_scheme devsw) \<Rightarrow> addr \<Rightarrow> addr \<Rightarrow> nat \<Rightarrow> uint \<Rightarrow> uint \<Rightarrow> ('z fs_scheme, int) kop" where
  "loaduvm devsw pgdir a ip offset sz =
     (if a mod PGSIZE \<noteq> 0 then panic ''loaduvm: addr must be page aligned''
      else loaduvm_loop devsw pgdir a ip offset sz 0)"

text \<open>The loop over the program headers, with \<open>k\<close> of them to go.\<close>

primrec exec_segments ::
  "nat \<Rightarrow> (int \<Rightarrow> 'z fs_scheme devsw) \<Rightarrow> nat \<Rightarrow> addr \<Rightarrow> uint \<Rightarrow> uint \<Rightarrow> ('z fs_scheme, uint option) kop" where
  "exec_segments 0 devsw ip pgdir off sz = retK (Some sz)"
| "exec_segments (Suc k) devsw ip pgdir off sz =
     bindK (readi devsw ip off 32) (\<lambda>(r, bytes).
     if r \<noteq> 32 then retK None
     else let ph = get_proghdr (\<lambda>i. bytes ! i) in
       if ph_type ph \<noteq> 1 then exec_segments k devsw ip pgdir (off + 32) sz
       else if ph_memsz ph < ph_filesz ph then retK None
       else if ph_vaddr ph + ph_memsz ph < ph_vaddr ph then retK None
       else bindK (allocuvm pgdir sz (ph_vaddr ph + ph_memsz ph)) (\<lambda>sz.
         if sz = 0 then retK None
         else if ph_vaddr ph mod PGSIZE \<noteq> 0 then retK None
         else bindK (loaduvm devsw pgdir (ph_vaddr ph) ip (ph_off ph) (ph_filesz ph)) (\<lambda>r.
           if r < 0 then retK None else exec_segments k devsw ip pgdir (off + 32) sz)))"

section \<open>The argument strings\<close>

definition cstring :: "uchar list \<Rightarrow> stream" where
  "cstring cs = (\<lambda>i. if i < length cs then cs ! i else 0)"

definition words_stream :: "uint list \<Rightarrow> stream" where
  "words_stream ws = (\<lambda>i. if i div 4 < length ws then byte_of (i mod 4) (ws ! (i div 4)) else 0)"

primrec push_args :: "uchar list list \<Rightarrow> addr \<Rightarrow> uint \<Rightarrow> uint list \<Rightarrow> ('z kmem_scheme, (uint \<times> uint list) option) kop" where
  "push_args [] pgdir sp acc = retK (Some (sp, acc))"
| "push_args (a # as) pgdir sp acc =
     (if length acc \<ge> MAXARG then retK None
      else let sp = (sp - of_nat (length a + 1)) AND NOT 3 in
        bindK (copyout pgdir sp (cstring a) (of_nat (length a + 1))) (\<lambda>r.
        if r < 0 then retK None else push_args as pgdir sp (acc @ [sp])))"

text \<open>The stack of the new program: the strings, the argument vector, \<^verbatim>\<open>argc\<close> and a return address. The result is the
  stack pointer.\<close>

definition exec_stack :: "addr \<Rightarrow> uint \<Rightarrow> uchar list list \<Rightarrow> ('z kmem_scheme, uint option) kop" where
  "exec_stack pgdir sz argv =
     bindK (push_args argv pgdir sz []) (\<lambda>r.
     case r of
       None \<Rightarrow> retK None
     | Some (sp, args) \<Rightarrow>
         let argc = of_nat (length args) :: uint;
             ustack = [0xFFFFFFFF, argc, sp - (argc + 1) * 4] @ args @ [0];
             sp = sp - (3 + argc + 1) * 4 in
         bindK (copyout pgdir sp (words_stream ustack) ((3 + argc + 1) * 4)) (\<lambda>r.
         retK (if r < 0 then None else Some sp)))"

text \<open>The last element of a path, for the name of the process.\<close>

definition path_last :: "uchar list \<Rightarrow> uchar list" where
  "path_last path = rev (takeWhile (\<lambda>c. c \<noteq> SLASH) (rev path))"

section \<open>\<^verbatim>\<open>exec\<close>\<close>

definition exec_bad :: "addr \<Rightarrow> nat option \<Rightarrow> ('z filest_scheme, int) kop" where
  "exec_bad pgdir ip =
     seqK (whenK (pgdir \<noteq> 0) (freevm pgdir))
    (seqK (case ip of None \<Rightarrow> retK () | Some ip \<Rightarrow> seqK (iunlockput ip) end_op)
          (retK (- 1)))"

definition exec_commit :: "nat \<Rightarrow> uchar list \<Rightarrow> elfhdr \<Rightarrow> addr \<Rightarrow> uint \<Rightarrow> uint \<Rightarrow> ('z filest_scheme, int) kop" where
  "exec_commit cur path elf pgdir sz sp =
     seqK (modifyK (upd_proc cur (\<lambda>q. q\<lparr>p_name := set_name (cstring (path_last path)) (p_name q)\<rparr>)))
    (bindK (getK (\<lambda>s. p_pgdir (pt_procs s cur))) (\<lambda>oldpgdir.
     seqK (modifyK (upd_proc cur (\<lambda>q. q\<lparr>p_pgdir := pgdir, p_sz := sz\<rparr>)))
    (seqK (modifyK (set_tf cur TF_EIP (e_entry elf)))
    (seqK (modifyK (set_tf cur TF_ESP sp))
    (seqK (switchuvm (Some cur))
    (seqK (\<lambda>s. whenK (p_tid (pt_procs s cur) \<noteq> 0) exit s)
    (seqK (freevm oldpgdir)
          (retK 0))))))))"

definition exec :: "(int \<Rightarrow> 'z filest_scheme devsw) \<Rightarrow> uchar list \<Rightarrow> uchar list list \<Rightarrow> ('z filest_scheme, int) kop" where
  "exec devsw path argv =
     bindK myproc (\<lambda>cur. derefK cur (\<lambda>cur.
     seqK begin_op
    (bindK (namei devsw path) (\<lambda>ip.
     case ip of
       None \<Rightarrow> seqK end_op (retK (- 1))
     | Some ip \<Rightarrow>
         seqK (ilock (Some ip))
        (bindK (readi devsw ip 0 52) (\<lambda>(r, bytes).
         let elf = get_elfhdr (\<lambda>i. bytes ! i) in
         if r \<noteq> 52 then exec_bad 0 (Some ip)
         else if e_magic elf \<noteq> ELF_MAGIC then exec_bad 0 (Some ip)
         else bindK setupkvm (\<lambda>pgdir.
           if pgdir = 0 then exec_bad 0 (Some ip)
           else bindK (exec_segments (unat (e_phnum elf)) devsw ip pgdir (e_phoff elf) 0) (\<lambda>sz.
             case sz of
               None \<Rightarrow> exec_bad pgdir (Some ip)
             | Some sz \<Rightarrow>
                 seqK (iunlockput ip)
                (seqK end_op
                (bindK (allocuvm pgdir (PGROUNDUP sz) (PGROUNDUP sz + 2 * PGSIZE)) (\<lambda>sz.
                 if sz = 0 then exec_bad pgdir None
                 else seqK (clearpteu pgdir (sz - 2 * PGSIZE))
                     (bindK (exec_stack pgdir sz argv) (\<lambda>sp.
                      case sp of
                        None \<Rightarrow> exec_bad pgdir None
                      | Some sp \<Rightarrow> exec_commit cur path elf pgdir sz sp)))))))))))))"

end
