(* ===== verification/Sysfile.thy ===== *)
theory Sysfile
  imports Exec
begin

text \<open>
  Fetching system call arguments (\<^verbatim>\<open>syscall.c\<close>) and the file system calls (\<^verbatim>\<open>sysfile.c\<close>, \<^verbatim>\<open>pread.c\<close>, \<^verbatim>\<open>pwrite.c\<close>). An argument
  function that returns -1 gives \<^term>\<open>None\<close>; \<^verbatim>\<open>argstr\<close> gives the string itself instead of the pointer to it.
\<close>

section \<open>Arguments\<close>

definition guardK :: "('s, 'a option) kop \<Rightarrow> ('a \<Rightarrow> ('s, int) kop) \<Rightarrow> ('s, int) kop" where
  "guardK m f = bindK m (\<lambda>r. case r of None \<Rightarrow> retK (- 1) | Some a \<Rightarrow> f a)"

definition fetchint :: "addr \<Rightarrow> ('z ptable_scheme, int option) kop" where
  "fetchint a =
     bindK myproc (\<lambda>p. derefK p (\<lambda>p s.
     if a \<ge> p_sz (pt_procs s p) \<or> a + 4 > p_sz (pt_procs s p) then Ret None s
     else bindK (uload a) (\<lambda>b0. bindK (uload (a + 1)) (\<lambda>b1. bindK (uload (a + 2)) (\<lambda>b2. bindK (uload (a + 3)) (\<lambda>b3.
          retK (Some (sint (join32 b0 b1 b2 b3))))))) s))"

definition fetchstr :: "addr \<Rightarrow> ('z ptable_scheme, uchar list option) kop" where
  "fetchstr a =
     bindK myproc (\<lambda>p. derefK p (\<lambda>p s.
     if a \<ge> p_sz (pt_procs s p) then Ret None s
     else (case List.find (\<lambda>i. cur_addr s (a + of_nat i) = None \<or> user_stream s a i = 0)
                  [0..<unat (p_sz (pt_procs s p)) - unat a] of
             None \<Rightarrow> Ret None s
           | Some n \<Rightarrow> if cur_addr s (a + of_nat n) = None then Panic ''trap''
                       else Ret (Some (map (user_stream s a) [0..<n])) s)))"

definition argint :: "nat \<Rightarrow> ('z ptable_scheme, int option) kop" where
  "argint n = bindK myproc (\<lambda>p. derefK p (\<lambda>p s. fetchint (get_tf p TF_ESP s + 4 + 4 * of_nat n) s))"

definition argptr :: "nat \<Rightarrow> int \<Rightarrow> ('z ptable_scheme, addr option) kop" where
  "argptr n size' =
     bindK myproc (\<lambda>p. derefK p (\<lambda>p.
     bindK (argint n) (\<lambda>r.
     case r of
       None \<Rightarrow> retK None
     | Some i \<Rightarrow> (\<lambda>s.
         let a = word_of_int i in
         if size' < 0 \<or> a \<ge> p_sz (pt_procs s p) \<or> a + word_of_int size' > p_sz (pt_procs s p) then Ret None s
         else Ret (Some a) s))))"

definition argstr :: "nat \<Rightarrow> ('z ptable_scheme, uchar list option) kop" where
  "argstr n = bindK (argint n) (\<lambda>r. case r of None \<Rightarrow> retK None | Some a \<Rightarrow> fetchstr (word_of_int a))"

definition argfd :: "nat \<Rightarrow> ('z filest_scheme, (int \<times> nat) option) kop" where
  "argfd n =
     bindK (argint n) (\<lambda>r.
     case r of
       None \<Rightarrow> retK None
     | Some fd \<Rightarrow> (\<lambda>s. case fd_file s fd of None \<Rightarrow> Ret None s | Some f \<Rightarrow> Ret (Some (fd, f)) s))"

definition fdalloc :: "nat \<Rightarrow> ('z ptable_scheme, int) kop" where
  "fdalloc f =
     bindK myproc (\<lambda>p. derefK p (\<lambda>p s.
     case List.find (\<lambda>fd. p_ofile (pt_procs s p) fd = None) [0..<NOFILE] of
       Some fd \<Rightarrow> Ret (int fd) (upd_proc p (\<lambda>q. q\<lparr>p_ofile := (p_ofile q)(fd := Some f)\<rparr>) s)
     | None \<Rightarrow> Ret (- 1) s))"

section \<open>Calls on open files\<close>

definition sys_dup :: "('z filest_scheme, int) kop" where
  "sys_dup = guardK (argfd 0) (\<lambda>(_, f).
     bindK (fdalloc f) (\<lambda>fd. if fd < 0 then retK (- 1) else seqK (filedup f) (retK fd)))"

definition sys_read :: "(int \<Rightarrow> 'z filest_scheme devsw) \<Rightarrow> ('z filest_scheme, int) kop" where
  "sys_read devsw = guardK (argfd 0) (\<lambda>(_, f). guardK (argint 2) (\<lambda>n. guardK (argptr 1 n) (\<lambda>p. fileread devsw f p n)))"

definition sys_write :: "(int \<Rightarrow> 'z filest_scheme devsw) \<Rightarrow> ('z filest_scheme, int) kop" where
  "sys_write devsw = guardK (argfd 0) (\<lambda>(_, f). guardK (argint 2) (\<lambda>n. guardK (argptr 1 n) (\<lambda>p. filewrite devsw f p n)))"

definition sys_close :: "('z filest_scheme, int) kop" where
  "sys_close = guardK (argfd 0) (\<lambda>(fd, f).
     bindK myproc (\<lambda>p. derefK p (\<lambda>p.
     seqK (modifyK (upd_proc p (\<lambda>q. q\<lparr>p_ofile := (p_ofile q)(nat fd := None)\<rparr>)))
    (seqK (fileclose f)
          (retK 0)))))"

text \<open>\<^verbatim>\<open>struct stat\<close> in memory: 20 bytes, with padding after each \<^verbatim>\<open>short\<close>, which the kernel leaves as it is.\<close>

definition stat_stores :: "addr \<Rightarrow> stat \<Rightarrow> ('z ptable_scheme, unit) kop" where
  "stat_stores a st =
     seqK (ustore32 (a + 4) (st_dev st))
    (seqK (ustore32 (a + 8) (st_ino st))
    (seqK (ustores a [ucast (st_type st), ucast (drop_bit 8 (st_type st))])
    (seqK (ustores (a + 12) [ucast (st_nlink st), ucast (drop_bit 8 (st_nlink st))])
          (ustore32 (a + 16) (st_size st)))))"

definition sys_fstat :: "('z filest_scheme, int) kop" where
  "sys_fstat = guardK (argfd 0) (\<lambda>(_, f). guardK (argptr 1 20) (\<lambda>a.
     bindK (filestat f) (\<lambda>r. case r of None \<Rightarrow> retK (- 1) | Some st \<Rightarrow> seqK (stat_stores a st) (retK 0))))"

section \<open>Links\<close>

definition set_nlink :: "nat \<Rightarrow> (ushort \<Rightarrow> ushort) \<Rightarrow> ('z fs_scheme, unit) kop" where
  "set_nlink ip f = seqK (modifyK (upd_ino ip (\<lambda>i. i\<lparr>i_nlink := f (i_nlink i)\<rparr>))) (iupdate ip)"

definition link_bad :: "nat \<Rightarrow> ('z fs_scheme, int) kop" where
  "link_bad ip =
     seqK (ilock (Some ip))
    (seqK (set_nlink ip (\<lambda>n. n - 1))
    (seqK (iunlockput ip)
    (seqK end_op
          (retK (- 1)))))"

definition sys_link :: "(int \<Rightarrow> 'z fs_scheme devsw) \<Rightarrow> ('z fs_scheme, int) kop" where
  "sys_link devsw = guardK (argstr 0) (\<lambda>old. guardK (argstr 1) (\<lambda>new.
     seqK begin_op
    (bindK (namei devsw old) (\<lambda>ip.
     case ip of
       None \<Rightarrow> seqK end_op (retK (- 1))
     | Some ip \<Rightarrow>
         seqK (ilock (Some ip)) (\<lambda>s.
         if i_type (ic s ip) = T_DIR then seqK (iunlockput ip) (seqK end_op (retK (- 1))) s
         else
           seqK (set_nlink ip (\<lambda>n. n + 1))
          (seqK (iunlock (Some ip))
          (bindK (nameiparent devsw new) (\<lambda>(dp, name).
           case dp of
             None \<Rightarrow> link_bad ip
           | Some dp \<Rightarrow>
               seqK (ilock (Some dp))
              (bindK (\<lambda>s. if i_dev (ic s dp) \<noteq> i_dev (ic s ip) then Ret (- 1) s
                         else dirlink devsw dp name (i_inum (ic s ip)) s) (\<lambda>r.
               if r < 0 then seqK (iunlockput dp) (link_bad ip)
               else
                 seqK (iunlockput dp)
                (seqK (iput ip)
                (seqK end_op
                      (retK 0)))))))) s)))))"

definition isdirempty :: "(int \<Rightarrow> 'z fs_scheme devsw) \<Rightarrow> nat \<Rightarrow> ('z fs_scheme, bool) kop" where
  "isdirempty devsw dp = (\<lambda>s.
     bindK (searchK [2..<(unat (i_size (ic s dp)) + 15) div 16] (\<lambda>k.
       bindK (read_dirent devsw ''isdirempty: readi'' dp (of_nat (16 * k))) (\<lambda>de.
       retK (if de_inum de \<noteq> 0 then Some () else None)))) (\<lambda>r. retK (r = None)) s)"

definition unlink_bad :: "nat \<Rightarrow> ('z fs_scheme, int) kop" where
  "unlink_bad dp = seqK (iunlockput dp) (seqK end_op (retK (- 1)))"

definition sys_unlink :: "(int \<Rightarrow> 'z fs_scheme devsw) \<Rightarrow> ('z fs_scheme, int) kop" where
  "sys_unlink devsw = guardK (argstr 0) (\<lambda>path.
     seqK begin_op
    (bindK (nameiparent devsw path) (\<lambda>(dp, name).
     case dp of
       None \<Rightarrow> seqK end_op (retK (- 1))
     | Some dp \<Rightarrow>
         seqK (ilock (Some dp))
        (if namecmp name (string_stream ''.'') = 0 \<or> namecmp name (string_stream ''..'') = 0 then unlink_bad dp
         else bindK (dirlookup devsw dp name) (\<lambda>r.
           case r of
             None \<Rightarrow> unlink_bad dp
           | Some (ip, off) \<Rightarrow>
               seqK (ilock (Some ip)) (\<lambda>s.
               if sint (i_nlink (ic s ip)) < 1 then Panic ''unlink: nlink < 1''
               else bindK (if i_type (ic s ip) = T_DIR then isdirempty devsw ip else retK True) (\<lambda>empty.
                 if \<not> empty then seqK (iunlockput ip) (unlink_bad dp)
                 else
                   bindK (writei devsw dp (\<lambda>_. 0) off 16) (\<lambda>w.
                   if w \<noteq> 16 then panic ''unlink: writei''
                   else
                     seqK (\<lambda>s. whenK (i_type (ic s ip) = T_DIR) (set_nlink dp (\<lambda>n. n - 1)) s)
                    (seqK (iunlockput dp)
                    (seqK (set_nlink ip (\<lambda>n. n - 1))
                    (seqK (iunlockput ip)
                    (seqK end_op
                          (retK 0))))))) s))))))"

section \<open>Creating and opening\<close>

text \<open>The new inode of \<^verbatim>\<open>create\<close>, locked, is entered in the directory.\<close>

definition create_new :: "(int \<Rightarrow> 'z fs_scheme devsw) \<Rightarrow> nat \<Rightarrow> stream \<Rightarrow> ushort \<Rightarrow> ushort \<Rightarrow> ushort \<Rightarrow> ('z fs_scheme, nat option) kop" where
  "create_new devsw dp name type major minor =
     bindK (\<lambda>s. ialloc (i_dev (ic s dp)) type s) (\<lambda>ip.
     seqK (ilock (Some ip))
    (seqK (modifyK (upd_ino ip (\<lambda>i. i\<lparr>i_major := major, i_minor := minor, i_nlink := 1\<rparr>)))
    (seqK (iupdate ip)
    (seqK (whenK (type = T_DIR)
        (seqK (set_nlink dp (\<lambda>n. n + 1))
        (bindK (\<lambda>s. dirlink devsw ip (string_stream ''.'') (i_inum (ic s ip)) s) (\<lambda>r.
         if r < 0 then panic ''create dots''
         else bindK (\<lambda>s. dirlink devsw ip (string_stream ''..'') (i_inum (ic s dp)) s) (\<lambda>r.
           if r < 0 then panic ''create dots'' else retK ())))))
    (bindK (\<lambda>s. dirlink devsw dp name (i_inum (ic s ip)) s) (\<lambda>r.
     if r < 0 then panic ''create: dirlink''
     else seqK (iunlockput dp) (retK (Some ip))))))))"

definition create :: "(int \<Rightarrow> 'z fs_scheme devsw) \<Rightarrow> uchar list \<Rightarrow> ushort \<Rightarrow> ushort \<Rightarrow> ushort \<Rightarrow> ('z fs_scheme, nat option) kop" where
  "create devsw path type major minor =
     bindK (nameiparent devsw path) (\<lambda>(dp, name).
     case dp of
       None \<Rightarrow> retK None
     | Some dp \<Rightarrow>
         seqK (ilock (Some dp))
        (bindK (dirlookup devsw dp name) (\<lambda>r.
         case r of
           Some (ip, _) \<Rightarrow>
             seqK (iunlockput dp)
            (seqK (ilock (Some ip)) (\<lambda>s.
             if type = T_FILE \<and> i_type (ic s ip) = T_FILE then Ret (Some ip) s
             else seqK (iunlockput ip) (retK None) s))
         | None \<Rightarrow> create_new devsw dp name type major minor)))"

abbreviation (input) O_WRONLY :: uint where "O_WRONLY \<equiv> 1"
abbreviation (input) O_RDWR :: uint where "O_RDWR \<equiv> 2"
abbreviation (input) O_CREATE :: uint where "O_CREATE \<equiv> 0x200"

text \<open>The two ways of \<^verbatim>\<open>sys_open\<close> to a locked inode.\<close>

definition open_inode :: "(int \<Rightarrow> 'z fs_scheme devsw) \<Rightarrow> uchar list \<Rightarrow> int \<Rightarrow> ('z fs_scheme, nat option) kop" where
  "open_inode devsw path omode =
     (if word_of_int omode AND O_CREATE \<noteq> 0
      then bindK (create devsw path T_FILE 0 0) (\<lambda>ip.
           case ip of None \<Rightarrow> seqK end_op (retK None) | Some ip \<Rightarrow> retK (Some ip))
      else bindK (namei devsw path) (\<lambda>ip.
           case ip of
             None \<Rightarrow> seqK end_op (retK None)
           | Some ip \<Rightarrow>
               seqK (ilock (Some ip)) (\<lambda>s.
               if i_type (ic s ip) = T_DIR \<and> omode \<noteq> 0
               then seqK (iunlockput ip) (seqK end_op (retK None)) s
               else Ret (Some ip) s)))"

definition sys_open :: "(int \<Rightarrow> 'z filest_scheme devsw) \<Rightarrow> ('z filest_scheme, int) kop" where
  "sys_open devsw = guardK (argstr 0) (\<lambda>path. guardK (argint 1) (\<lambda>omode.
     seqK begin_op
    (guardK (open_inode devsw path omode) (\<lambda>ip.
     bindK filealloc (\<lambda>f.
     case f of
       None \<Rightarrow> seqK (iunlockput ip) (seqK end_op (retK (- 1)))
     | Some f \<Rightarrow>
         bindK (fdalloc f) (\<lambda>fd.
         if fd < 0 then seqK (fileclose f) (seqK (iunlockput ip) (seqK end_op (retK (- 1))))
         else
           seqK (iunlock (Some ip))
          (seqK end_op
          (seqK (modifyK (upd_file f (\<lambda>x. x\<lparr>f_type := FD_INODE, f_ip := ip, f_off := 0,
                   f_readable := (word_of_int omode AND O_WRONLY = 0),
                   f_writable := (word_of_int omode AND O_WRONLY \<noteq> 0 \<or> word_of_int omode AND O_RDWR \<noteq> 0)\<rparr>)))
                (retK fd)))))))))"

definition sys_mkdir :: "(int \<Rightarrow> 'z fs_scheme devsw) \<Rightarrow> ('z fs_scheme, int) kop" where
  "sys_mkdir devsw =
     seqK begin_op
    (bindK (bindK (argstr 0) (\<lambda>path. case path of None \<Rightarrow> retK None | Some path \<Rightarrow> create devsw path T_DIR 0 0)) (\<lambda>ip.
     case ip of
       None \<Rightarrow> seqK end_op (retK (- 1))
     | Some ip \<Rightarrow> seqK (iunlockput ip) (seqK end_op (retK 0))))"

definition sys_mknod :: "(int \<Rightarrow> 'z fs_scheme devsw) \<Rightarrow> ('z fs_scheme, int) kop" where
  "sys_mknod devsw =
     seqK begin_op
    (bindK (bindK (argstr 0) (\<lambda>path. case path of None \<Rightarrow> retK None | Some path \<Rightarrow>
            bindK (argint 1) (\<lambda>major. case major of None \<Rightarrow> retK None | Some major \<Rightarrow>
            bindK (argint 2) (\<lambda>minor. case minor of None \<Rightarrow> retK None | Some minor \<Rightarrow>
            create devsw path T_DEV (word_of_int major) (word_of_int minor))))) (\<lambda>ip.
     case ip of
       None \<Rightarrow> seqK end_op (retK (- 1))
     | Some ip \<Rightarrow> seqK (iunlockput ip) (seqK end_op (retK 0))))"

definition sys_chdir :: "(int \<Rightarrow> 'z fs_scheme devsw) \<Rightarrow> ('z fs_scheme, int) kop" where
  "sys_chdir devsw =
     bindK myproc (\<lambda>cur. derefK cur (\<lambda>cur.
     seqK begin_op
    (bindK (bindK (argstr 0) (\<lambda>path. case path of None \<Rightarrow> retK None | Some path \<Rightarrow> namei devsw path)) (\<lambda>ip.
     case ip of
       None \<Rightarrow> seqK end_op (retK (- 1))
     | Some ip \<Rightarrow>
         seqK (ilock (Some ip)) (\<lambda>s.
         if i_type (ic s ip) \<noteq> T_DIR then seqK (iunlockput ip) (seqK end_op (retK (- 1))) s
         else
           seqK (iunlock (Some ip))
          (seqK (\<lambda>s. derefK (p_cwd (pt_procs s cur)) iput s)
          (seqK end_op
          (seqK (modifyK (upd_proc cur (\<lambda>q. q\<lparr>p_cwd := Some ip\<rparr>)))
                (retK 0)))) s)))))"

section \<open>\<^verbatim>\<open>exec\<close> and \<^verbatim>\<open>pipe\<close>\<close>

text \<open>The argument vector of \<^verbatim>\<open>sys_exec\<close>: entry \<open>i\<close> on, with \<open>k\<close> entries of \<^verbatim>\<open>argv\<close> left.\<close>

primrec exec_args :: "nat \<Rightarrow> addr \<Rightarrow> uchar list list \<Rightarrow> ('z ptable_scheme, uchar list list option) kop" where
  "exec_args 0 a acc = retK None"
| "exec_args (Suc k) a acc =
     bindK (fetchint a) (\<lambda>r.
     case r of
       None \<Rightarrow> retK None
     | Some uarg \<Rightarrow>
         if uarg = 0 then retK (Some acc)
         else bindK (fetchstr (word_of_int uarg)) (\<lambda>str.
           case str of None \<Rightarrow> retK None | Some str \<Rightarrow> exec_args k (a + 4) (acc @ [str])))"

definition sys_exec :: "(int \<Rightarrow> 'z filest_scheme devsw) \<Rightarrow> ('z filest_scheme, int) kop" where
  "sys_exec devsw = guardK (argstr 0) (\<lambda>path. guardK (argint 1) (\<lambda>uargv.
     guardK (exec_args MAXARG (word_of_int uargv) []) (\<lambda>argv. exec devsw path argv)))"

definition sys_pipe :: "('z filest_scheme, int) kop" where
  "sys_pipe = guardK (argptr 0 8) (\<lambda>fd. guardK pipealloc (\<lambda>(rf, wf).
     bindK myproc (\<lambda>p. derefK p (\<lambda>p.
     bindK (fdalloc rf) (\<lambda>fd0.
     bindK (if fd0 < 0 then retK (- 1) else fdalloc wf) (\<lambda>fd1.
     if fd0 < 0 \<or> fd1 < 0
     then seqK (modifyK (upd_proc p (\<lambda>q. if fd0 \<ge> 0 then q\<lparr>p_ofile := (p_ofile q)(nat fd0 := None)\<rparr> else q)))
         (seqK (fileclose rf)
         (seqK (fileclose wf)
               (retK (- 1))))
     else seqK (ustore32 fd (word_of_int fd0))
         (seqK (ustore32 (fd + 4) (word_of_int fd1))
               (retK 0))))))))"

section \<open>Positional calls\<close>

text \<open>Both wrappers check four bytes of the buffer, whatever the length.\<close>

definition pread_w :: "(int \<Rightarrow> 'z filest_scheme devsw) \<Rightarrow> ('z filest_scheme, int) kop" where
  "pread_w devsw = guardK (argint 0) (\<lambda>fd. guardK (argptr 1 4) (\<lambda>a. guardK (argint 2) (\<lambda>n. guardK (argint 3) (\<lambda>off.
     pread_os devsw fd a n off))))"

definition pwrite_w :: "(int \<Rightarrow> 'z filest_scheme devsw) \<Rightarrow> ('z filest_scheme, int) kop" where
  "pwrite_w devsw = guardK (argint 0) (\<lambda>fd. guardK (argptr 1 4) (\<lambda>a. guardK (argint 2) (\<lambda>n. guardK (argint 3) (\<lambda>off.
     pwrite_os devsw fd a n off))))"

end
