(* ===== verification/Syscall.thy ===== *)
theory Syscall
  imports Sysfile Console
begin

text \<open>
  The process system calls (\<^verbatim>\<open>sysproc.c\<close>, \<^verbatim>\<open>prac_syscall.c\<close>, \<^verbatim>\<open>set_cpu_share.c\<close>, \<^verbatim>\<open>thread_create.c\<close>, \<^verbatim>\<open>thread_exit.c\<close>, \<^verbatim>\<open>thread_join.c\<close>), the
  dispatch by number (\<^verbatim>\<open>syscall.c\<close>) and \<^verbatim>\<open>trap\<close> (\<^verbatim>\<open>trap.c\<close>). The interrupt controllers are not modelled: \<^verbatim>\<open>lapiceoi\<close> has no effect
  on the state of the kernel.
\<close>

section \<open>Process calls\<close>

definition sys_fork :: "('z filest_scheme, int) kop" where
  "sys_fork = fork"

definition sys_exit :: "('z filest_scheme, int) kop" where
  "sys_exit = seqK exit (retK 0)"

definition sys_wait :: "('z ptable_scheme, int) kop" where
  "sys_wait = wait"

definition sys_kill :: "('z ptable_scheme, int) kop" where
  "sys_kill = guardK (argint 0) kill"

definition sys_getpid :: "('z ptable_scheme, int) kop" where
  "sys_getpid = bindK myproc (\<lambda>p. derefK p (\<lambda>p s. Ret (p_pid (pt_procs s p)) s))"

definition sys_sbrk :: "('z ptable_scheme, int) kop" where
  "sys_sbrk = guardK (argint 0) (\<lambda>n.
     bindK myproc (\<lambda>p. derefK p (\<lambda>p.
     bindK (getK (\<lambda>s. sint (p_sz (pt_procs s p)))) (\<lambda>addr.
     bindK (growproc n) (\<lambda>r. retK (if r < 0 then - 1 else addr))))))"

text \<open>The loop of \<^verbatim>\<open>sys_sleep\<close>: \<^verbatim>\<open>ticks - ticks0 < n\<close> is a comparison of unsigned numbers.\<close>

definition sys_sleep_loop :: "uint \<Rightarrow> int \<Rightarrow> ('z ptable_scheme, int) kop" where
  "sys_sleep_loop ticks0 n = (\<lambda>s.
     if pt_ticks s - ticks0 < word_of_int n
     then if cur_killed s then seqK (release TicksLock) (retK (- 1)) s
          else sleep ChanTicks (Some TicksLock) s
     else seqK (release TicksLock) (retK 0) s)"

definition sys_sleep :: "('z ptable_scheme, int) kop" where
  "sys_sleep = guardK (argint 0) (\<lambda>n.
     seqK (acquire TicksLock) (\<lambda>s. sys_sleep_loop (pt_ticks s) n s))"

definition sys_sleep_wake :: "uint \<Rightarrow> int \<Rightarrow> ('z ptable_scheme, int) kop" where
  "sys_sleep_wake ticks0 n = seqK (sleep_wake TicksLock) (sys_sleep_loop ticks0 n)"

definition sys_uptime :: "('z ptable_scheme, int) kop" where
  "sys_uptime =
     seqK (acquire TicksLock)
    (bindK (getK pt_ticks) (\<lambda>xticks.
     seqK (release TicksLock) (retK (sint xticks))))"

definition sys_set_cpu_share :: "('z schedst_scheme, int) kop" where
  "sys_set_cpu_share = guardK (argint 0) set_cpu_share"

definition int_chars :: "string \<Rightarrow> int list" where
  "int_chars cs = map (\<lambda>c. int (of_char c)) cs"

definition printk_str :: "uchar list \<Rightarrow> ('z consst_scheme, int) kop" where
  "printk_str str =
     seqK (cprintf (int_chars ''%s'' @ [10]) [AStr (Some (map uint str))])
          (retK (sint (0xABCDABCD :: uint)))"

definition sys_myfunction :: "('z consst_scheme, int) kop" where
  "sys_myfunction = guardK (argstr 0) printk_str"

section \<open>Thread calls\<close>

definition thread_create_w :: "('z filest_scheme, int) kop" where
  "thread_create_w = guardK (argptr 0 4) (\<lambda>thread. guardK (argptr 1 4) (\<lambda>start. guardK (argptr 2 4) (\<lambda>arg.
     thread_create_os thread start arg)))"

definition thread_exit_w :: "('z filest_scheme, int) kop" where
  "thread_exit_w = guardK (argptr 0 4) (\<lambda>retval. seqK (thread_exit_os retval 0) (retK (- 1)))"

definition thread_join_w :: "('z ptable_scheme, int) kop" where
  "thread_join_w = guardK (argptr 0 4) (\<lambda>thread. guardK (argptr 1 4) (\<lambda>retval.
     thread_join_os (sint thread) retval False))"

section \<open>Dispatch\<close>

text \<open>The table of the system calls by number; entry 0 is empty, and there is nothing to call past the end.\<close>

definition syscalls :: "('z consst_scheme, int) kop option list" where
  "syscalls =
      [None, Some sys_fork, Some sys_exit, Some sys_wait, Some sys_pipe, Some (sys_read console_devsw), Some sys_kill,
       Some (sys_exec console_devsw), Some sys_fstat, Some (sys_chdir console_devsw), Some sys_dup, Some sys_getpid,
       Some sys_sbrk, Some sys_sleep, Some sys_uptime, Some (sys_open console_devsw), Some (sys_write console_devsw),
       Some (sys_mknod console_devsw), Some (sys_unlink console_devsw), Some (sys_link console_devsw),
       Some (sys_mkdir console_devsw), Some sys_close, Some sys_myfunction, Some getppid, Some (seqK yield (retK 0)),
       Some sys_set_cpu_share, Some getlev, Some thread_create_w, Some thread_exit_w, Some thread_join_w,
       Some (pwrite_w console_devsw), Some (pread_w console_devsw)]"

definition name_chars :: "stream \<Rightarrow> int list" where
  "name_chars nm = map uint (takeWhile (\<lambda>c. c \<noteq> 0) (map nm [0..<16]))"

definition syscall :: "('z consst_scheme, unit) kop" where
  "syscall =
     bindK myproc (\<lambda>cur. derefK cur (\<lambda>cur s.
     let num = sint (get_tf cur TF_EAX s) in
     case (if num > 0 \<and> num < int (length (syscalls :: ('z consst_scheme, int) kop option list)) then syscalls ! nat num else None) of
       Some f \<Rightarrow> bindK f (\<lambda>r. modifyK (set_tf cur TF_EAX (word_of_int r))) s
     | None \<Rightarrow>
         seqK (cprintf (int_chars ''%d %s: unknown sys call %d'' @ [10])
                 [AInt (word_of_int (p_pid (pt_procs s cur))), AStr (Some (name_chars (p_name (pt_procs s cur)))),
                  AInt (word_of_int num)])
              (modifyK (set_tf cur TF_EAX (- 1))) s))"

section \<open>Traps\<close>

abbreviation (input) T_SYSCALL :: uint where "T_SYSCALL \<equiv> 64"
abbreviation (input) T_IRQ0 :: uint where "T_IRQ0 \<equiv> 32"

definition tf_trapno :: "addr \<Rightarrow> 'z kmem_scheme \<Rightarrow> uint" where
  "tf_trapno tf s = load32 (k_mem s) (tf + TF_TRAPNO)"

definition tf_user :: "addr \<Rightarrow> 'z kmem_scheme \<Rightarrow> bool" where
  "tf_user tf s \<longleftrightarrow> load32 (k_mem s) (tf + TF_CS) AND 3 = 3"

definition tf_kernel :: "addr \<Rightarrow> 'z kmem_scheme \<Rightarrow> bool" where
  "tf_kernel tf s \<longleftrightarrow> load32 (k_mem s) (tf + TF_CS) AND 3 = 0"

definition exit_if_killed :: "('z filest_scheme, unit) kop" where
  "exit_if_killed = (\<lambda>s. whenK (cur_killed s) exit s)"

definition trap_syscall :: "addr \<Rightarrow> ('z consst_scheme, unit) kop" where
  "trap_syscall tf =
     bindK myproc (\<lambda>p. derefK p (\<lambda>p.
     seqK exit_if_killed
    (seqK (modifyK (upd_proc p (\<lambda>q. q\<lparr>p_tf := tf\<rparr>)))
    (seqK syscall
          exit_if_killed))))"

definition timer_intr :: "bool \<Rightarrow> ('z ptable_scheme, unit) kop" where
  "timer_intr boot_cpu =
     whenK boot_cpu
      (seqK (acquire TicksLock)
      (seqK (modifyK (\<lambda>s. s\<lparr>pt_ticks := pt_ticks s + 1\<rparr>))
      (seqK (wakeup ChanTicks)
            (release TicksLock))))"

text \<open>The \<^verbatim>\<open>switch\<close>: what the device delivered is an argument; with \<^verbatim>\<open>memide.c\<close> the disk interrupt does nothing.\<close>

definition trap_device :: "bool \<Rightarrow> uchar list \<Rightarrow> int list \<Rightarrow> addr \<Rightarrow> ('z consst_scheme, unit) kop" where
  "trap_device boot_cpu codes serial tf = (\<lambda>s.
     let n = tf_trapno tf s in
     if n = T_IRQ0 then timer_intr boot_cpu s
     else if n = T_IRQ0 + 14 \<or> n = T_IRQ0 + 15 then Ret () s
     else if n = T_IRQ0 + 1 then kbdintr codes s
     else if n = T_IRQ0 + 4 then consoleintr serial s
     else if n = T_IRQ0 + 7 \<or> n = T_IRQ0 + 31 then Ret () s
     else if pt_cur s = None \<or> tf_kernel tf s then Panic ''trap''
     else derefK (pt_cur s) (\<lambda>p. modifyK (upd_proc p (\<lambda>q. q\<lparr>p_killed := True\<rparr>))) s)"

definition trap_kill :: "addr \<Rightarrow> ('z filest_scheme, unit) kop" where
  "trap_kill tf = (\<lambda>s. whenK (cur_killed s \<and> tf_user tf s) exit s)"

definition cur_running :: "'z ptable_scheme \<Rightarrow> bool" where
  "cur_running s = (case pt_cur s of None \<Rightarrow> False | Some p \<Rightarrow> p_state (pt_procs s p) = RUNNING)"

definition trap :: "bool \<Rightarrow> uchar list \<Rightarrow> int list \<Rightarrow> addr \<Rightarrow> ('z consst_scheme, unit) kop" where
  "trap boot_cpu codes serial tf = (\<lambda>s.
     if tf_trapno tf s = T_SYSCALL then trap_syscall tf s
     else
       seqK (trap_device boot_cpu codes serial tf)
      (seqK (trap_kill tf)
      (seqK (\<lambda>s. whenK (cur_running s \<and> tf_trapno tf s = T_IRQ0) yield s)
            (trap_kill tf))) s)"

text \<open>The rest of \<^verbatim>\<open>trap\<close> when the process runs again after \<^verbatim>\<open>yield\<close>.\<close>

definition trap_wake :: "addr \<Rightarrow> ('z consst_scheme, unit) kop" where
  "trap_wake tf = seqK yield_wake (trap_kill tf)"

end
