(* ===== verification/Syscall_Safe.thy ===== *)
theory Syscall_Safe
  imports Console_Line Syscall
begin

text \<open>
  The boundary between user programs and the kernel: pointers that pass the checks of \<^verbatim>\<open>argptr\<close> lie inside the memory of
  the process, unknown call numbers are answered with -1, and \<^verbatim>\<open>sleep\<close> returns after as many clock ticks as asked for.
\<close>

section \<open>Arguments\<close>

lemma fetchint_state: "fetchint a s = Ret r t \<Longrightarrow> t = s"
  by (auto simp: fetchint_def myproc_def kop_simps derefK_def panic_def uload_def split: option.splits if_splits)

lemma argint_state: "argint n s = Ret r t \<Longrightarrow> t = s"
  by (auto simp: argint_def myproc_def kop_simps derefK_def panic_def dest!: fetchint_state split: option.splits if_splits)

text \<open>
  C27. A block that argptr accepts lies inside the process: for a process no larger than KERNBASE and any length, a pointer is only
  returned when the length is not negative and the whole block, computed without wrap-around, ends at or
  below the size of the process; the state is not changed.\<close>

theorem argptr_inside:
  assumes "argptr n size' s = Ret (Some a) t" "pt_cur s = Some p" "p_sz (pt_procs s p) \<le> 0x80000000" "size' < 2 ^ 31"
  shows "t = s \<and> 0 \<le> size' \<and> unat a + nat size' \<le> unat (p_sz (pt_procs s p))"
proof -
  obtain r where r: "argint n s = Ret r s"
    using assms(1,2) argint_state [of n s] by (cases "argint n s") (auto simp: argptr_def myproc_def kop_simps)
  then obtain i where "r = Some i" using assms(1,2) by (cases r) (auto simp: argptr_def myproc_def kop_simps)
  then have i: "size' \<ge> 0" "\<not> a \<ge> p_sz (pt_procs s p)" "\<not> a + word_of_int size' > p_sz (pt_procs s p)" "t = s"
    using assms(1,2) r by (auto simp: argptr_def myproc_def kop_simps Let_def split: if_splits)
  have w: "unat (word_of_int size' :: uint) = nat size'"
    using i(1) assms(4) by (simp add: unat_eq_nat_uint uint_word_of_int)
  have "unat a < 0x80000000" using i(2) assms(3) by (simp add: not_le word_less_nat_alt word_le_nat_alt)
  moreover have "nat size' < 0x80000000" using i(1) assms(4) by simp
  ultimately have "unat a + nat size' < 4294967296" by linarith
  then have "unat (a + word_of_int size') = unat a + nat size'"
    using unat_add32 [of a "word_of_int size'"] w by simp
  then show ?thesis using i by (simp add: not_less word_le_nat_alt)
qed

text \<open>A process whose trap frame is at the start of its kernel stack \<open>0x80003100\<close> and whose user stack is at 16; its first argument,
  at 20, is the address 200.\<close>

definition arg_state :: consst where
  "arg_state = upd_proc 0 (\<lambda>q. q\<lparr>p_tf := 0x80003100\<rparr>)
     ((sample_state [])\<lparr>k_mem := (sample_mem [])(0x80003014 := 200, 0x80003100 + TF_ESP := 16)\<rparr>)"

lemma arg_state_argint: "argint 0 arg_state = Ret (Some 200) arg_state"
proof -
  let ?m = "(sample_mem [])(0x80003014 := 200, 0x80003100 + TF_ESP := 16)"
  have c: "cur_addr arg_state va = Some (0x80003000 + va)" if "va < 4096" for va
  proof -
    have "?m a = sample_mem [] a" if "a < 0x80003000" for a
    proof -
      have "a \<noteq> 0x80003014" "a \<noteq> 0x80003100 + TF_ESP" using that by auto
      then show ?thesis by simp
    qed
    then show ?thesis using that sample_addr [of ?m "[]" va] by (simp add: arg_state_def cur_addr_def P2V_def upd_proc_def)
  qed
  have m: "k_mem arg_state = ?m" "pt_cur arg_state = Some 0" "p_sz (pt_procs arg_state 0) = 4096"
    "p_tf (pt_procs arg_state 0) = 0x80003100"
    by (simp_all add: arg_state_def sample_proc_def upd_proc_def)
  have "get_tf 0 TF_ESP arg_state = 16"
    by (simp add: get_tf_def m load32_def join32_def sample_mem_def)
  then have "argint 0 arg_state = fetchint 20 arg_state" by (simp add: argint_def myproc_def kop_simps m)
  also have "\<dots> = Ret (Some 200) arg_state"
    using c [of 20] c [of 21] c [of 22] c [of 23]
    by (simp add: fetchint_def myproc_def kop_simps m(2,3) uload_def) (simp add: m(1) sample_mem_def join32_def)
  finally show ?thesis .
qed

theorem argptr_inside_witness:
  "argptr 0 20 arg_state = Ret (Some 200) arg_state \<and> unat (200 :: addr) + nat 20 \<le> unat (p_sz (pt_procs arg_state 0))"
proof -
  have m: "pt_cur arg_state = Some 0" "p_sz (pt_procs arg_state 0) = 4096"
    by (simp_all add: arg_state_def sample_proc_def upd_proc_def)
  then have "argptr 0 20 arg_state = Ret (Some 200) arg_state"
    using arg_state_argint by (simp add: argptr_def myproc_def kop_simps)
  then show ?thesis using argptr_inside [of 0 20 arg_state 200 arg_state 0] m by simp
qed

section \<open>Unknown calls\<close>

lemma cprintf_spec:
  assumes "screen_ok s" "k_held s = {}"
  shows "\<exists>u p f. cprintf fmt as s = Ret () (s\<lparr>cn_uart := u, cn_pos := p, cn_crt := f\<rparr>)"
proof -
  obtain u p f where "forK (cprintf_chars fmt as) consputc (s\<lparr>k_held := {ConsLock}\<rparr>) =
    Ret () (s\<lparr>k_held := {ConsLock}, cn_uart := u, cn_pos := p, cn_crt := f\<rparr>)"
    using consputcs_spec [of "s\<lparr>k_held := {ConsLock}\<rparr>" "cprintf_chars fmt as"] assms(1) by (auto simp: screen_ok_def)
  moreover have "(s\<lparr>k_held := {ConsLock}, cn_uart := u, cn_pos := p, cn_crt := f\<rparr>)\<lparr>k_held := {}\<rparr> =
    s\<lparr>cn_uart := u, cn_pos := p, cn_crt := f\<rparr>" using assms(2) by (cases s) simp
  ultimately have "cprintf fmt as s = Ret () (s\<lparr>cn_uart := u, cn_pos := p, cn_crt := f\<rparr>)"
    using assms(2) by (simp add: cprintf_def kop_simps)
  then show ?thesis by blast
qed

text \<open>
  C28. A call number outside 1..31 is an error the caller sees: the kernel prints a message, puts -1 into the caller's eax and returns,
  with no lock held and the process table, the file table and all memory but those four bytes unchanged.\<close>

theorem unknown_syscall_fails:
  fixes s :: "'z consst_scheme"
  assumes "pt_cur s = Some p" "k_held s = {}" "screen_ok s"
    and "sint (get_tf p TF_EAX s) \<le> 0 \<or> sint (get_tf p TF_EAX s) \<ge> 32"
  shows "\<exists>t. syscall s = Ret () t \<and> get_tf p TF_EAX t = - 1 \<and> k_held t = {} \<and> pt_procs t = pt_procs s \<and> ft t = ft s \<and>
    k_mem t = store32 (k_mem s) (p_tf (pt_procs s p) + TF_EAX) (- 1)"
proof -
  let ?n = "sint (get_tf p TF_EAX s)"
  let ?as = "[AInt (word_of_int (p_pid (pt_procs s p))), AStr (Some (name_chars (p_name (pt_procs s p)))), AInt (word_of_int ?n)]"
  obtain u q f where c: "cprintf (int_chars ''%d %s: unknown sys call %d'' @ [10]) ?as s =
    Ret () (s\<lparr>cn_uart := u, cn_pos := q, cn_crt := f\<rparr>)" (is "_ = Ret () ?t")
    using cprintf_spec [OF assms(3,2)] by blast
  let ?calls = "syscalls :: ('z consst_scheme, int) kop option list"
  have "length ?calls = 32" by (simp add: syscalls_def)
  then have "\<not> (?n > 0 \<and> ?n < int (length ?calls))" using assms(4) by auto
  then have "(if ?n > 0 \<and> ?n < int (length ?calls) then ?calls ! nat ?n else None) = None" by (rule if_not_P)
  then have "syscall s = Ret () (set_tf p TF_EAX (- 1) ?t)"
    using assms(1) c by (simp add: syscall_def myproc_def kop_simps Let_def)
  then show ?thesis using assms(2) by (simp add: set_tf_def get_tf_def)
qed

theorem unknown_syscall_fails_witness:
  "\<exists>t. syscall (sample_state []) = Ret () t \<and> get_tf 0 TF_EAX t = - 1"
proof -
  have "get_tf 0 TF_EAX (sample_state []) = 0"
    by (simp add: get_tf_def load32_def join32_def sample_mem_def sample_proc_def blank_proc_def)
  then show ?thesis using unknown_syscall_fails [of "sample_state []" 0] by (auto simp: screen_ok_def)
qed

section \<open>Sleeping for a number of ticks\<close>

text \<open>A process asleep in \<^verbatim>\<open>sys_sleep\<close>: the clock interrupt of the boot processor, and then the process runs again.\<close>

definition tick_and_run :: "nat \<Rightarrow> uint \<Rightarrow> int \<Rightarrow> ('z ptable_scheme, int) outcome \<Rightarrow> ('z ptable_scheme, int) outcome" where
  "tick_and_run p ticks0 n r =
     (case r of
        Sleep s \<Rightarrow>
          (case timer_intr True (s\<lparr>k_held := {}, pt_cur := None\<rparr>) of
             Ret _ t \<Rightarrow>
               if p_state (pt_procs t p) = RUNNABLE
               then sys_sleep_wake ticks0 n (set_state p RUNNING (t\<lparr>k_held := {PtableLock}, pt_cur := Some p\<rparr>))
               else Panic ''not woken''
           | Sleep t \<Rightarrow> Sleep t
           | Panic e \<Rightarrow> Panic e)
      | r \<Rightarrow> r)"

definition dozing :: "nat \<Rightarrow> uint \<Rightarrow> nat \<Rightarrow> 'z ptable_scheme \<Rightarrow> bool" where
  "dozing p ticks0 k s \<longleftrightarrow> pt_ticks s = ticks0 + of_nat k \<and> p_state (pt_procs s p) = SLEEPING \<and>
     p_chan (pt_procs s p) = Some ChanTicks \<and> \<not> p_killed (pt_procs s p)"

lemma sleep_loop_more:
  assumes "k_held s = {TicksLock}" "pt_cur s = Some p" "\<not> p_killed (pt_procs s p)" "pt_ticks s = ticks0 + of_nat k" "k < n" "n < 2 ^ 32"
  shows "\<exists>t. sys_sleep_loop ticks0 (int n) s = Sleep t \<and> dozing p ticks0 k t"
proof -
  have "(of_nat k :: uint) < of_nat n" using assms(5,6) by (simp add: word_less_nat_alt unat_of_nat32)
  then show ?thesis using assms(1-4) by (simp add: sys_sleep_loop_def cur_killed_def sleep_eq dozing_def)
qed

lemma sleep_loop_over:
  assumes "k_held s = {TicksLock}" "pt_ticks s = ticks0 + of_nat n"
  shows "sys_sleep_loop ticks0 (int n) s = Ret 0 (s\<lparr>k_held := {}\<rparr>)"
  using assms by (simp add: sys_sleep_loop_def kop_simps)

lemma tick_wakes:
  assumes "dozing p ticks0 k s" "p < NPROC"
  shows "\<exists>u. tick_and_run p ticks0 n (Sleep s) = sys_sleep_loop ticks0 n u \<and> k_held u = {TicksLock} \<and> pt_cur u = Some p \<and>
    \<not> p_killed (pt_procs u p) \<and> pt_ticks u = ticks0 + of_nat (Suc k)"
proof -
  define s0 where "s0 = s\<lparr>k_held := {}, pt_cur := None\<rparr>"
  define t where "t = (wake_all ChanTicks (s0\<lparr>k_held := {TicksLock}, pt_ticks := pt_ticks s + 1\<rparr>))\<lparr>k_held := {}\<rparr>"
  have 1: "timer_intr True s0 = Ret () t"
    by (simp add: timer_intr_def kop_simps wakeup_eq t_def wake_all_def s0_def)
  have 2: "p_state (pt_procs t p) = RUNNABLE" "\<not> p_killed (pt_procs t p)" "pt_ticks t = ticks0 + of_nat (Suc k)"
    using assms by (simp_all add: t_def wake_all_def s0_def dozing_def wake_proc_def)
  define v where "v = set_state p RUNNING (t\<lparr>k_held := {PtableLock}, pt_cur := Some p\<rparr>)"
  define u where "u = (upd_proc p (\<lambda>q. q\<lparr>p_chan := None\<rparr>) v)\<lparr>k_held := {TicksLock}\<rparr>"
  have v: "k_held v = {PtableLock}" "pt_cur v = Some p" by (simp_all add: v_def set_state_def)
  have "sleep_wake TicksLock v = Ret () u"
    using v by (simp add: sleep_wake_def myproc_def kop_simps u_def)
  then have "sys_sleep_wake ticks0 n v = sys_sleep_loop ticks0 n u"
    by (simp add: sys_sleep_wake_def kop_simps)
  then have "tick_and_run p ticks0 n (Sleep s) = sys_sleep_loop ticks0 n u"
    using 1 2(1) by (simp add: tick_and_run_def s0_def [symmetric] v_def [symmetric])
  moreover have "k_held u = {TicksLock}" "pt_cur u = Some p" "\<not> p_killed (pt_procs u p)" "pt_ticks u = ticks0 + of_nat (Suc k)"
    using 2 by (simp_all add: u_def v_def set_state_def upd_proc_def)
  ultimately show ?thesis by blast
qed

lemma sleep_ticks:
  assumes "k_held s = {TicksLock}" "pt_cur s = Some p" "\<not> p_killed (pt_procs s p)" "p < NPROC" "n < 2 ^ 32" "k < n"
  shows "\<exists>t. (tick_and_run p (pt_ticks s) (int n) ^^ k) (sys_sleep_loop (pt_ticks s) (int n) s) = Sleep t \<and> dozing p (pt_ticks s) k t"
  using assms(6)
proof (induction k)
  case 0
  then show ?case using sleep_loop_more [OF assms(1-3), of "pt_ticks s" 0 n] assms(5) by simp
next
  case (Suc k)
  then obtain t where t: "(tick_and_run p (pt_ticks s) (int n) ^^ k) (sys_sleep_loop (pt_ticks s) (int n) s) = Sleep t"
    "dozing p (pt_ticks s) k t" by auto
  then obtain u where u: "tick_and_run p (pt_ticks s) (int n) (Sleep t) = sys_sleep_loop (pt_ticks s) (int n) u" "k_held u = {TicksLock}"
    "pt_cur u = Some p" "\<not> p_killed (pt_procs u p)" "pt_ticks u = pt_ticks s + of_nat (Suc k)"
    using tick_wakes [OF _ assms(4)] by blast
  then show ?case using sleep_loop_more [OF u(2-5) Suc.prems assms(5)] t(1) by simp
qed

text \<open>
  C26. sleep(n) ends after exactly n clock ticks: for every n up to 2^31 - 1, with the tick counter anywhere in its 32-bit range, a
  process that is not killed is still asleep after fewer than n ticks, is made runnable by every tick, and after
  the n-th tick the call returns 0 with no lock held.\<close>

theorem sleep_returns_after_n_ticks:
  assumes "k_held s = {TicksLock}" "pt_cur s = Some p" "\<not> p_killed (pt_procs s p)" "p < NPROC" "n < 2 ^ 31"
  shows "(\<forall>k < n. \<exists>t. (tick_and_run p (pt_ticks s) (int n) ^^ k) (sys_sleep_loop (pt_ticks s) (int n) s) = Sleep t) \<and>
    (\<exists>t. (tick_and_run p (pt_ticks s) (int n) ^^ n) (sys_sleep_loop (pt_ticks s) (int n) s) = Ret 0 t \<and> k_held t = {})"
proof -
  have n: "n < 2 ^ 32" using assms(5) by simp
  have "\<exists>t. (tick_and_run p (pt_ticks s) (int n) ^^ n) (sys_sleep_loop (pt_ticks s) (int n) s) = Ret 0 t \<and> k_held t = {}"
  proof (cases n)
    case 0
    then show ?thesis using sleep_loop_over [OF assms(1), of "pt_ticks s" 0] by simp
  next
    case (Suc k)
    obtain t where t: "(tick_and_run p (pt_ticks s) (int n) ^^ k) (sys_sleep_loop (pt_ticks s) (int n) s) = Sleep t"
      "dozing p (pt_ticks s) k t" using sleep_ticks [OF assms(1-4) n, of k] Suc by auto
    then obtain u where u: "tick_and_run p (pt_ticks s) (int n) (Sleep t) = sys_sleep_loop (pt_ticks s) (int n) u" "k_held u = {TicksLock}"
      "pt_ticks u = pt_ticks s + of_nat n"
      using tick_wakes [OF _ assms(4)] Suc by metis
    have "(tick_and_run p (pt_ticks s) (int n) ^^ n) (sys_sleep_loop (pt_ticks s) (int n) s) = tick_and_run p (pt_ticks s) (int n) (Sleep t)"
      using t(1) by (simp add: Suc)
    then show ?thesis using u(1) sleep_loop_over [OF u(2,3)] by simp
  qed
  then show ?thesis using sleep_ticks [OF assms(1-4) n] by blast
qed

theorem sleep_returns_after_n_ticks_witness:
  "\<exists>t. (tick_and_run 0 (pt_ticks ((sample_state [])\<lparr>k_held := {TicksLock}, pt_ticks := 0xFFFFFFFF\<rparr>)) 5 ^^ 5)
     (sys_sleep_loop (pt_ticks ((sample_state [])\<lparr>k_held := {TicksLock}, pt_ticks := 0xFFFFFFFF\<rparr>)) 5
       ((sample_state [])\<lparr>k_held := {TicksLock}, pt_ticks := 0xFFFFFFFF\<rparr>)) = Ret 0 t"
  using sleep_returns_after_n_ticks [of "(sample_state [])\<lparr>k_held := {TicksLock}, pt_ticks := 0xFFFFFFFF\<rparr>" 0 5]
  by (auto simp: sample_proc_def blank_proc_def)

text \<open>A negative argument is a huge unsigned number: the process sleeps, where an error or no wait at all would be expected.\<close>

lemma sleep_negative_sleeps:
  assumes "k_held s = {TicksLock}" "pt_cur s = Some p" "\<not> p_killed (pt_procs s p)"
  shows "\<exists>t. sys_sleep_loop (pt_ticks s) (- 1) s = Sleep t"
  using assms word_neq_0_conv [of "- 1 :: uint"] by (simp add: sys_sleep_loop_def cur_killed_def sleep_eq)

end
