(* ===== verification/Fs_Data.thy ===== *)
theory Fs_Data
  imports Sample_State
begin

text \<open>
  Files as sequences of bytes. The block pointers of an inode, direct and up to three levels of indirection, map the blocks of
  a file to blocks of the disk; \<^verbatim>\<open>bmap\<close> follows them, \<^verbatim>\<open>readi\<close> returns the bytes behind them, and \<^verbatim>\<open>writei\<close> inside a file replaces
  exactly the bytes of its range.
\<close>

section \<open>The blocks of a file\<close>

text \<open>Entry \<open>k\<close> of the table in block \<open>a\<close>, when the blocks have the contents \<open>v\<close>.\<close>

definition entry :: "(uint \<Rightarrow> stream) \<Rightarrow> uint \<Rightarrow> nat \<Rightarrow> uint" where
  "entry v a k = get32 (v a) (4 * k)"

text \<open>The blocks that are read to find block \<open>bn\<close> of a file, the last one being the block itself.\<close>

definition block_path :: "(uint \<Rightarrow> stream) \<Rightarrow> uint list \<Rightarrow> nat \<Rightarrow> uint list" where
  "block_path v addrs bn =
     (if bn < NDIRECT then [addrs ! bn]
      else let k = bn - NDIRECT in
      if k < NINDIRECT then (let a = addrs ! NDIRECT in [a, entry v a k])
      else let k = k - NINDIRECT in
      if k < NINDIRECT * NINDIRECT
      then (let a = addrs ! (NDIRECT + 1); b = entry v a (k div NINDIRECT) in [a, b, entry v b (k mod NINDIRECT)])
      else let k = k - NINDIRECT * NINDIRECT;
               a = addrs ! (NDIRECT + 2); b = entry v a (k div (NINDIRECT * NINDIRECT));
               c = entry v b (k div NINDIRECT mod NINDIRECT) in
        [a, b, c, entry v c (k mod NINDIRECT)])"

definition file_block :: "(uint \<Rightarrow> stream) \<Rightarrow> uint list \<Rightarrow> nat \<Rightarrow> uint" where
  "file_block v addrs bn = last (block_path v addrs bn)"

definition file_byte :: "(uint \<Rightarrow> stream) \<Rightarrow> uint list \<Rightarrow> nat \<Rightarrow> uchar" where
  "file_byte v addrs i = v (file_block v addrs (i div BSIZE)) (i mod BSIZE)"

text \<open>The first \<open>n\<close> blocks of the file are allocated and lie on the disk.\<close>

definition blocks_ok :: "(uint \<Rightarrow> stream) \<Rightarrow> uint list \<Rightarrow> uint \<Rightarrow> nat \<Rightarrow> bool" where
  "blocks_ok v addrs size' n \<longleftrightarrow> (\<forall>bn < n. \<forall>a \<in> set (block_path v addrs bn). a \<noteq> 0 \<and> a < size')"

section \<open>Reading through the cache\<close>

definition quiet :: "'z bio_scheme \<Rightarrow> 'z bio_scheme \<Rightarrow> bool" where
  "quiet s t \<longleftrightarrow> bc_inv {} t \<and> blk t = blk s \<and> dk t = dk s \<and> dk_hist t = dk_hist s \<and> bio_frame s t \<and> dirty_bufs t = dirty_bufs s \<and>
     dirty_blocks t = dirty_blocks s"

lemma quiet_refl: "bc_inv {} s \<Longrightarrow> quiet s s"
  by (simp add: quiet_def)

lemma quiet_trans: "quiet s t \<Longrightarrow> quiet t u \<Longrightarrow> quiet s u"
  by (auto simp: quiet_def intro: bio_frame_trans)

lemma frame_ic: "bio_frame s t \<Longrightarrow> ic t = ic s" "bio_frame s t \<Longrightarrow> lg_n t = lg_n s" "bio_frame s t \<Longrightarrow> lg_outstanding t = lg_outstanding s"
  "bio_frame s t \<Longrightarrow> log.more t = log.more s" "bio_frame s t \<Longrightarrow> lg_start t = lg_start s" for s :: "'z fs_scheme"
  by (cases s; cases t; simp add: bio_frame_def)+

text \<open>The pattern \<^verbatim>\<open>bread\<close>, use the data, \<^verbatim>\<open>brelse\<close>.\<close>

lemma with_block:
  assumes inv: "bc_inv {} s" and n: "n < dk_size s" and room: "card (dirty_bufs s) < NBUF"
  shows "\<exists>b s1 t. bread 1 n s = Ret b s1 \<and> buf_data s1 b = blk s n \<and> bio_frame s s1 \<and> brelse b s1 = Ret () t \<and> quiet s t"
proof -
  obtain b s1 where b: "bread 1 n s = Ret b s1" "bread_post {} s n b s1"
    using bread_spec [OF inv n] room by auto
  have p: "bc_inv {b} s1" "b_data (bc_bufs s1 b) = blk s n" "blk s1 = blk s" "dk s1 = dk s" "dk_hist s1 = dk_hist s" "bio_frame s s1"
    "dirty_bufs s1 = dirty_bufs s" "dirty_blocks s1 = dirty_blocks s" "synced s1 b"
    using b(2) by (auto simp: bread_post_def synced_def)
  obtain t where t: "brelse b s1 = Ret () t" "brelse_post {b} s1 b t"
    using brelse_synced [OF p(1) _ p(9)] by auto
  then have "quiet s t" using p by (auto simp: quiet_def brelse_post_def intro: bio_frame_trans)
  then show ?thesis using b(1) p(2,6) t(1) by (auto simp: buf_data_def)
qed

text \<open>What the operations below need of the state: the cache is well formed, nothing is locked, and a buffer is free.\<close>

definition readable :: "'z fs_scheme \<Rightarrow> nat \<Rightarrow> bool" where
  "readable s ip \<longleftrightarrow> bc_inv {} s \<and> card (dirty_bufs s) < NBUF \<and> i_dev (ic s ip) = 1"

lemma readable_quiet: "readable s ip \<Longrightarrow> quiet s t \<Longrightarrow> readable t ip"
  by (auto simp: readable_def quiet_def frame_ic)

lemma bmap_addr_read:
  "i_addrs (ic s ip) ! k \<noteq> 0 \<Longrightarrow> bmap_addr ip k s = Ret (i_addrs (ic s ip) ! k) s"
  by (simp add: bmap_addr_def Let_def)

lemma bmap_indirect_read:
  assumes "readable s ip" "a < dk_size s" "entry (blk s) a k \<noteq> 0"
  shows "\<exists>t. bmap_indirect ip a k s = Ret (entry (blk s) a k) t \<and> quiet s t"
proof -
  obtain b s1 t where w: "bread 1 a s = Ret b s1" "buf_data s1 b = blk s a" "bio_frame s s1" "brelse b s1 = Ret () t" "quiet s t"
    using with_block [of s a] assms(1,2) by (auto simp: readable_def)
  then show ?thesis using assms(1,3) by (auto simp: bmap_indirect_def kop_simps readable_def entry_def Let_def)
qed

text \<open>Following the pointers of an allocated block changes nothing and gives the block.\<close>

lemma bmap_read:
  assumes r: "readable s ip" and ok: "\<forall>a \<in> set (block_path (blk s) (i_addrs (ic s ip)) bn). a \<noteq> 0 \<and> a < dk_size s" and bn: "bn < MAXFILE"
  shows "\<exists>t. bmap ip bn s = Ret (file_block (blk s) (i_addrs (ic s ip)) bn) t \<and> quiet s t"
proof -
  have q: "quiet s s" using r by (simp add: readable_def quiet_refl)
  have step: "\<exists>u. bmap_indirect ip a k t = Ret (entry (blk s) a k) u \<and> quiet s u"
    if "quiet s t" "a < dk_size s" "entry (blk s) a k \<noteq> 0" for t a k
  proof -
    have "dk_size t = dk_size s" "blk t = blk s" using that(1) by (auto simp: quiet_def bio_frame_def)
    then show ?thesis using bmap_indirect_read [OF readable_quiet [OF r that(1)], of a k] that quiet_trans [OF that(1)] by auto
  qed
  let ?p = "block_path (blk s) (i_addrs (ic s ip)) bn"
  consider (d) "bn < 10" | (i) "10 \<le> bn" "bn - 10 < 128" | (ii) "10 \<le> bn" "128 \<le> bn - 10" "bn - 10 - 128 < 128 * 128"
    | (iii) "10 \<le> bn" "128 \<le> bn - 10" "128 * 128 \<le> bn - 10 - 128" by linarith
  then show ?thesis
  proof cases
    case d
    then show ?thesis using ok q by (auto simp: bmap_def block_path_def file_block_def bmap_addr_read)
  next
    case i
    then have p: "?p = [i_addrs (ic s ip) ! 10, entry (blk s) (i_addrs (ic s ip) ! 10) (bn - 10)]" by (simp add: block_path_def Let_def)
    have "bmap ip bn s = bmap_indirect ip (i_addrs (ic s ip) ! 10) (bn - 10) s"
      using i ok by (simp add: bmap_def p bmap_addr_read kop_simps Let_def)
    then show ?thesis using step [OF q, of "i_addrs (ic s ip) ! 10" "bn - 10"] ok by (simp add: p file_block_def)
  next
    case ii
    define a b where "a = i_addrs (ic s ip) ! 11" and "b = entry (blk s) a ((bn - 10 - 128) div 128)"
    have p: "?p = [a, b, entry (blk s) b ((bn - 10 - 128) mod 128)]"
      using ii by (simp add: block_path_def Let_def a_def b_def)
    obtain t where t: "bmap_indirect ip a ((bn - 10 - 128) div 128) s = Ret b t" "quiet s t"
      using step [OF q, of a "(bn - 10 - 128) div 128"] ok by (auto simp: p b_def)
    have "bmap_addr ip 11 s = Ret a s" using ok by (simp add: p bmap_addr_read a_def)
    then have "bmap ip bn s = bmap_indirect ip b ((bn - 10 - 128) mod 128) t"
      using ii t(1) by (simp add: bmap_def kop_simps Let_def)
    then show ?thesis using step [OF t(2), of b "(bn - 10 - 128) mod 128"] ok by (simp add: p file_block_def)
  next
    case iii
    define k where "k = bn - 10 - 128 - 128 * 128"
    have k: "k < 128 * 128 * 128" using bn by (simp add: k_def)
    define a b c where "a = i_addrs (ic s ip) ! 12" and "b = entry (blk s) a (k div (128 * 128))"
      and "c = entry (blk s) b (k div 128 mod 128)"
    have p: "?p = [a, b, c, entry (blk s) c (k mod 128)]"
      using iii by (simp add: block_path_def Let_def a_def b_def c_def k_def)
    obtain t where t: "bmap_indirect ip a (k div (128 * 128)) s = Ret b t" "quiet s t"
      using step [OF q, of a "k div (128 * 128)"] ok by (auto simp: p b_def)
    obtain u where u: "bmap_indirect ip b (k div 128 mod 128) t = Ret c u" "quiet s u"
      using step [OF t(2), of b "k div 128 mod 128"] ok by (auto simp: p c_def)
    have "k - 128 * 128 * (k div (128 * 128)) = k mod (128 * 128)" by (rule minus_mult_div_eq_mod)
    also have "\<dots> = 128 * (k div 128 mod 128) + k mod 128" by (rule mod_mult2_eq)
    finally have split: "(k - 128 * 128 * (k div (128 * 128))) div 128 = k div 128 mod 128"
      "(k - 128 * 128 * (k div (128 * 128))) mod 128 = k mod 128" by simp_all
    have "bmap_addr ip 12 s = Ret a s" using ok by (simp add: p bmap_addr_read a_def)
    then have "bmap ip bn s = bmap_indirect ip c (k mod 128) u"
      using iii t(1) u(1) k split by (simp add: bmap_def kop_simps Let_def k_def [simplified])
    then show ?thesis using step [OF u(2), of c "k mod 128"] ok by (simp add: p file_block_def)
  qed
qed

section \<open>Reading a file\<close>

lemma sint_word_of_int: "- (2 ^ 31) \<le> n \<Longrightarrow> n < 2 ^ 31 \<Longrightarrow> sint (word_of_int n :: uint) = n"
  by (simp add: sint_sbintrunc' signed_take_bit_int_eq_self)

lemma sint_small:
  assumes "unat (x :: uint) < 2 ^ 31"
  shows "sint x = int (unat x)"
proof -
  have "int (unat x) < int (2 ^ 31)" using assms by (simp only: of_nat_less_iff)
  then have "uint x < 2 ^ 31" by simp
  then have "sint (word_of_int (uint x) :: uint) = uint x" by (intro sint_word_of_int) (use uint_ge_0 [of x] in linarith)+
  then show ?thesis by simp
qed

lemma div_mod_run:
  assumes "i < BSIZE - off mod BSIZE"
  shows "(off + i) div BSIZE = off div BSIZE" "(off + i) mod BSIZE = off mod BSIZE + i"
proof -
  define q r where "q = off div BSIZE" and "r = off mod BSIZE"
  have e: "off + i = (r + i) + q * BSIZE" using div_mult_mod_eq [of off BSIZE] by (simp add: q_def r_def algebra_simps)
  have l: "r + i < BSIZE" using assms unfolding r_def by linarith
  show "(off + i) div BSIZE = off div BSIZE" unfolding e q_def [symmetric] using l by simp
  show "(off + i) mod BSIZE = off mod BSIZE + i" unfolding e r_def [symmetric] using l by simp
qed

declare readi_loop.simps [simp del] writei_loop.simps [simp del]

lemma readi_loop_reads:
  assumes "readable s ip" "blocks_ok (blk s) (i_addrs (ic s ip)) (dk_size s) k" "off + n \<le> k * BSIZE" "k \<le> MAXFILE"
  shows "\<exists>t. readi_loop ip off n acc s = Ret (acc @ map (file_byte (blk s) (i_addrs (ic s ip))) [off..<off + n]) t \<and> quiet s t"
  using assms
proof (induction n arbitrary: off acc s rule: less_induct)
  case (less n)
  show ?case
  proof (cases "n = 0")
    case True
    then show ?thesis using less.prems(1) by (subst readi_loop.simps) (simp add: kop_simps readable_def quiet_refl)
  next
    case False
    let ?v = "blk s" and ?as = "i_addrs (ic s ip)"
    define m where "m = min n (BSIZE - off mod BSIZE)"
    have m: "0 < m" "m \<le> n" using False by (auto simp: m_def)
    have bn: "off div BSIZE < k" using less.prems(3) False by (auto simp: less_mult_imp_div_less)
    then have p: "\<forall>a \<in> set (block_path ?v ?as (off div BSIZE)). a \<noteq> 0 \<and> a < dk_size s"
      using less.prems(2) by (auto simp: blocks_ok_def)
    define a where "a = file_block ?v ?as (off div BSIZE)"
    have "block_path ?v ?as (off div BSIZE) \<noteq> []" by (simp add: block_path_def Let_def)
    then have a: "a < dk_size s" using p by (simp add: a_def file_block_def)
    obtain s1 where s1: "bmap ip (off div BSIZE) s = Ret a s1" "quiet s s1"
      using bmap_read [OF less.prems(1) p] bn less.prems(4) by (auto simp: a_def)
    have r1: "readable s1 ip" "blk s1 = ?v" "dk_size s1 = dk_size s" "i_dev (ic s1 ip) = 1"
      using readable_quiet [OF less.prems(1) s1(2)] s1(2) by (auto simp: quiet_def bio_frame_def readable_def)
    obtain b s2 t where w: "bread 1 a s1 = Ret b s2" "buf_data s2 b = ?v a" "brelse b s2 = Ret () t" "quiet s1 t"
      using with_block [of s1 a] r1 a by (auto simp: readable_def)
    have q: "quiet s t" by (rule quiet_trans [OF s1(2) w(4)])
    have t: "blk t = ?v" "dk_size t = dk_size s" "ic t = ic s" "readable t ip"
      using q readable_quiet [OF less.prems(1) q] by (auto simp: quiet_def bio_frame_def frame_ic)
    have bytes: "map (\<lambda>i. ?v a (off mod BSIZE + i)) [0..<m] = map (file_byte ?v ?as) [off..<off + m]"
    proof (rule nth_equalityI)
      fix i assume "i < length (map (\<lambda>i. ?v a (off mod BSIZE + i)) [0..<m])"
      then have "i < m" "i < BSIZE - off mod BSIZE" by (auto simp: m_def)
      then show "map (\<lambda>i. ?v a (off mod BSIZE + i)) [0..<m] ! i = map (file_byte ?v ?as) [off..<off + m] ! i"
        using div_mod_run [of i off] by (simp add: file_byte_def a_def)
    qed simp
    have rest: "off + m + (n - m) \<le> k * BSIZE" using less.prems(3) m by simp
    obtain u where u: "readi_loop ip (off + m) (n - m) (acc @ map (file_byte ?v ?as) [off..<off + m]) t =
      Ret ((acc @ map (file_byte ?v ?as) [off..<off + m]) @ map (file_byte ?v ?as) [off + m..<off + m + (n - m)]) u" "quiet t u"
      using less.IH [of "n - m" t "off + m" "acc @ map (file_byte ?v ?as) [off..<off + m]"] m t less.prems(2,4) rest by auto
    have "[off..<off + n] = [off..<off + m] @ [off + m..<off + m + (n - m)]"
      using m upt_add_eq_append [of off "off + m" "n - m"] by simp
    moreover have "readi_loop ip off n acc s = readi_loop ip (off + m) (n - m) (acc @ map (file_byte ?v ?as) [off..<off + m]) t"
      using False s1(1) w(1,2,3) r1(4) bytes
      by (subst readi_loop.simps) (simp add: kop_simps Let_def m_def [symmetric])
    ultimately show ?thesis using u quiet_trans [OF q u(2)] by auto
  qed
qed

text \<open>
  C11. readi returns the contents of the file: for an allocated file of whatever level of indirection, and an offset within it, the
  count is what is left up to the end of the file, the bytes are those behind the block pointers, and nothing
  changes but the buffers of the cache.\<close>

theorem readi_reads_file:
  assumes "readable s ip" "i_type (ic s ip) \<noteq> T_DEV" "off \<le> i_size (ic s ip)" "unat off + unat n < 2 ^ 32" "unat (i_size (ic s ip)) < 2 ^ 31"
    and "blocks_ok (blk s) (i_addrs (ic s ip)) (dk_size s) k" "unat (i_size (ic s ip)) \<le> k * BSIZE" "k \<le> MAXFILE"
  shows "\<exists>t. readi devsw ip off n s =
    Ret (int (min (unat n) (unat (i_size (ic s ip)) - unat off)),
         map (file_byte (blk s) (i_addrs (ic s ip))) [unat off..<min (unat off + unat n) (unat (i_size (ic s ip)))]) t \<and> quiet s t"
proof -
  define sz where "sz = i_size (ic s ip)"
  define m where "m = (if off + n > sz then sz - off else n)"
  have o: "unat off \<le> unat sz" "unat (off + n) = unat off + unat n" "\<not> off > sz"
    using assms(3,4) unat_add32 [of off n] by (auto simp: sz_def word_le_nat_alt word_less_nat_alt)
  have nw: "\<not> off + n < off" using o(2) by (simp add: word_less_nat_alt)
  have m: "unat m = min (unat n) (unat sz - unat off)"
    using o by (auto simp: m_def word_less_nat_alt unat_diff32 word_le_nat_alt)
  have sm: "sint m = int (unat m)"
    using m assms(5) by (intro sint_small) (simp add: sz_def)
  have le: "unat off + unat m \<le> k * BSIZE" using m o(1) assms(7) unfolding sz_def by linarith
  obtain t where t: "readi_loop ip (unat off) (unat m) [] s =
    Ret ([] @ map (file_byte (blk s) (i_addrs (ic s ip))) [unat off..<unat off + unat m]) t" "quiet s t"
    using readi_loop_reads [OF assms(1,6) le assms(8), of "[]"] by blast
  have "readi devsw ip off n s = bindK (readi_loop ip (unat off) (unat m) []) (\<lambda>bytes. retK (sint m, bytes)) s"
    using assms(2) o(3) nw by (simp add: readi_def sz_def [symmetric] m_def Let_def)
  moreover have "unat off + unat m = min (unat off + unat n) (unat sz)" using m o(1) by linarith
  ultimately show ?thesis using t m sm by (simp add: kop_simps sz_def)
qed

text \<open>A file of two blocks, 200 and 201, in a transaction that holds one block.\<close>

definition file_state :: consst where
  "file_state = (sample_state [])\<lparr>lg_outstanding := 1,
     ic := (\<lambda>_. no_inode\<lparr>i_dev := 1, i_type := 2, i_size := 1024, i_addrs := [200, 201, 0, 0, 0, 0, 0, 0, 0, 0, 0, 0, 0]\<rparr>)\<rparr>"

lemma file_state_cache: "bc_inv {} file_state" "dirty_bufs file_state = {0}"
  by (auto simp: bc_inv_def dirty_bufs_def file_state_def sample_defs)

theorem readi_reads_file_witness:
  "\<exists>t. readi console_devsw 0 1022 600 file_state = Ret (2, [0, 0]) t"
proof -
  have i: "ic file_state 0 = no_inode\<lparr>i_dev := 1, i_type := 2, i_size := 1024, i_addrs := [200, 201, 0, 0, 0, 0, 0, 0, 0, 0, 0, 0, 0]\<rparr>"
    "dk_size file_state = 1000"
    by (simp_all add: file_state_def sample_defs)
  have p: "block_path v [200, 201, 0, 0, 0, 0, 0, 0, 0, 0, 0, 0, 0] bn = [if bn = 0 then 200 else 201]" if "bn < 2" for v bn
    using that by (auto simp: block_path_def less_2_cases_iff)
  have z: "blk file_state a = (\<lambda>_. 0)" if "a = 200 \<or> a = 201" for a
  proof -
    have "cached file_state a = None" using that by (auto simp: cached_def find_upt_None file_state_def sample_defs)
    then show ?thesis using that by (auto simp: blk_def file_state_def sample_defs)
  qed
  have "file_byte (blk file_state) (i_addrs (ic file_state 0)) k = 0" if "k < 1024" for k
  proof -
    have "k div 512 < 2" using that by (simp add: less_mult_imp_div_less)
    then show ?thesis by (simp add: file_byte_def file_block_def p i z)
  qed
  then have "map (file_byte (blk file_state) (i_addrs (ic file_state 0))) [1022..<1024] = [0, 0]"
    by (simp add: upt_rec [of 1022] upt_rec [of 1023])
  moreover have "readable file_state 0" using file_state_cache by (simp add: readable_def i)
  moreover have "blocks_ok (blk file_state) (i_addrs (ic file_state 0)) (dk_size file_state) 2" by (auto simp: blocks_ok_def i p)
  ultimately show ?thesis
    using readi_reads_file [of file_state 0 1022 600 2 console_devsw] by (auto simp: i)
qed

end
