(* ===== verification/Fs_Write.thy ===== *)
theory Fs_Write
  imports Fs_Data
begin

text \<open>
  Changing blocks of the file system in a transaction: the pattern read, change, \<^verbatim>\<open>log_write\<close>, release, and \<^verbatim>\<open>writei\<close> inside an allocated
  file, which replaces exactly the bytes of its range and is read back by \<^verbatim>\<open>readi\<close>.
\<close>

section \<open>One change in a transaction\<close>

text \<open>What the operations on blocks leave alone.\<close>

definition txn_frame :: "'z log_scheme \<Rightarrow> 'z log_scheme \<Rightarrow> bool" where
  "txn_frame s t \<longleftrightarrow> log.more t = log.more s \<and> lg_outstanding t = lg_outstanding s \<and> lg_start t = lg_start s \<and> dk_size t = dk_size s"

lemma txn_frame_refl [simp]: "txn_frame s s"
  by (simp add: txn_frame_def)

lemma txn_frame_trans: "txn_frame s t \<Longrightarrow> txn_frame t u \<Longrightarrow> txn_frame s u"
  by (simp add: txn_frame_def)

lemma bio_frame_txn: "bio_frame s t \<Longrightarrow> txn_frame s t" for s :: "'z log_scheme"
  by (cases s; cases t; simp add: bio_frame_def txn_frame_def)

lemma bio_frame_lg_n: "bio_frame s t \<Longrightarrow> lg_n t = lg_n s" for s :: "'z log_scheme"
  by (cases s; cases t; simp add: bio_frame_def)

lemma txn_frame_ic: "txn_frame s t \<Longrightarrow> ic t = ic s" for s :: "'z fs_scheme"
  by (cases s; cases t; simp add: txn_frame_def)

lemma log_write_frame: "log_write b s = Ret () t \<Longrightarrow> k_held s = {} \<Longrightarrow> txn_frame s t"
  by (auto simp: log_write_def kop_simps Let_def upd_buf_def txn_frame_def split: if_splits)

text \<open>A log that is not full leaves a buffer free.\<close>

lemma log_inv_room:
  assumes "log_inv H s"
  shows "card (dirty_bufs s) \<le> nat (lg_n s)" "bc_inv H s"
proof -
  have "card (dirty_blocks s) \<le> card {..<nat (lg_n s)}"
    using assms card_image_le [of "{..<nat (lg_n s)}" "lg_block s"] by (simp add: log_inv_def)
  then show "card (dirty_bufs s) \<le> nat (lg_n s)" using assms card_dirty(1) [of H s] by (simp add: log_inv_def)
  show "bc_inv H s" using assms by (simp add: log_inv_def)
qed

lemma log_inv_cong:
  assumes "log_inv H s" "bc_inv H' t" "bio_frame s t" "dirty_blocks t = dirty_blocks s" "dk t = dk s"
  shows "log_inv H' t"
proof -
  have "lg_start t = lg_start s" "lg_size t = lg_size s" "lg_n t = lg_n s" "lg_block t = lg_block s" "lg_dev t = lg_dev s" "dk_size t = dk_size s"
    using assms(3) by (cases s; cases t; simp add: bio_frame_def)+
  then show ?thesis using assms by (simp add: log_inv_def log_geom_def)
qed

text \<open>The contract of one change.\<close>

definition txn_write :: "'z log_scheme \<Rightarrow> uint \<Rightarrow> stream \<Rightarrow> 'z log_scheme \<Rightarrow> bool" where
  "txn_write s n d t \<longleftrightarrow> log_inv {} t \<and> blk t = (blk s)(n := d) \<and> dk t = dk s \<and> txn_frame s t \<and>
     dirty_blocks t = insert n (dirty_blocks s) \<and> lg_n t = (if n \<in> dirty_blocks s then lg_n s else lg_n s + 1)"

lemma log_change_held:
  assumes inv: "log_inv {b} s" and o: "lg_outstanding s \<ge> 1" and room: "lg_n s < LOGSIZE - 1"
    and n: "b_blockno (bc_bufs s b) = n" "n < dk_size s" "unat n \<notin> log_region (lg_start s)"
  shows "\<exists>t. log_change b f s = Ret () t \<and> txn_write s n (f (b_data (bc_bufs s b))) t"
proof -
  let ?d = "f (b_data (bc_bufs s b))"
  define s1 where "s1 = set_data b ?d s"
  have s1: "bc_inv {b} s1" "blk s1 = (blk s)(n := ?d)" "dk s1 = dk s" "bio_frame s s1" "b_blockno (bc_bufs s1 b) = n"
    using upd_buf_inv [OF log_inv_room(2) [OF inv], of b "\<lambda>B. B\<lparr>b_data := ?d\<rparr>"] n(1)
    by (simp_all add: s1_def set_data_def bio_frame_def)
  have db: "dirty_blocks s1 = dirty_blocks s" "dirty_bufs s1 = dirty_bufs s"
    by (auto simp: dirty_blocks_def dirty_bufs_def s1_def set_data_def image_iff)
  have i1: "log_inv {b} s1" by (rule log_inv_cong [OF inv s1(1,4) db(1) s1(3)])
  have f1: "txn_frame s s1" "lg_n s1 = lg_n s" "lg_size s1 = 30" "dk_size s1 = dk_size s"
    using i1 by (simp_all add: s1_def set_data_def upd_buf_def txn_frame_def log_inv_def)
  obtain s2 where s2: "log_write b s1 = Ret () s2" "log_inv {b} s2" "blk s2 = blk s1" "dk s2 = dk s1"
    "dirty_blocks s2 = insert n (dirty_blocks s1)" "lg_n s2 = (if n \<in> dirty_blocks s1 then lg_n s1 else lg_n s1 + 1)" "b_dirty (bc_bufs s2 b)"
    using log_write_spec [OF i1 _ _ _ s1(5)] o room n f1 by (auto simp: txn_frame_def)
  have f2: "txn_frame s1 s2" by (rule log_write_frame [OF s2(1) bc_invD(1) [OF s1(1)]])
  obtain t where t: "brelse b s2 = Ret () t" "brelse_post {b} s2 b t"
    using brelse_synced [OF log_inv_room(2) [OF s2(2)]] s2(7) by (auto simp: synced_def)
  have f3: "bio_frame s2 t" "dirty_blocks t = dirty_blocks s2" "dk t = dk s2" "bc_inv {} t" "blk t = blk s2"
    using t(2) by (simp_all add: brelse_post_def)
  have "log_inv {} t" by (rule log_inv_cong [OF s2(2) f3(4,1,2,3)])
  moreover have "lg_n t = lg_n s2" by (rule bio_frame_lg_n [OF f3(1)])
  moreover have "txn_frame s t" by (rule txn_frame_trans [OF txn_frame_trans [OF f1(1) f2] bio_frame_txn [OF f3(1)]])
  moreover have "log_change b f s = Ret () t"
    using s2(1) t(1) by (simp add: log_change_def kop_simps buf_data_def s1_def)
  ultimately show ?thesis using s1 s2 f3 db f1 by (simp add: txn_write_def)
qed

lemma log_change_block:
  assumes inv: "log_inv {} s" and o: "lg_outstanding s \<ge> 1" and room: "lg_n s < LOGSIZE - 1"
    and n: "n < dk_size s" "unat n \<notin> log_region (lg_start s)"
  shows "\<exists>b s1 t. bread 1 n s = Ret b s1 \<and> bread_post {} s n b s1 \<and> log_change b f s1 = Ret () t \<and> txn_write s n (f (blk s n)) t"
proof -
  have "nat (lg_n s) < NBUF" using room by simp
  then have "card (dirty_bufs s) < NBUF" using log_inv_room(1) [OF inv] by linarith
  then obtain b s1 where b: "bread 1 n s = Ret b s1" "bread_post {} s n b s1"
    using bread_spec [OF log_inv_room(2) [OF inv] n(1)] by auto
  have p: "bc_inv {b} s1" "b_data (bc_bufs s1 b) = blk s n" "blk s1 = blk s" "dk s1 = dk s" "bio_frame s s1"
    "dirty_blocks s1 = dirty_blocks s" "b_blockno (bc_bufs s1 b) = n"
    using b(2) by (simp_all add: bread_post_def)
  have i1: "log_inv {b} s1" by (rule log_inv_cong [OF inv p(1,5,6,4)])
  have f1: "txn_frame s s1" "lg_n s1 = lg_n s"
    using bio_frame_txn [OF p(5)] bio_frame_lg_n [OF p(5)] by simp_all
  obtain t where t: "log_change b f s1 = Ret () t" "txn_write s1 n (f (blk s n)) t"
    using log_change_held [OF i1 _ _ p(7), of f] o room n f1 p(2) by (auto simp: txn_frame_def)
  moreover have "txn_write s n (f (blk s n)) t"
    using t(2) txn_frame_trans [OF f1(1)] by (simp add: txn_write_def p f1(2))
  ultimately show ?thesis using b by blast
qed

section \<open>Files that may be written\<close>

text \<open>The blocks that are read on the way to block \<open>bn\<close> determine the path.\<close>

lemma block_path_cong:
  assumes "\<forall>a \<in> set (butlast (block_path v addrs bn)). v' a = v a"
  shows "block_path v' addrs bn = block_path v addrs bn"
  using assms by (auto simp: block_path_def entry_def Let_def)

definition file_ok :: "(uint \<Rightarrow> stream) \<Rightarrow> uint list \<Rightarrow> uint \<Rightarrow> uint \<Rightarrow> nat \<Rightarrow> bool" where
  "file_ok v addrs size' start k \<longleftrightarrow> blocks_ok v addrs size' k \<and> inj_on (file_block v addrs) {..<k} \<and>
     (\<forall>bn < k. unat (file_block v addrs bn) \<notin> log_region start) \<and>
     (\<forall>bn < k. \<forall>bn' < k. file_block v addrs bn \<notin> set (butlast (block_path v addrs bn')))"

lemma file_ok_write:
  assumes "file_ok v addrs size' start k" "bn < k" "bn' < k"
  shows "block_path (v(file_block v addrs bn := d)) addrs bn' = block_path v addrs bn'"
  using assms by (intro block_path_cong) (auto simp: file_ok_def)

lemma file_ok_upd:
  assumes "file_ok v addrs size' start k" "bn < k"
  shows "file_ok (v(file_block v addrs bn := d)) addrs size' start k"
    and "bn' < k \<Longrightarrow> file_block (v(file_block v addrs bn := d)) addrs bn' = file_block v addrs bn'"
proof -
  let ?v = "v(file_block v addrs bn := d)"
  have p: "block_path ?v addrs bn' = block_path v addrs bn'" if "bn' < k" for bn'
    by (rule file_ok_write [OF assms that])
  then have f: "file_block ?v addrs bn' = file_block v addrs bn'" if "bn' < k" for bn'
    using that by (simp add: file_block_def)
  show "bn' < k \<Longrightarrow> file_block ?v addrs bn' = file_block v addrs bn'" by (rule f)
  have "inj_on (file_block ?v addrs) {..<k} = inj_on (file_block v addrs) {..<k}"
    by (rule inj_on_cong) (simp add: f)
  then show "file_ok ?v addrs size' start k"
    using assms(1) by (simp add: file_ok_def blocks_ok_def p f)
qed

lemma file_byte_upd:
  assumes "file_ok v addrs size' start k" "bn < k" "i div BSIZE < k"
  shows "file_byte (v(file_block v addrs bn := d)) addrs i =
    (if i div BSIZE = bn then d (i mod BSIZE) else file_byte v addrs i)"
proof -
  have "i div BSIZE = bn \<longleftrightarrow> file_block v addrs (i div BSIZE) = file_block v addrs bn"
    using assms by (auto simp: file_ok_def inj_on_def)
  then show ?thesis using file_ok_upd(2) [OF assms] by (simp add: file_byte_def)
qed

section \<open>Writing\<close>

text \<open>The number of blocks that \<open>n\<close> bytes from \<open>off\<close> on touch.\<close>

definition blocks_touched :: "nat \<Rightarrow> nat \<Rightarrow> nat" where
  "blocks_touched off n = (if n = 0 then 0 else Suc ((off + n - 1) div BSIZE - off div BSIZE))"

lemma blocks_touched_step:
  assumes "0 < n" "m = min n (BSIZE - off mod BSIZE)"
  shows "Suc (blocks_touched (off + m) (n - m)) \<le> blocks_touched off n"
proof (cases "n \<le> BSIZE - off mod BSIZE")
  case True
  then show ?thesis using assms by (simp add: blocks_touched_def)
next
  case False
  define q r where "q = off div BSIZE" and "r = off mod BSIZE"
  have o: "off = q * BSIZE + r" "r < BSIZE" by (simp_all add: q_def r_def)
  have m: "m = BSIZE - r" "m < n" using False assms(2) unfolding r_def [symmetric] by linarith+
  have e: "off + m = Suc q * BSIZE" using o m(1) by simp
  have "Suc q * BSIZE \<le> off + n - 1" using e m(2) by linarith
  then have "Suc q \<le> (off + n - 1) div BSIZE" by (simp only: less_eq_div_iff_mult_less_eq)
  moreover have "off + m + (n - m) - 1 = off + n - 1" using m(2) by linarith
  moreover have "(off + m) div BSIZE = Suc q" unfolding e by simp
  ultimately show ?thesis using m(2) assms(1) unfolding blocks_touched_def q_def [symmetric] by simp
qed

lemma put_bytes_nth: "put_bytes d o' src m i = (if o' \<le> i \<and> i < o' + m then src (i - o') else d i)"
  by (simp add: put_bytes_def)

text \<open>A range within one block, in terms of positions in the block.\<close>

lemma div_range:
  assumes "off mod BSIZE + m \<le> BSIZE"
  shows "i div BSIZE = off div BSIZE \<and> off mod BSIZE \<le> i mod BSIZE \<and> i mod BSIZE < off mod BSIZE + m \<longleftrightarrow> off \<le> i \<and> i < off + m"
    and "i div BSIZE = off div BSIZE \<Longrightarrow> off \<le> i \<Longrightarrow> i mod BSIZE - off mod BSIZE = i - off"
proof -
  define q r where "q = off div BSIZE" and "r = off mod BSIZE"
  have o: "off = q * BSIZE + r" by (simp add: q_def r_def)
  define q' r' where "q' = i div BSIZE" and "r' = i mod BSIZE"
  have o': "i = q' * BSIZE + r'" "r' < BSIZE" by (simp_all add: q'_def r'_def)
  have "q' = q" if "off \<le> i" "i < off + m"
  proof -
    have "q' * BSIZE < q * BSIZE + BSIZE" "q * BSIZE < q' * BSIZE + BSIZE" using that o o' assms unfolding r_def [symmetric] by linarith+
    then have "q' * BSIZE < (q + 1) * BSIZE" "q * BSIZE < (q' + 1) * BSIZE" by (simp_all only: add_mult_distrib mult_1)
    then show ?thesis by (simp only: mult_less_cancel2) linarith
  qed
  then have "q' = q \<and> r \<le> r' \<and> r' < r + m \<longleftrightarrow> off \<le> i \<and> i < off + m" unfolding o o'(1) by auto
  then show "i div BSIZE = off div BSIZE \<and> off mod BSIZE \<le> i mod BSIZE \<and> i mod BSIZE < off mod BSIZE + m \<longleftrightarrow> off \<le> i \<and> i < off + m"
    by (simp only: q_def r_def q'_def r'_def)
  have "r' - r = i - off" if "q' = q" "off \<le> i" using that unfolding o o'(1) by simp
  then show "i div BSIZE = off div BSIZE \<Longrightarrow> off \<le> i \<Longrightarrow> i mod BSIZE - off mod BSIZE = i - off"
    by (simp only: q_def r_def q'_def r'_def)
qed

text \<open>What a write leaves behind.\<close>

definition file_written :: "'z fs_scheme \<Rightarrow> nat \<Rightarrow> stream \<Rightarrow> nat \<Rightarrow> nat \<Rightarrow> nat \<Rightarrow> 'z fs_scheme \<Rightarrow> bool" where
  "file_written s ip src off n k t \<longleftrightarrow>
     log_inv {} t \<and> txn_frame s t \<and> dk t = dk s \<and> lg_n t \<le> lg_n s + int (blocks_touched off n) \<and>
     file_ok (blk t) (i_addrs (ic s ip)) (dk_size s) (lg_start s) k \<and>
     (\<forall>i < k * BSIZE. file_byte (blk t) (i_addrs (ic s ip)) i =
        (if off \<le> i \<and> i < off + n then src (i - off) else file_byte (blk s) (i_addrs (ic s ip)) i)) \<and>
     (\<forall>a. a \<notin> file_block (blk s) (i_addrs (ic s ip)) ` {..<k} \<longrightarrow> blk t a = blk s a)"

lemma writei_loop_writes:
  assumes "log_inv {} s" "lg_outstanding s \<ge> 1" "i_dev (ic s ip) = 1"
    and "file_ok (blk s) (i_addrs (ic s ip)) (dk_size s) (lg_start s) k" "k \<le> MAXFILE" "off + n \<le> k * BSIZE"
    and "lg_n s + int (blocks_touched off n) \<le> LOGSIZE - 1"
  shows "\<exists>t. writei_loop ip src off n s = Ret () t \<and> file_written s ip src off n k t"
  using assms
proof (induction n arbitrary: off src s rule: less_induct)
  case (less n)
  let ?v = "blk s" and ?as = "i_addrs (ic s ip)"
  show ?case
  proof (cases "n = 0")
    case True
    then show ?thesis using less.prems by (subst writei_loop.simps) (auto simp: kop_simps file_written_def)
  next
    case False
    define m where "m = min n (BSIZE - off mod BSIZE)"
    define bn where "bn = off div BSIZE"
    have m: "0 < m" "m \<le> n" "off mod BSIZE + m \<le> BSIZE" using False by (auto simp: m_def)
    have bn: "bn < k" using less.prems(6) False by (auto simp: bn_def less_mult_imp_div_less)
    have bt: "Suc (blocks_touched (off + m) (n - m)) \<le> blocks_touched off n"
      by (rule blocks_touched_step) (use False m_def in auto)
    then have room: "lg_n s < 29" using less.prems(7) by linarith
    have rd: "readable s ip"
    proof -
      have "nat (lg_n s) < 30" using room by simp
      then have "card (dirty_bufs s) < 30" using log_inv_room(1) [OF less.prems(1)] by linarith
      then show ?thesis using log_inv_room(2) [OF less.prems(1)] less.prems(3) by (simp add: readable_def)
    qed
    define a where "a = file_block ?v ?as bn"
    have ok: "\<forall>a \<in> set (block_path ?v ?as bn). a \<noteq> 0 \<and> a < dk_size s" "unat a \<notin> log_region (lg_start s)"
      using less.prems(4) bn by (auto simp: file_ok_def blocks_ok_def a_def)
    have "block_path ?v ?as bn \<noteq> []" by (simp add: block_path_def Let_def)
    then have a: "a < dk_size s" using ok(1) by (simp add: a_def file_block_def)
    obtain s1 where s1: "bmap ip bn s = Ret a s1" "quiet s s1"
      using bmap_read [OF rd ok(1)] bn less.prems(5) by (auto simp: a_def)
    have q1: "bc_inv {} s1" "blk s1 = ?v" "dk s1 = dk s" "bio_frame s s1" "dirty_blocks s1 = dirty_blocks s"
      using s1(2) by (simp_all add: quiet_def)
    have i1: "log_inv {} s1" by (rule log_inv_cong [OF less.prems(1) q1(1,4,5,3)])
    have f1: "txn_frame s s1" "lg_n s1 = lg_n s" using bio_frame_txn [OF q1(4)] bio_frame_lg_n [OF q1(4)] by simp_all
    obtain b s2 s3 where w: "bread 1 a s1 = Ret b s2" "log_change b (\<lambda>d. put_bytes d (off mod BSIZE) src m) s2 = Ret () s3"
      "txn_write s1 a (put_bytes (?v a) (off mod BSIZE) src m) s3"
      using log_change_block [OF i1, of a "\<lambda>d. put_bytes d (off mod BSIZE) src m"] less.prems(2) room a ok(2) f1
      by (auto simp: txn_frame_def q1(2))
    define v3 where "v3 = ?v(a := put_bytes (?v a) (off mod BSIZE) src m)"
    have f3: "txn_frame s s3" using w(3) txn_frame_trans [OF f1(1)] by (simp add: txn_write_def)
    have s3: "log_inv {} s3" "blk s3 = v3" "dk s3 = dk s" "lg_n s3 \<le> lg_n s + 1" "ic s3 = ic s"
      "lg_outstanding s3 = lg_outstanding s" "dk_size s3 = dk_size s" "lg_start s3 = lg_start s"
      using w(3) q1 f1 f3 txn_frame_ic [OF f3] by (auto simp: txn_write_def v3_def txn_frame_def)
    have o3: "file_ok v3 ?as (dk_size s) (lg_start s) k"
      unfolding v3_def a_def by (rule file_ok_upd(1) [OF less.prems(4) bn])
    have b3: "file_byte v3 ?as i = (if off \<le> i \<and> i < off + m then src (i - off) else file_byte ?v ?as i)" if "i < k * BSIZE" for i
    proof -
      have i: "i div BSIZE < k" using that by (simp add: less_mult_imp_div_less)
      have "file_byte v3 ?as i = (if i div BSIZE = bn then put_bytes (?v a) (off mod BSIZE) src m (i mod BSIZE) else file_byte ?v ?as i)"
        unfolding v3_def a_def by (rule file_byte_upd [OF less.prems(4) bn i])
      moreover have "i div BSIZE = bn \<Longrightarrow> ?v a (i mod BSIZE) = file_byte ?v ?as i" by (simp add: file_byte_def a_def)
      moreover have "i div BSIZE = bn \<and> off mod BSIZE \<le> i mod BSIZE \<and> i mod BSIZE < off mod BSIZE + m \<longleftrightarrow> off \<le> i \<and> i < off + m"
        "i div BSIZE = bn \<Longrightarrow> off \<le> i \<Longrightarrow> i mod BSIZE - off mod BSIZE = i - off"
        using div_range [of off m i] m(3) by (auto simp: bn_def)
      ultimately show ?thesis by (auto simp: put_bytes_nth)
    qed
    have IH: "\<exists>t. writei_loop ip (\<lambda>i. src (m + i)) (off + m) (n - m) s3 = Ret () t \<and>
      file_written s3 ip (\<lambda>i. src (m + i)) (off + m) (n - m) k t"
      by (rule less.IH) (use m less.prems s3 o3 bt in auto)
    then obtain t where t: "writei_loop ip (\<lambda>i. src (m + i)) (off + m) (n - m) s3 = Ret () t"
      "file_written s3 ip (\<lambda>i. src (m + i)) (off + m) (n - m) k t" by blast
    have "writei_loop ip src off n s = Ret () t"
      using False s1(1) w(1,2) t(1) f1(1) txn_frame_ic [OF f1(1)] less.prems(3)
      by (subst writei_loop.simps) (simp add: kop_simps Let_def m_def [symmetric] bn_def [symmetric])
    moreover have "file_written s ip src off n k t"
      unfolding file_written_def
    proof (intro conjI allI impI)
      show "log_inv {} t" "dk t = dk s" using t(2) s3 by (simp_all add: file_written_def)
      show "txn_frame s t" using t(2) txn_frame_trans [OF f3] by (simp add: file_written_def)
      show "lg_n t \<le> lg_n s + int (blocks_touched off n)" using t(2) s3(4) bt by (simp add: file_written_def)
      show "file_ok (blk t) ?as (dk_size s) (lg_start s) k" using t(2) s3 by (simp add: file_written_def)
      show "file_byte (blk t) ?as i = (if off \<le> i \<and> i < off + n then src (i - off) else file_byte ?v ?as i)" if "i < k * BSIZE" for i
      proof -
        have "file_byte (blk t) ?as i =
          (if off + m \<le> i \<and> i < off + m + (n - m) then src (m + (i - (off + m))) else file_byte v3 ?as i)"
          using t(2) that s3 by (simp add: file_written_def)
        then show ?thesis using b3 [OF that] m by auto
      qed
      show "blk t x = ?v x" if "x \<notin> file_block ?v ?as ` {..<k}" for x
      proof -
        have "file_block v3 ?as ` {..<k} = file_block ?v ?as ` {..<k}"
          using file_ok_upd(2) [OF less.prems(4) bn] by (auto simp: v3_def a_def intro!: image_cong)
        then have "blk t x = v3 x" using t(2) that s3 by (simp add: file_written_def)
        moreover have "x \<noteq> a" using that bn by (auto simp: a_def)
        ultimately show ?thesis by (simp add: v3_def)
      qed
    qed
    ultimately show ?thesis by blast
  qed
qed

text \<open>
  C2. Writing inside a file and reading it back, through bmap, the log and the buffer cache: a write within an allocated file
  whose blocks fit in the current transaction returns its count, a following read of the range returns exactly
  the bytes written, all other bytes of the file and all blocks that do not hold its data are as before, and the
  disk itself is not touched before the commit.\<close>

theorem writei_readi_roundtrip:
  assumes "log_inv {} s" "lg_outstanding s \<ge> 1" "i_dev (ic s ip) = 1" "i_type (ic s ip) \<noteq> T_DEV"
    and "file_ok (blk s) (i_addrs (ic s ip)) (dk_size s) (lg_start s) k" "k \<le> MAXFILE"
    and "unat off + unat n \<le> unat (i_size (ic s ip))" "unat (i_size (ic s ip)) \<le> k * BSIZE"
    and "lg_n s + int (blocks_touched (unat off) (unat n)) \<le> LOGSIZE - 1"
  shows "\<exists>t. writei devsw ip src off n s = Ret (int (unat n)) t \<and>
    (\<exists>u. readi devsw ip off n t = Ret (int (unat n), map src [0..<unat n]) u) \<and>
    (\<forall>i < unat (i_size (ic s ip)). \<not> (unat off \<le> i \<and> i < unat off + unat n) \<longrightarrow>
       file_byte (blk t) (i_addrs (ic t ip)) i = file_byte (blk s) (i_addrs (ic s ip)) i) \<and>
    (\<forall>a. a \<notin> file_block (blk s) (i_addrs (ic s ip)) ` {..<k} \<longrightarrow> blk t a = blk s a) \<and> dk t = dk s \<and> log_inv {} t"
proof -
  let ?sz = "i_size (ic s ip)" and ?as = "i_addrs (ic s ip)"
  have big: "k * BSIZE \<le> MAXFILE * BSIZE" using assms(6) by (rule mult_le_mono1)
  have sz: "unat ?sz < 2 ^ 31" using assms(8) big by simp
  have o: "unat (off + n) = unat off + unat n" using unat_add32 [of off n] assms(7) sz by simp
  have g: "\<not> off > ?sz" "\<not> off + n < off" "\<not> off + n > ?sz" "\<not> off + n > of_nat (MAXFILE * BSIZE)"
    using assms(7,8) big by (simp_all add: word_less_nat_alt o)
  have "unat off + unat n \<le> k * BSIZE" using assms(7,8) by linarith
  then obtain t where t: "writei_loop ip src (unat off) (unat n) s = Ret () t" "file_written s ip src (unat off) (unat n) k t"
    using writei_loop_writes [OF assms(1-3,5,6) _ assms(9)] by blast
  have f: "ic t = ic s" "dk_size t = dk_size s" "lg_n t \<le> 29" "log_inv {} t"
    using t(2) assms(9) txn_frame_ic [of s t] by (auto simp: file_written_def txn_frame_def)
  have n31: "unat n < 2 ^ 31" using assms(7) sz by linarith
  have "sint n = int (unat n)" by (rule sint_small [OF n31])
  then have w: "writei devsw ip src off n s = Ret (int (unat n)) t"
    using assms(4) g t(1) f(1) by (simp add: writei_def kop_simps)
  have "nat (lg_n t) < 30" using f(3) by simp
  then have rd: "readable t ip"
    using log_inv_room [OF f(4)] assms(3) f(1) by (simp add: readable_def)
  have bl: "blocks_ok (blk t) (i_addrs (ic t ip)) (dk_size t) k" using t(2) f by (simp add: file_written_def file_ok_def)
  have ol: "off \<le> ?sz" using g(1) by (simp add: not_less)
  have lim: "unat off + unat n < 2 ^ 32" using assms(7) sz by simp
  obtain u where u: "readi devsw ip off n t =
    Ret (int (min (unat n) (unat ?sz - unat off)),
         map (file_byte (blk t) ?as) [unat off..<min (unat off + unat n) (unat ?sz)]) u"
    using readi_reads_file [OF rd, of off n k devsw] assms(4,6,8) bl ol lim sz f(1) by auto
  have m: "min (unat n) (unat ?sz - unat off) = unat n" "min (unat off + unat n) (unat ?sz) = unat off + unat n"
    using assms(7) by linarith+
  have "file_byte (blk t) ?as (unat off + i) = src i" if "i < unat n" for i
    using t(2) that assms(7,8) by (simp add: file_written_def)
  then have "map (file_byte (blk t) ?as) [unat off..<unat off + unat n] = map src [0..<unat n]"
    by (intro nth_equalityI) simp_all
  then have "\<exists>u. readi devsw ip off n t = Ret (int (unat n), map src [0..<unat n]) u" using u m by simp
  then show ?thesis using w t(2) f assms(8) by (auto simp: file_written_def)
qed

lemma file_state_log: "log_inv {} file_state"
proof -
  have "bc_inv {} file_state" by (auto simp: bc_inv_def file_state_def sample_defs)
  moreover have "dirty_blocks file_state = {100}" by (auto simp: dirty_blocks_def dirty_bufs_def file_state_def sample_defs)
  moreover have "log_geom file_state" by (simp add: log_geom_def log_region_def inj_on_def file_state_def sample_defs)
  ultimately show ?thesis by (simp add: log_inv_def file_state_def sample_defs get32_def join32_def lessThan_Suc)
qed

theorem writei_readi_roundtrip_witness:
  "\<exists>t u. writei console_devsw 0 (\<lambda>i. of_nat i) 500 20 file_state = Ret 20 t \<and>
     readi console_devsw 0 500 20 t = Ret (20, map of_nat [0..<20]) u"
proof -
  have i: "ic file_state 0 = no_inode\<lparr>i_dev := 1, i_type := 2, i_size := 1024, i_addrs := [200, 201, 0, 0, 0, 0, 0, 0, 0, 0, 0, 0, 0]\<rparr>"
    "lg_outstanding file_state = 1" "dk_size file_state = 1000" "lg_start file_state = 2" "lg_n file_state = 1"
    by (simp_all add: file_state_def sample_defs)
  have p: "block_path v [200, 201, 0, 0, 0, 0, 0, 0, 0, 0, 0, 0, 0] bn = [if bn = 0 then 200 else 201]" if "bn < 2" for v bn
    using that by (auto simp: block_path_def less_2_cases_iff)
  have "file_ok (blk file_state) (i_addrs (ic file_state 0)) (dk_size file_state) (lg_start file_state) 2"
    by (auto simp: file_ok_def blocks_ok_def i p file_block_def inj_on_def log_region_def split: if_splits)
  then show ?thesis
    using writei_readi_roundtrip [of file_state 0 2 500 20 console_devsw "\<lambda>i. of_nat i"] file_state_log
    by (auto simp: i blocks_touched_def)
qed

end
