(* ===== verification/Fs_Alloc.thy ===== *)
theory Fs_Alloc
  imports Fs_Write
begin

text \<open>
  The allocation of disk blocks and of entries of the inode cache: \<^verbatim>\<open>balloc\<close> and \<^verbatim>\<open>bfree\<close> on the bitmap, \<^verbatim>\<open>iget\<close> and \<^verbatim>\<open>idup\<close> on the
  reference counts.
\<close>

section \<open>The bitmap\<close>

text \<open>Whether the bitmap marks block \<open>b\<close> as used, when the blocks have the contents \<open>v\<close>.\<close>

definition used :: "(uint \<Rightarrow> stream) \<Rightarrow> superblock \<Rightarrow> nat \<Rightarrow> bool" where
  "used v sb b \<longleftrightarrow> block_bit (v (BBLOCK (of_nat b) sb)) (b mod BPB)"

lemma bit_mask_byte: "(x :: uchar) AND push_bit k 1 \<noteq> 0 \<longleftrightarrow> bit x k" if "k < 8"
proof -
  have "x AND push_bit k 1 = (if bit x k then push_bit k 1 else 0)"
    by (rule bit_word_eqI) (auto simp: bit_simps)
  moreover have "bit (push_bit k 1 :: uchar) k" using that by (simp add: bit_simps)
  ultimately show ?thesis by (auto simp del: push_bit_of_1)
qed

lemma block_bit_iff: "block_bit d bi \<longleftrightarrow> bit (d (bi div 8)) (bi mod 8)"
  by (simp only: block_bit_def) (rule bit_mask_byte, simp)

lemma byte_index: "(i :: nat) div 8 = j div 8 \<Longrightarrow> i mod 8 = j mod 8 \<longleftrightarrow> i = j"
  by (metis div_mult_mod_eq)

lemma block_bit_set: "block_bit (set_block_bit bi d) bj \<longleftrightarrow> bj = bi \<or> block_bit d bj"
  by (auto simp: block_bit_iff set_block_bit_def bit_simps byte_index)

lemma block_bit_clear: "block_bit (clear_block_bit bi d) bj \<longleftrightarrow> bj \<noteq> bi \<and> block_bit d bj"
  by (auto simp: block_bit_iff clear_block_bit_def bit_simps byte_index)

section \<open>Allocating a block\<close>

definition groups :: "superblock \<Rightarrow> nat" where
  "groups sb = (unat (sb_size sb) + BPB - 1) div BPB"

text \<open>The bitmap lies on the disk outside the log, and marks the blocks of the log and of itself as used.\<close>

definition bitmap_ok :: "'z fs_scheme \<Rightarrow> bool" where
  "bitmap_ok s \<longleftrightarrow> (let sb = fs_sb s in
     sb_size sb \<le> dk_size s \<and> unat (sb_bmapstart sb) + groups sb \<le> unat (dk_size s) \<and>
     (\<forall>g < groups sb. unat (sb_bmapstart sb) + g \<notin> log_region (lg_start s)) \<and>
     (\<forall>b < unat (sb_size sb). \<not> used (blk s) sb b \<longrightarrow>
        b \<notin> log_region (lg_start s) \<and> \<not> (unat (sb_bmapstart sb) \<le> b \<and> b < unat (sb_bmapstart sb) + groups sb)))"

lemma group_less: "b < unat (sb_size sb) \<Longrightarrow> b div BPB < groups sb"
proof -
  assume "b < unat (sb_size sb)"
  then have "b + BPB \<le> unat (sb_size sb) + BPB - 1" by linarith
  then have "(b + BPB) div BPB \<le> groups sb" unfolding groups_def by (rule div_le_mono)
  moreover have "(b + BPB) div BPB = Suc (b div BPB)" by simp
  ultimately show ?thesis by (simp only: Suc_le_eq)
qed

lemma BBLOCK_group:
  assumes "b < unat (sb_size sb)" "unat (sb_bmapstart sb) + groups sb \<le> unat (z :: uint)"
  shows "unat (BBLOCK (of_nat b) sb) = unat (sb_bmapstart sb) + b div BPB" "BBLOCK (of_nat b) sb = of_nat (b div BPB) + sb_bmapstart sb"
proof -
  have b: "b < 4294967296" using assms(1) unat_lt32 [of "sb_size sb"] by linarith
  define g where "g = b div BPB"
  have g: "g \<le> b" unfolding g_def by (rule div_le_dividend)
  then have g32: "unat (of_nat g :: uint) = g" using b by (intro unat_of_nat32) linarith
  have "unat ((of_nat b :: uint) div of_nat BPB) = unat (of_nat b :: uint) div unat (of_nat BPB :: uint)" by (rule unat_div)
  also have "\<dots> = g" unfolding g_def unat_of_nat32 [OF b] by simp
  finally have "(of_nat b :: uint) div of_nat BPB = of_nat g" unfolding word_unat_eq_iff g32 .
  then show e: "BBLOCK (of_nat b) sb = of_nat (b div BPB) + sb_bmapstart sb"
    unfolding BBLOCK_def g_def [symmetric] by (simp only:)
  have "g + unat (sb_bmapstart sb) < 4294967296"
    using group_less [OF assms(1)] assms(2) unat_lt32 [of z] unfolding g_def [symmetric] by linarith
  then show "unat (BBLOCK (of_nat b) sb) = unat (sb_bmapstart sb) + b div BPB"
    unfolding e g_def [symmetric] using unat_add32 [of "of_nat g" "sb_bmapstart sb"] g32 by simp
qed

lemma frame_sb: "txn_frame s t \<Longrightarrow> fs_sb t = fs_sb s" for s :: "'z fs_scheme"
  by (cases s; cases t; simp add: txn_frame_def)

text \<open>Block \<open>b\<close> is taken: its bit is set, its contents are zero, nothing else changes.\<close>

definition allocated :: "'z fs_scheme \<Rightarrow> nat \<Rightarrow> 'z fs_scheme \<Rightarrow> bool" where
  "allocated s b t \<longleftrightarrow> log_inv {} t \<and> txn_frame s t \<and> dk t = dk s \<and> lg_n t \<le> lg_n s + 2 \<and>
     blk t = (blk s)(BBLOCK (of_nat b) (fs_sb s) := set_block_bit (b mod BPB) (blk s (BBLOCK (of_nat b) (fs_sb s))), of_nat b := (\<lambda>_. 0))"

text \<open>What the operations of a transaction need.\<close>

definition in_txn :: "'z fs_scheme \<Rightarrow> nat \<Rightarrow> bool" where
  "in_txn s n \<longleftrightarrow> log_inv {} s \<and> lg_outstanding s \<ge> 1 \<and> lg_n s + int n \<le> LOGSIZE - 1"

lemma bzero_zeroes:
  assumes "in_txn s 1" "n < dk_size s" "unat n \<notin> log_region (lg_start s)"
  shows "\<exists>t. bzero 1 n s = Ret () t \<and> txn_write s n (\<lambda>_. 0) t"
proof -
  have "lg_n s < 29" using assms(1) by (simp add: in_txn_def)
  then show ?thesis
    using log_change_block [of s n "\<lambda>_ _. 0"] assms by (auto simp: in_txn_def bzero_def kop_simps)
qed

lemma group_block:
  assumes "g * BPB \<le> b" "b < g * BPB + BPB"
  shows "b div BPB = g" "b mod BPB = b - g * BPB"
proof -
  obtain i where i: "b = i + g * BPB" "i < BPB" using assms by (metis add.commute add_less_cancel_left le_Suc_ex)
  then show "b div BPB = g" "b mod BPB = b - g * BPB" by simp_all
qed

lemma balloc_group_none:
  assumes "in_txn s 2" "bitmap_ok s" "g < groups (fs_sb s)" "g * BPB < unat (sb_size (fs_sb s))"
    and "\<And>b. g * BPB \<le> b \<Longrightarrow> b < g * BPB + BPB \<Longrightarrow> b < unat (sb_size (fs_sb s)) \<Longrightarrow> used (blk s) (fs_sb s) b"
  shows "\<exists>t. balloc_group 1 g s = Ret None t \<and> quiet s t"
proof -
  let ?sb = "fs_sb s" and ?m = "BBLOCK (of_nat (g * BPB)) (fs_sb s)"
  have geo: "unat (sb_bmapstart ?sb) + groups ?sb \<le> unat (dk_size s)" using assms(2) by (simp add: bitmap_ok_def Let_def)
  have m: "unat ?m = unat (sb_bmapstart ?sb) + g" using BBLOCK_group(1) [OF assms(4) geo] by simp
  then have "?m < dk_size s" using geo assms(3) by (simp add: word_less_nat_alt)
  moreover have "bc_inv {} s" "card (dirty_bufs s) < NBUF" using assms(1) log_inv_room [of "{}" s] by (auto simp: in_txn_def)
  ultimately obtain bp s1 t where w: "bread 1 ?m s = Ret bp s1" "buf_data s1 bp = blk s ?m" "bio_frame s s1" "brelse bp s1 = Ret () t" "quiet s t"
    using with_block [of s ?m] by blast
  have "block_bit (blk s ?m) bi" if "bi < BPB" "bi < unat (sb_size ?sb) - g * BPB" for bi
  proof -
    have "used (blk s) ?sb (g * BPB + bi)" using assms(5) [of "g * BPB + bi"] that by simp
    moreover have "BBLOCK (of_nat (g * BPB + bi)) ?sb = ?m"
      using BBLOCK_group(2) [of "g * BPB + bi" ?sb, OF _ geo] BBLOCK_group(2) [OF assms(4) geo] that group_block [of g "g * BPB + bi"] by simp
    ultimately show ?thesis using that by (simp add: used_def)
  qed
  then have "List.find (\<lambda>bi. \<not> block_bit (blk s ?m) bi) [0..<min BPB (unat (sb_size ?sb) - g * BPB)] = None"
    by (auto simp: find_upt_None)
  then show ?thesis using w frame_sb [OF bio_frame_txn [OF w(3)]] by (simp add: balloc_group_def kop_simps)
qed

lemma balloc_group_some:
  assumes "in_txn s 2" "bitmap_ok s" "g * BPB \<le> b" "b < g * BPB + BPB" "b < unat (sb_size (fs_sb s))"
    and "\<not> used (blk s) (fs_sb s) b" "\<And>c. g * BPB \<le> c \<Longrightarrow> c < b \<Longrightarrow> used (blk s) (fs_sb s) c"
  shows "\<exists>t. balloc_group 1 g s = Ret (Some (of_nat b)) t \<and> allocated s b t"
proof -
  let ?sb = "fs_sb s" and ?m = "BBLOCK (of_nat b) (fs_sb s)"
  define bi where "bi = b - g * BPB"
  have b: "b = g * BPB + bi" "bi < BPB" "b div BPB = g" "b mod BPB = bi" using assms(3,4) group_block [OF assms(3,4)] by (auto simp: bi_def)
  have geo: "unat (sb_bmapstart ?sb) + groups ?sb \<le> unat (dk_size s)" "sb_size ?sb \<le> dk_size s" using assms(2) by (auto simp: bitmap_ok_def Let_def)
  have m: "unat ?m = unat (sb_bmapstart ?sb) + g" using BBLOCK_group(1) [OF assms(5) geo(1)] b(3) by simp
  have g: "g < groups ?sb" using group_less [OF assms(5)] b(3) by simp
  have same: "BBLOCK (of_nat c) ?sb = ?m" if "g * BPB \<le> c" "c \<le> b" for c
    using BBLOCK_group(2) [of c ?sb, OF _ geo(1)] BBLOCK_group(2) [OF assms(5) geo(1)] that assms(4,5) group_block(1) [of g c] b(3) by simp
  have md: "?m < dk_size s" "unat ?m \<notin> log_region (lg_start s)"
    using geo g m assms(2) by (auto simp: word_less_nat_alt bitmap_ok_def Let_def)
  have "lg_n s < 29" using assms(1) by (simp add: in_txn_def)
  then obtain bp s1 s2 where w: "bread 1 ?m s = Ret bp s1" "log_change bp (set_block_bit bi) s1 = Ret () s2"
    "txn_write s ?m (set_block_bit bi (blk s ?m)) s2" "bread_post {} s ?m bp s1"
    using log_change_block [of s ?m "set_block_bit bi"] assms(1) md by (auto simp: in_txn_def)
  have f1: "buf_data s1 bp = blk s ?m" "fs_sb s1 = ?sb"
    using w(4) frame_sb [OF bio_frame_txn] by (auto simp: bread_post_def buf_data_def)
  have "List.find (\<lambda>bi. \<not> block_bit (blk s ?m) bi) [0..<min BPB (unat (sb_size ?sb) - g * BPB)] = Some bi"
    unfolding find_upt_Some
  proof (intro conjI allI impI)
    show "bi < min BPB (unat (sb_size ?sb) - g * BPB)" using b assms(5) by linarith
    show "\<not> block_bit (blk s ?m) bi" using assms(6) b(4) by (simp add: used_def)
    fix j assume "0 \<le> j \<and> j < bi"
    then show "\<not> \<not> block_bit (blk s ?m) j"
      using assms(7) [of "g * BPB + j"] same [of "g * BPB + j"] b group_block(2) [of g "g * BPB + j"] by (simp add: used_def)
  qed simp
  moreover have ob: "(of_nat (g * BPB + bi) :: uint) = of_nat b" using b(1) by simp
  moreover obtain t where t: "bzero 1 (of_nat b) s2 = Ret () t" "txn_write s2 (of_nat b) (\<lambda>_. 0) t"
  proof -
    have "b < unat (dk_size s)" using assms(5) geo(2) by (simp add: word_le_nat_alt)
    then have ub: "unat (of_nat b :: uint) = b" using unat_lt32 [of "dk_size s"] by (intro unat_of_nat32) linarith
    have "in_txn s2 1" using w(3) assms(1) by (auto simp: in_txn_def txn_write_def txn_frame_def)
    moreover have "(of_nat b :: uint) < dk_size s2" "unat (of_nat b :: uint) \<notin> log_region (lg_start s2)"
      using w(3) assms(2,5,6) \<open>b < unat (dk_size s)\<close> ub by (auto simp: txn_write_def txn_frame_def word_less_nat_alt bitmap_ok_def Let_def)
    ultimately show ?thesis using bzero_zeroes [of s2 "of_nat b"] that by blast
  qed
  moreover have "BBLOCK (of_nat (g * BPB)) ?sb = ?m" using same [of "g * BPB"] assms(3) by simp
  ultimately have "balloc_group 1 g s = Ret (Some (of_nat b)) t"
    using w(1,2) f1 by (simp add: balloc_group_def kop_simps del: of_nat_add of_nat_mult)
  moreover have "allocated s b t"
    using w(3) t(2) txn_frame_trans [of s s2 t] b(4) by (auto simp: allocated_def txn_write_def)
  ultimately show ?thesis by blast
qed

lemma quiet_txn:
  assumes "in_txn s n" "quiet s t"
  shows "in_txn t n" "txn_frame s t" "lg_n t = lg_n s" "fs_sb t = fs_sb s" "blk t = blk s"
proof -
  have q: "bc_inv {} t" "bio_frame s t" "dirty_blocks t = dirty_blocks s" "dk t = dk s" "blk t = blk s" using assms(2) by (simp_all add: quiet_def)
  show f: "txn_frame s t" "lg_n t = lg_n s" "fs_sb t = fs_sb s" "blk t = blk s"
    using bio_frame_txn [OF q(2)] bio_frame_lg_n [OF q(2)] frame_sb [OF bio_frame_txn [OF q(2)]] q(5) by simp_all
  show "in_txn t n" using assms(1) log_inv_cong [OF _ q(1,2,3,4)] f by (auto simp: in_txn_def txn_frame_def)
qed

lemma quiet_bitmap: "in_txn s n \<Longrightarrow> bitmap_ok s \<Longrightarrow> quiet s t \<Longrightarrow> bitmap_ok t"
  using quiet_txn [of s n t] by (simp add: bitmap_ok_def txn_frame_def)

lemma balloc_search:
  assumes "in_txn s 2" "bitmap_ok s" "b < unat (sb_size (fs_sb s))" "\<not> used (blk s) (fs_sb s) b" "\<forall>c < b. used (blk s) (fs_sb s) c"
    and "g \<le> b div BPB"
  shows "\<exists>t. searchK [g..<groups (fs_sb s)] (balloc_group 1) s = Ret (Some (of_nat b)) t \<and> allocated s b t"
  using assms
proof (induction "b div BPB - g" arbitrary: g s)
  case 0
  then have g: "g = b div BPB" by simp
  have r: "g * BPB \<le> b" "b < g * BPB + BPB" using div_mult_mod_eq [of b BPB] mod_less_divisor [of BPB b] unfolding g by linarith+
  have l: "[g..<groups (fs_sb s)] = g # [Suc g..<groups (fs_sb s)]" using group_less [OF 0(4)] g by (simp add: upt_conv_Cons)
  obtain t where "balloc_group 1 g s = Ret (Some (of_nat b)) t" "allocated s b t"
    using balloc_group_some [OF 0(2,3) r 0(4,5)] 0(6) by auto
  then show ?case by (simp add: l kop_simps)
next
  case (Suc k)
  have g: "g < b div BPB" and k: "k = b div BPB - Suc g" using Suc.hyps(2) by linarith+
  have gb: "g * BPB + BPB \<le> b"
  proof -
    have "Suc g * BPB \<le> b div BPB * BPB" using g by (intro mult_le_mono1) simp
    also have "\<dots> \<le> b" by (rule div_times_less_eq_dividend)
    finally show ?thesis by simp
  qed
  have gl: "g < groups (fs_sb s)" using g group_less [OF Suc.prems(3)] by linarith
  obtain s1 where s1: "balloc_group 1 g s = Ret None s1" "quiet s s1"
    using balloc_group_none [OF Suc.prems(1,2) gl] Suc.prems(3,5) gb by auto
  note q = quiet_txn [OF Suc.prems(1) s1(2)]
  obtain t where t: "searchK [Suc g..<groups (fs_sb s)] (balloc_group 1) s1 = Ret (Some (of_nat b)) t" "allocated s1 b t"
    using Suc.hyps(1) [of "Suc g" s1] k Suc.prems g q quiet_bitmap [OF Suc.prems(1,2) s1(2)] by auto
  have "[g..<groups (fs_sb s)] = g # [Suc g..<groups (fs_sb s)]" using gl by (simp add: upt_conv_Cons)
  moreover have "allocated s b t" using t(2) q txn_frame_trans [OF q(2)] s1(2) by (auto simp: allocated_def quiet_def)
  ultimately show ?case using s1(1) t(1) by (simp add: kop_simps)
qed

lemma balloc_search_none:
  assumes "in_txn s 2" "bitmap_ok s" "\<forall>c < unat (sb_size (fs_sb s)). used (blk s) (fs_sb s) c" "g \<le> groups (fs_sb s)"
  shows "\<exists>t. searchK [g..<groups (fs_sb s)] (balloc_group 1) s = Ret None t"
  using assms
proof (induction "groups (fs_sb s) - g" arbitrary: g s)
  case 0
  then show ?case by (simp add: kop_simps)
next
  case (Suc k)
  have gl: "g < groups (fs_sb s)" and k: "k = groups (fs_sb s) - Suc g" using Suc.hyps(2) by linarith+
  have "g * BPB < unat (sb_size (fs_sb s))"
  proof -
    have "Suc g * BPB \<le> groups (fs_sb s) * BPB" using gl by (intro mult_le_mono1) simp
    also have "\<dots> \<le> unat (sb_size (fs_sb s)) + BPB - 1" unfolding groups_def by (rule div_times_less_eq_dividend)
    finally show ?thesis by simp
  qed
  then obtain s1 where s1: "balloc_group 1 g s = Ret None s1" "quiet s s1"
    using balloc_group_none [OF Suc.prems(1,2) gl] Suc.prems(3) by auto
  note q = quiet_txn [OF Suc.prems(1) s1(2)]
  obtain t where "searchK [Suc g..<groups (fs_sb s)] (balloc_group 1) s1 = Ret None t"
    using Suc.hyps(1) [of s1 "Suc g"] k Suc.prems gl q quiet_bitmap [OF Suc.prems(1,2) s1(2)] by auto
  moreover have "[g..<groups (fs_sb s)] = g # [Suc g..<groups (fs_sb s)]" using gl by (simp add: upt_conv_Cons)
  ultimately show ?case using s1(1) by (simp add: kop_simps)
qed

lemma balloc_eq:
  "balloc 1 s = bindK (searchK [0..<groups (fs_sb s)] (balloc_group 1)) (\<lambda>r.
     case r of Some b \<Rightarrow> retK b | None \<Rightarrow> panic ''balloc: out of blocks'') s"
  by (simp only: balloc_def groups_def)

text \<open>
  C9. balloc hands out a fresh block: in a transaction with room for two blocks it returns the first block the bitmap has free, marks
  exactly that block as used, leaves it zeroed and changes no other block but that of the bitmap; when no block is
  free it panics.\<close>

theorem balloc_fresh:
  assumes "in_txn s 2" "bitmap_ok s"
  shows "case List.find (\<lambda>b. \<not> used (blk s) (fs_sb s) b) [0..<unat (sb_size (fs_sb s))] of
      None \<Rightarrow> balloc 1 s = Panic ''balloc: out of blocks''
    | Some b \<Rightarrow> \<exists>t. balloc 1 s = Ret (of_nat b) t \<and> log_inv {} t \<and> blk t (of_nat b) = (\<lambda>_. 0) \<and>
        (\<forall>c < unat (sb_size (fs_sb s)). used (blk t) (fs_sb t) c \<longleftrightarrow> c = b \<or> used (blk s) (fs_sb s) c) \<and>
        (\<forall>a. a \<noteq> of_nat b \<and> a \<noteq> BBLOCK (of_nat b) (fs_sb s) \<longrightarrow> blk t a = blk s a)"
proof (cases "List.find (\<lambda>b. \<not> used (blk s) (fs_sb s) b) [0..<unat (sb_size (fs_sb s))]")
  case None
  then have "\<forall>c < unat (sb_size (fs_sb s)). used (blk s) (fs_sb s) c" by (simp add: find_upt_None)
  from balloc_search_none [OF assms this, of 0] show ?thesis
    using None by (auto simp: balloc_eq kop_simps)
next
  case (Some b)
  let ?sb = "fs_sb s"
  have b: "b < unat (sb_size ?sb)" "\<not> used (blk s) ?sb b" "\<forall>c < b. used (blk s) ?sb c" using Some by (auto simp: find_upt_Some)
  obtain t where t: "searchK [0..<groups ?sb] (balloc_group 1) s = Ret (Some (of_nat b)) t" "allocated s b t"
    using balloc_search [OF assms b, of 0] by auto
  have v: "blk t = (blk s)(BBLOCK (of_nat b) ?sb := set_block_bit (b mod BPB) (blk s (BBLOCK (of_nat b) ?sb)), of_nat b := (\<lambda>_. 0))"
    "fs_sb t = ?sb" "log_inv {} t" using t(2) frame_sb [of s t] by (auto simp: allocated_def)
  have "used (blk t) ?sb c \<longleftrightarrow> c = b \<or> used (blk s) ?sb c" if c: "c < unat (sb_size ?sb)" for c
  proof -
    have geo: "unat (sb_bmapstart ?sb) + groups ?sb \<le> unat (dk_size s)" using assms(2) by (simp add: bitmap_ok_def Let_def)
    have ub: "unat (of_nat b :: uint) = b" using b(1) unat_lt32 [of "sb_size ?sb"] by (intro unat_of_nat32) linarith
    note C = BBLOCK_group(1) [OF c geo] and B = BBLOCK_group(1) [OF b(1) geo]
    have "\<not> (unat (sb_bmapstart ?sb) \<le> b \<and> b < unat (sb_bmapstart ?sb) + groups ?sb)"
      using assms(2) b(1,2) by (simp add: bitmap_ok_def Let_def)
    then have nb: "BBLOCK (of_nat c) ?sb \<noteq> of_nat b" using C group_less [OF c] ub by auto
    have "BBLOCK (of_nat c) ?sb = BBLOCK (of_nat b) ?sb \<longleftrightarrow> c div BPB = b div BPB" using B C by (auto simp: word_unat_eq_iff)
    moreover have "c div BPB = b div BPB \<Longrightarrow> c mod BPB = b mod BPB \<longleftrightarrow> c = b" by (metis div_mult_mod_eq)
    ultimately show ?thesis using nb by (auto simp: used_def v(1) block_bit_set)
  qed
  moreover have "balloc 1 s = Ret (of_nat b) t" using t(1) by (simp add: balloc_eq kop_simps)
  ultimately show ?thesis using Some v by auto
qed

text \<open>A disk of 1000 blocks with the bitmap in block 58; the first 64 blocks are used.\<close>

definition bitmap_state :: consst where
  "bitmap_state = file_state\<lparr>fs_sb := (get_superblock (\<lambda>_. 0))\<lparr>sb_size := 1000, sb_bmapstart := 58\<rparr>,
     dk := (dk file_state)(58 := (\<lambda>i. if i < 8 then 255 else 0))\<rparr>"

lemma bitmap_state_used: "b < 1000 \<Longrightarrow> used (blk bitmap_state) (fs_sb bitmap_state) b \<longleftrightarrow> b < 64"
proof -
  assume b: "b < 1000"
  have sb: "fs_sb bitmap_state = (get_superblock (\<lambda>_. 0))\<lparr>sb_size := 1000, sb_bmapstart := 58\<rparr>" by (simp add: bitmap_state_def)
  have "groups (fs_sb bitmap_state) = 1" by (simp add: groups_def sb)
  then have "BBLOCK (of_nat b) (fs_sb bitmap_state) = 58"
    using BBLOCK_group(2) [of b "fs_sb bitmap_state" 1000] b by (simp add: sb)
  moreover have "blk bitmap_state 58 = (\<lambda>i. if i < 8 then 255 else 0)"
  proof -
    have "cached bitmap_state 58 = None"
      by (auto simp: cached_def find_upt_None bitmap_state_def file_state_def sample_defs)
    then show ?thesis by (simp add: blk_def bitmap_state_def file_state_def sample_defs)
  qed
  moreover have "bit (255 :: uchar) k" if "k < 8" for k
    using that by (auto simp: bit_numeral_rec less_Suc_eq numeral_eq_Suc bit_Suc)
  moreover have "b div 8 < 8 \<longleftrightarrow> b < 64" by (simp add: div_less_iff_less_mult)
  ultimately show ?thesis using b by (simp add: used_def block_bit_iff)
qed

theorem balloc_fresh_witness:
  "\<exists>t. balloc 1 bitmap_state = Ret 64 t \<and> used (blk t) (fs_sb t) 64"
proof -
  have f: "fs_sb bitmap_state = (get_superblock (\<lambda>_. 0))\<lparr>sb_size := 1000, sb_bmapstart := 58\<rparr>" "dk_size bitmap_state = 1000"
    "lg_start bitmap_state = 2" "lg_n bitmap_state = 1" "lg_outstanding bitmap_state = 1"
    by (simp_all add: bitmap_state_def file_state_def sample_defs)
  have "bc_inv {} bitmap_state" by (auto simp: bc_inv_def bitmap_state_def file_state_def sample_defs)
  moreover have "dirty_blocks bitmap_state = {100}" by (auto simp: dirty_blocks_def dirty_bufs_def bitmap_state_def file_state_def sample_defs)
  moreover have "log_geom bitmap_state" by (simp add: log_geom_def log_region_def inj_on_def bitmap_state_def file_state_def sample_defs)
  ultimately have "log_inv {} bitmap_state"
    by (simp add: log_inv_def bitmap_state_def file_state_def sample_defs get32_def join32_def lessThan_Suc)
  then have i: "in_txn bitmap_state 2" by (simp add: in_txn_def f)
  have g: "groups (fs_sb bitmap_state) = 1" by (simp add: groups_def f)
  have o: "bitmap_ok bitmap_state"
    using bitmap_state_used by (auto simp: bitmap_ok_def f(2-5) g log_region_def) (auto simp: f(1))
  have "List.find (\<lambda>b. \<not> used (blk bitmap_state) (fs_sb bitmap_state) b) [0..<unat (sb_size (fs_sb bitmap_state))] = Some 64"
    using bitmap_state_used by (simp add: find_upt_Some f(1))
  then show ?thesis using balloc_fresh [OF i o] by (auto simp: f(1))
qed

section \<open>The inode cache\<close>

text \<open>Reference counts are not negative, no inode has two entries in use, and every entry has 13 block pointers.\<close>

definition icache_ok :: "'z fs_scheme \<Rightarrow> bool" where
  "icache_ok s \<longleftrightarrow> (\<forall>i < NINODE. i_ref (ic s i) \<ge> 0 \<and> length (i_addrs (ic s i)) = NDIRECT + 3) \<and>
     (\<forall>i < NINODE. \<forall>j < NINODE. i_ref (ic s i) > 0 \<and> i_ref (ic s j) > 0 \<and> i_dev (ic s i) = i_dev (ic s j) \<and>
        i_inum (ic s i) = i_inum (ic s j) \<longrightarrow> i = j)"

definition ino_entry :: "'z fs_scheme \<Rightarrow> uint \<Rightarrow> uint \<Rightarrow> nat option" where
  "ino_entry s dev inum = List.find (\<lambda>i. i_ref (ic s i) > 0 \<and> i_dev (ic s i) = dev \<and> i_inum (ic s i) = inum) [0..<NINODE]"

lemma upd_ino_simps [simp]:
  "k_held (upd_ino i f s) = k_held s" "ic (upd_ino i f s) = (ic s)(i := f (ic s i))"
  by (simp_all add: upd_ino_def)

lemma seqK_acquire: "l \<notin> k_held s \<Longrightarrow> seqK (acquire l) k s = k (s\<lparr>k_held := insert l (k_held s)\<rparr>)"
  by (simp add: kop_simps)

lemma upd_locked:
  "k_held s = {} \<Longrightarrow>
   seqK (modifyK (upd_ino i f)) (seqK (release IcacheLock) (retK i)) (s\<lparr>k_held := {IcacheLock}\<rparr>) = Ret i (upd_ino i f s)"
  by (cases s) (simp add: kop_simps upd_ino_def)

lemma icache_okD:
  "icache_ok s \<Longrightarrow> i < NINODE \<Longrightarrow> j < NINODE \<Longrightarrow> i_ref (ic s i) > 0 \<Longrightarrow> i_ref (ic s j) > 0 \<Longrightarrow> i_dev (ic s i) = i_dev (ic s j) \<Longrightarrow>
    i_inum (ic s i) = i_inum (ic s j) \<Longrightarrow> i = j"
  unfolding icache_ok_def by blast

lemma ino_entry_unique:
  assumes "icache_ok s" "i < NINODE" "i_ref (ic s i) > 0"
  shows "ino_entry s (i_dev (ic s i)) (i_inum (ic s i)) = Some i"
  unfolding ino_entry_def find_upt_Some
proof (intro conjI allI impI notI)
  fix j assume j: "0 \<le> j \<and> j < i" "0 < i_ref (ic s j) \<and> i_dev (ic s j) = i_dev (ic s i) \<and> i_inum (ic s j) = i_inum (ic s i)"
  then have "j = i" using icache_okD [OF assms(1), of j i] assms(2,3) by simp
  then show False using j by simp
qed (use assms in simp_all)

lemma icache_upd:
  assumes "icache_ok s" "i < NINODE" "i_ref (f (ic s i)) \<ge> 0" "length (i_addrs (f (ic s i))) = NDIRECT + 3"
    and "\<And>j. j < NINODE \<Longrightarrow> j \<noteq> i \<Longrightarrow> i_ref (ic s j) > 0 \<Longrightarrow> i_ref (f (ic s i)) > 0 \<Longrightarrow>
      i_dev (ic s j) \<noteq> i_dev (f (ic s i)) \<or> i_inum (ic s j) \<noteq> i_inum (f (ic s i))"
  shows "icache_ok (upd_ino i f s)"
proof -
  have e: "ic (upd_ino i f s) = (ic s)(i := f (ic s i))" by (simp add: upd_ino_def)
  have 1: "\<forall>j < NINODE. i_ref (ic (upd_ino i f s) j) \<ge> 0 \<and> length (i_addrs (ic (upd_ino i f s) j)) = NDIRECT + 3"
    using assms(1-4) by (simp add: e icache_ok_def)
  have "j = k" if "j < NINODE" "k < NINODE" "i_ref (ic (upd_ino i f s) j) > 0" "i_ref (ic (upd_ino i f s) k) > 0"
    "i_dev (ic (upd_ino i f s) j) = i_dev (ic (upd_ino i f s) k)" "i_inum (ic (upd_ino i f s) j) = i_inum (ic (upd_ino i f s) k)" for j k
    using that assms(1) assms(5) [of j] assms(5) [of k] by (cases "j = i"; cases "k = i") (auto simp: e icache_ok_def)
  then show ?thesis using 1 unfolding icache_ok_def by blast
qed

text \<open>
  C20. The inode cache gives an inode one entry: iget returns the entry in use for the device and number with one more reference, or
  takes the first free entry and marks it not yet read, or panics when all are in use; the cache stays well formed, other
  entries are not touched, and a second iget returns the same entry.\<close>

theorem iget_one_entry:
  assumes "k_held s = {}" "icache_ok s"
  shows "case (ino_entry s dev inum, List.find (\<lambda>i. i_ref (ic s i) = 0) [0..<NINODE]) of
      (None, None) \<Rightarrow> iget dev inum s = Panic ''iget: no inodes''
    | (e, f) \<Rightarrow> \<exists>i t u. iget dev inum s = Ret i t \<and> i = (case e of Some j \<Rightarrow> j | None \<Rightarrow> the f) \<and> icache_ok t \<and> k_held t = {} \<and>
        i_dev (ic t i) = dev \<and> i_inum (ic t i) = inum \<and> i_ref (ic t i) = (if e = None then 1 else i_ref (ic s i) + 1) \<and>
        (e = None \<longrightarrow> \<not> i_valid (ic t i)) \<and> (\<forall>j. j \<noteq> i \<longrightarrow> ic t j = ic s j) \<and> iget dev inum t = Ret i u"
proof -
  have again: "\<exists>u. iget dev inum t = Ret i u" if "icache_ok t" "k_held t = {}" "i < NINODE" "i_ref (ic t i) > 0"
    "i_dev (ic t i) = dev" "i_inum (ic t i) = inum" for t i
    using ino_entry_unique [OF that(1,3,4)] that(2,5,6) by (auto simp: iget_def kop_simps ino_entry_def)
  show ?thesis
  proof (cases "ino_entry s dev inum")
    case (Some i)
    then have i: "i < NINODE" "i_ref (ic s i) > 0" "i_dev (ic s i) = dev" "i_inum (ic s i) = inum" by (auto simp: ino_entry_def find_upt_Some)
    define t where "t = upd_ino i (\<lambda>ip. ip\<lparr>i_ref := i_ref ip + 1\<rparr>) s"
    have ok: "icache_ok t" unfolding t_def
    proof (rule icache_upd [OF assms(2) i(1)])
      fix j assume "j < NINODE" "j \<noteq> i" "i_ref (ic s j) > 0"
      then show "i_dev (ic s j) \<noteq> i_dev ((ic s i)\<lparr>i_ref := i_ref (ic s i) + 1\<rparr>) \<or> i_inum (ic s j) \<noteq> i_inum ((ic s i)\<lparr>i_ref := i_ref (ic s i) + 1\<rparr>)"
        using assms(2) i(1,2) by (auto simp: icache_ok_def)
    qed (use assms(2) i in \<open>auto simp: icache_ok_def\<close>)
    have "iget dev inum s = Ret i t"
      using Some assms(1) upd_locked [OF assms(1)] by (simp add: iget_def seqK_acquire ino_entry_def t_def)
    then show ?thesis using Some ok again [OF ok, of i] i assms(1) by (auto simp: t_def upd_ino_def)
  next
    case None
    then have no: "\<And>j. j < NINODE \<Longrightarrow> i_ref (ic s j) > 0 \<Longrightarrow> i_dev (ic s j) \<noteq> dev \<or> i_inum (ic s j) \<noteq> inum"
      by (auto simp: ino_entry_def find_upt_None)
    show ?thesis
    proof (cases "List.find (\<lambda>i. i_ref (ic s i) = 0) [0..<NINODE]")
      case e: None
      then show ?thesis using None assms(1) by (simp add: iget_def kop_simps ino_entry_def)
    next
      case e: (Some i)
      then have i: "i < NINODE" by (auto simp: find_upt_Some)
      define t where "t = upd_ino i (\<lambda>ip. ip\<lparr>i_dev := dev, i_inum := inum, i_ref := 1, i_valid := False\<rparr>) s"
      have ok: "icache_ok t" unfolding t_def
        by (rule icache_upd [OF assms(2) i]) (use assms(2) i no in \<open>auto simp: icache_ok_def\<close>)
      have "iget dev inum s = Ret i t"
        using None e assms(1) upd_locked [OF assms(1)] by (simp add: iget_def seqK_acquire ino_entry_def t_def)
      then show ?thesis using None e ok again [OF ok, of i] i assms(1) by (auto simp: t_def upd_ino_def)
    qed
  qed
qed

theorem iget_one_entry_witness:
  "\<exists>t u. iget 1 7 (sample_state []) = Ret 0 t \<and> iget 1 7 t = Ret 0 u"
proof -
  have "icache_ok (sample_state [])" by (simp add: icache_ok_def no_inode_def)
  moreover have "ino_entry (sample_state []) 1 7 = None" by (simp add: ino_entry_def find_upt_None no_inode_def)
  moreover have "List.find (\<lambda>i. i_ref (ic (sample_state []) i) = 0) [0..<NINODE] = Some 0" by (simp add: find_upt_Some no_inode_def)
  ultimately show ?thesis using iget_one_entry [of "sample_state []" 1 7] by auto
qed

end
