(* ===== verification/Fs_Inode.thy ===== *)
theory Fs_Inode
  imports Fs_Alloc
begin

text \<open>
  Inodes on the disk: what \<^verbatim>\<open>iupdate\<close> writes in a transaction is what \<^verbatim>\<open>ilock\<close> reads into a cache entry later, and the other
  inodes of the block keep their contents.
\<close>

text \<open>The inode \<open>n\<close> on a disk with the blocks \<open>v\<close>.\<close>

definition disk_inode :: "(uint \<Rightarrow> stream) \<Rightarrow> superblock \<Rightarrow> uint \<Rightarrow> dinode" where
  "disk_inode v sb n = get_dinode (v (IBLOCK n sb)) (unat n mod IPB)"

lemma same_block_slot:
  assumes "IBLOCK n sb = IBLOCK m sb" "unat n mod IPB = unat m mod IPB"
  shows "n = m"
proof -
  have "unat (n div 8) = unat (m div 8)" using assms(1) by (simp add: IBLOCK_def)
  then have "unat n div 8 = unat m div 8" by (simp add: unat_div)
  then have "unat n = unat m" using assms(2) by (metis div_mult_mod_eq)
  then show ?thesis by (simp only: word_unat_eq_iff)
qed

lemma disk_inode_put:
  assumes "length (d_addrs x) = NDIRECT + 3"
  shows "disk_inode (v(IBLOCK m sb := put_dinode (v (IBLOCK m sb)) (unat m mod IPB) x)) sb n = (if n = m then x else disk_inode v sb n)"
  using assms same_block_slot [of n sb m] by (auto simp: disk_inode_def get_dinode_put_dinode intro!: get_dinode_put_other)

lemma iupdate_writes:
  assumes inv: "log_inv {} s" and o: "lg_outstanding s \<ge> 1" and room: "lg_n s < LOGSIZE - 1" and dev: "i_dev (ic s ip) = 1"
    and b: "IBLOCK (i_inum (ic s ip)) (fs_sb s) < dk_size s" "unat (IBLOCK (i_inum (ic s ip)) (fs_sb s)) \<notin> log_region (lg_start s)"
  shows "\<exists>t. iupdate ip s = Ret () t \<and> txn_write s (IBLOCK (i_inum (ic s ip)) (fs_sb s))
    (put_dinode (blk s (IBLOCK (i_inum (ic s ip)) (fs_sb s))) (unat (i_inum (ic s ip)) mod IPB) (dinode_of (ic s ip))) t"
proof -
  let ?f = "\<lambda>d. put_dinode d (unat (i_inum (ic s ip)) mod IPB) (dinode_of (ic s ip))"
  from log_change_block [OF inv o room b, of ?f] obtain bp s1 t where
    t: "bread 1 (IBLOCK (i_inum (ic s ip)) (fs_sb s)) s = Ret bp s1" "bread_post {} s (IBLOCK (i_inum (ic s ip)) (fs_sb s)) bp s1"
      "log_change bp ?f s1 = Ret () t" "txn_write s (IBLOCK (i_inum (ic s ip)) (fs_sb s)) (?f (blk s (IBLOCK (i_inum (ic s ip)) (fs_sb s)))) t"
    by blast
  have "ic s1 = ic s" using t(2) by (auto simp: bread_post_def intro: frame_ic)
  then have "iupdate ip s = Ret () t" using t(1,3) dev by (simp add: iupdate_def kop_simps)
  then show ?thesis using t(4) by blast
qed

text \<open>A change of the inode cache leaves the buffer cache alone.\<close>

lemma upd_ino_cache:
  "bc_inv H (upd_ino i f s) = bc_inv H s" "blk (upd_ino i f s) = blk s" "synced (upd_ino i f s) b = synced s b"
  "dirty_bufs (upd_ino i f s) = dirty_bufs s"
  by (simp_all add: upd_ino_def bc_inv_def blk_def cached_def synced_def dirty_bufs_def fun_eq_iff split: option.split)

lemma ilock_reads:
  assumes r: "readable s jp" and b: "IBLOCK (i_inum (ic s jp)) (fs_sb s) < dk_size s" and nv: "\<not> i_valid (ic s jp)"
    and ty: "d_type (disk_inode (blk s) (fs_sb s) (i_inum (ic s jp))) \<noteq> 0"
  shows "\<exists>t. ilock_read jp s = Ret () t \<and> i_valid (ic t jp) \<and> dinode_of (ic t jp) = disk_inode (blk s) (fs_sb s) (i_inum (ic s jp)) \<and>
    blk t = blk s"
proof -
  define n where "n = IBLOCK (i_inum (ic s jp)) (fs_sb s)"
  define f where "f = load_dinode (get_dinode (blk s n) (unat (i_inum (ic s jp)) mod IPB))"
  have inv: "bc_inv {} s" "card (dirty_bufs s) < NBUF" "i_dev (ic s jp) = 1" using r by (simp_all add: readable_def)
  obtain b s1 where b: "bread 1 n s = Ret b s1" "bread_post {} s n b s1"
    using bread_spec [OF inv(1), of n] b inv(2) unfolding n_def [symmetric] by auto
  have p: "bc_inv {b} s1" "b_data (bc_bufs s1 b) = blk s n" "blk s1 = blk s" "bio_frame s s1" "synced s1 b"
    using b(2) by (auto simp: bread_post_def synced_def)
  have ic1: "ic s1 = ic s" by (rule frame_ic(1) [OF p(4)])
  define s2 where "s2 = upd_ino jp f s1"
  have s2: "bc_inv {b} s2" "blk s2 = blk s" "synced s2 b" using p by (simp_all add: s2_def upd_ino_cache)
  obtain t where t: "brelse b s2 = Ret () t" "brelse_post {b} s2 b t" using brelse_synced [OF s2(1) _ s2(3)] by auto
  have bt: "blk t = blk s" "ic t = ic s2" using t(2) s2(2) by (auto simp: brelse_post_def intro: frame_ic)
  have it: "ic t jp = f (ic s jp)" using bt(2) ic1 by (simp add: s2_def)
  let ?t = "upd_ino jp (\<lambda>i. i\<lparr>i_valid := True\<rparr>) t"
  have "i_type (ic ?t jp) \<noteq> 0" using ty it by (simp add: f_def load_dinode_def disk_inode_def n_def)
  moreover have "ilock_read jp s = (if i_type (ic ?t jp) = 0 then Panic ''ilock: no type'' else Ret () ?t)"
    using nv b(1) t(1) p(2) ic1 inv(3) by (simp add: ilock_read_def kop_simps n_def [symmetric] buf_data_def s2_def f_def)
  moreover have "dinode_of (ic ?t jp) = disk_inode (blk s) (fs_sb s) (i_inum (ic s jp))"
    using it by (simp add: f_def load_dinode_def dinode_of_def disk_inode_def n_def)
  ultimately show ?thesis using bt(1) by (simp add: upd_ino_cache)
qed

text \<open>
  C21. \<^verbatim>\<open>iupdate\<close> and \<^verbatim>\<open>ilock\<close>: the inode that \<^verbatim>\<open>iupdate\<close> writes in a transaction is what \<^verbatim>\<open>ilock\<close> later reads into any cache entry for
  that inode that is not valid, with type, device numbers, links, size and all block addresses. \<^verbatim>\<open>iupdate\<close> changes no other inode of the disk, not
  those of the same block either, and the disk itself changes only at the commit.
\<close>

theorem iupdate_ilock_roundtrip:
  assumes inv: "log_inv {} s" and o: "lg_outstanding s \<ge> 1" and room: "lg_n s < LOGSIZE - 1"
    and x: "x = ic s ip" "i_dev x = 1" "length (i_addrs x) = NDIRECT + 3" "i_type x \<noteq> 0"
    and b: "IBLOCK (i_inum x) (fs_sb s) < dk_size s" "unat (IBLOCK (i_inum x) (fs_sb s)) \<notin> log_region (lg_start s)"
    and y: "i_dev y = 1" "i_inum y = i_inum x" "\<not> i_valid y"
  shows "\<exists>t u. iupdate ip s = Ret () t \<and> dk t = dk s \<and> ic t = ic s \<and>
    (\<forall>n. n \<noteq> i_inum x \<longrightarrow> disk_inode (blk t) (fs_sb s) n = disk_inode (blk s) (fs_sb s) n) \<and>
    ilock_read jp (upd_ino jp (\<lambda>_. y) t) = Ret () u \<and> i_valid (ic u jp) \<and> dinode_of (ic u jp) = dinode_of x"
proof -
  define n where "n = IBLOCK (i_inum x) (fs_sb s)"
  from iupdate_writes [OF inv o room x(2) [unfolded x(1)] b [unfolded x(1)]] obtain t where
    t: "iupdate ip s = Ret () t" "txn_write s n (put_dinode (blk s n) (unat (i_inum x) mod IPB) (dinode_of x)) t"
    by (auto simp: n_def x(1))
  have w: "log_inv {} t" "blk t = (blk s)(n := put_dinode (blk s n) (unat (i_inum x) mod IPB) (dinode_of x))" "dk t = dk s"
    "txn_frame s t" "lg_n t \<le> lg_n s + 1" using t(2) by (simp_all add: txn_write_def)
  have f: "ic t = ic s" "fs_sb t = fs_sb s" "dk_size t = dk_size s"
    using txn_frame_ic [OF w(4)] frame_sb [OF w(4)] w(4) by (simp_all add: txn_frame_def)
  have di: "disk_inode (blk t) (fs_sb s) m = (if m = i_inum x then dinode_of x else disk_inode (blk s) (fs_sb s) m)" for m
    unfolding w(2) n_def by (rule disk_inode_put) (simp add: dinode_of_def x(3))
  define v where "v = upd_ino jp (\<lambda>_. y) t"
  have v: "ic v jp = y" "fs_sb v = fs_sb s" "dk_size v = dk_size s" "blk v = blk t"
    by (simp_all add: v_def f upd_ino_cache) (simp_all add: upd_ino_def f)
  have "nat (lg_n t) < NBUF" using room w(5) by simp
  then have "card (dirty_bufs t) < NBUF" using log_inv_room(1) [OF w(1)] by linarith
  then have "readable v jp" using log_inv_room(2) [OF w(1)] v(1) y(1) by (simp add: readable_def v_def upd_ino_cache)
  then obtain u where "ilock_read jp v = Ret () u" "i_valid (ic u jp)" "dinode_of (ic u jp) = disk_inode (blk t) (fs_sb s) (i_inum x)"
    using ilock_reads [of v jp] v y b(1) di x(4) by (auto simp: dinode_of_def)
  then show ?thesis using t(1) w(3) f(1) di unfolding v_def by auto
qed

definition inode_state :: consst where
  "inode_state = file_state\<lparr>fs_sb := (get_superblock (\<lambda>_. 0))\<lparr>sb_size := 1000, sb_inodestart := 40, sb_bmapstart := 58\<rparr>\<rparr>"

theorem iupdate_ilock_roundtrip_witness:
  "\<exists>t u. iupdate 0 inode_state = Ret () t \<and> ilock_read 7 (upd_ino 7 (\<lambda>_. no_inode\<lparr>i_dev := 1\<rparr>) t) = Ret () u \<and>
     i_valid (ic u 7) \<and> i_size (ic u 7) = 1024"
proof -
  have i: "ic inode_state 0 = no_inode\<lparr>i_dev := 1, i_type := 2, i_size := 1024, i_addrs := [200, 201, 0, 0, 0, 0, 0, 0, 0, 0, 0, 0, 0]\<rparr>"
    "lg_outstanding inode_state = 1" "dk_size inode_state = 1000" "lg_start inode_state = 2" "lg_n inode_state = 1"
    "fs_sb inode_state = (get_superblock (\<lambda>_. 0))\<lparr>sb_size := 1000, sb_inodestart := 40, sb_bmapstart := 58\<rparr>"
    by (simp_all add: inode_state_def file_state_def sample_defs)
  have "bc_inv {} inode_state" by (auto simp: bc_inv_def inode_state_def file_state_def sample_defs)
  moreover have "dirty_blocks inode_state = {100}" by (auto simp: dirty_blocks_def dirty_bufs_def inode_state_def file_state_def sample_defs)
  moreover have "log_geom inode_state" by (simp add: log_geom_def log_region_def inj_on_def inode_state_def file_state_def sample_defs)
  ultimately have "log_inv {} inode_state"
    by (simp add: log_inv_def inode_state_def file_state_def sample_defs get32_def join32_def lessThan_Suc)
  then show ?thesis
    using iupdate_ilock_roundtrip [of inode_state "ic inode_state 0" 0 "no_inode\<lparr>i_dev := 1\<rparr>" 7]
    by (auto simp: i no_inode_def IBLOCK_def log_region_def dinode_of_def)
qed

end
