(* ===== verification/User_Lib.thy ===== *)
theory User_Lib
  imports Xv6_Prelude
begin

text \<open>
  The C library of the user programs: the string routines of \<^verbatim>\<open>ulib.c\<close>. A C string is the list of its
  characters without the terminating NUL; a pointer into a buffer is the list of the characters from there on, which may hold
  a NUL. Bytes are compared as \<^verbatim>\<open>uchar\<close> where the code casts them.
\<close>

section \<open>Characters\<close>

abbreviation (input) NUL :: char where "NUL \<equiv> CHR 0x00"
abbreviation (input) NL :: char where "NL \<equiv> CHR 0x0A"
abbreviation (input) CR :: char where "CR \<equiv> CHR 0x0D"

abbreviation (input) code :: "char \<Rightarrow> int" where "code c \<equiv> of_char c"

section \<open>The routines\<close>

fun ulib_strcmp :: "string \<Rightarrow> string \<Rightarrow> int" where
  "ulib_strcmp [] [] = 0"
| "ulib_strcmp [] (d # q) = - code d"
| "ulib_strcmp (c # p) [] = code c"
| "ulib_strcmp (c # p) (d # q) = (if c = d then ulib_strcmp p q else code c - code d)"

fun ulib_strlen :: "string \<Rightarrow> nat" where
  "ulib_strlen [] = 0"
| "ulib_strlen (c # s) = (if c = NUL then 0 else Suc (ulib_strlen s))"

fun ulib_strcpy :: "string \<Rightarrow> string" where
  "ulib_strcpy [] = [NUL]"
| "ulib_strcpy (c # t) = (if c = NUL then [NUL] else c # ulib_strcpy t)"

fun strchr :: "string \<Rightarrow> char \<Rightarrow> string option" where
  "strchr [] c = None"
| "strchr (x # s) c = (if x = NUL then None else if x = c then Some (x # s) else strchr s c)"

text \<open>\<^verbatim>\<open>gets\<close>: the characters that one-byte reads of the input deliver, up to the size of the buffer; the rest of the input
  stays unread.\<close>

fun gets_loop :: "nat \<Rightarrow> string \<Rightarrow> string \<times> string" where
  "gets_loop 0 inp = ([], inp)"
| "gets_loop (Suc k) [] = ([], [])"
| "gets_loop (Suc k) (c # inp) =
     (if c = NL \<or> c = CR then ([c], inp) else let (b, rest) = gets_loop k inp in (c # b, rest))"

definition gets :: "nat \<Rightarrow> string \<Rightarrow> string \<times> string" where
  "gets m inp = gets_loop (m - 1) inp"

fun atoi_from :: "int \<Rightarrow> string \<Rightarrow> int" where
  "atoi_from n [] = n"
| "atoi_from n (c # s) =
     (if code CHR ''0'' \<le> code c \<and> code c \<le> code CHR ''9'' then atoi_from (wrap_int (n * 10 + code c - code CHR ''0'')) s else n)"

definition atoi :: "string \<Rightarrow> int" where
  "atoi s = atoi_from 0 s"

section \<open>What they compute\<close>

lemma ulib_strcmp_zero: "ulib_strcmp p q = 0 \<longleftrightarrow> p = q" if "NUL \<notin> set p" "NUL \<notin> set q"
proof -
  have nz: "code c \<noteq> 0" if "c \<noteq> NUL" for c
  proof
    assume "code c = 0"
    then have "code c = code NUL" by simp
    then show False using that by (simp only: of_char_eq_iff)
  qed
  show ?thesis using that by (induction p q rule: ulib_strcmp.induct) (auto simp: nz)
qed

lemma strchr_None: "strchr s c = None \<longleftrightarrow> c \<notin> set (takeWhile (\<lambda>x. x \<noteq> NUL) s)"
  by (induction s) auto

lemma strchr_Some: "strchr s c = Some q \<Longrightarrow> s = takeWhile (\<lambda>x. x \<noteq> c) s @ q \<and> hd q = c \<and> q \<noteq> []"
  by (induction s) (auto split: if_splits)

lemma strchr_no_NUL: "NUL \<notin> set s \<Longrightarrow> strchr s c = (if c \<in> set s then Some (dropWhile (\<lambda>x. x \<noteq> c) s) else None)"
  by (induction s) auto

lemma gets_loop_line:
  "gets_loop k (u @ [NL] @ rest) = (u @ [NL], rest)" if "length u < k" "NL \<notin> set u" "CR \<notin> set u"
  using that by (induction u arbitrary: k) (auto simp: gr0_conv_Suc less_Suc_eq_0_disj Suc_less_eq2)

end
