(* ===== verification/Grep.thy ===== *)
theory Grep
  imports User_Lib
begin

text \<open>
  The \<^verbatim>\<open>grep\<close> program (\<^verbatim>\<open>grep.c\<close>): the regular expression matcher and the loop that cuts the input into lines. The
  specification reads a pattern as a sequence of items with a language each, and the input as a sequence of lines.
\<close>

section \<open>The program\<close>

function matchhere :: "string \<Rightarrow> string \<Rightarrow> bool" and matchstar :: "char \<Rightarrow> string \<Rightarrow> string \<Rightarrow> bool" where
  "matchhere [] text = True"
| "matchhere (c # re) text =
     (if re \<noteq> [] \<and> hd re = CHR ''*'' then matchstar c (tl re) text
      else if c = CHR ''$'' \<and> re = [] then text = []
      else (case text of [] \<Rightarrow> False | x # rest \<Rightarrow> (c = CHR ''.'' \<or> c = x) \<and> matchhere re rest))"
| "matchstar c re text =
     (matchhere re text \<or> (case text of [] \<Rightarrow> False | x # rest \<Rightarrow> (x = c \<or> c = CHR ''.'') \<and> matchstar c re rest))"
  by pat_completeness auto
termination
  by (relation "measures [\<lambda>z. case z of Inl (re, t) \<Rightarrow> length re | Inr (c, re, t) \<Rightarrow> length re,
      \<lambda>z. case z of Inl (re, t) \<Rightarrow> length t | Inr (c, re, t) \<Rightarrow> length t,
      \<lambda>z. case z of Inl _ \<Rightarrow> 0 | Inr _ \<Rightarrow> 1]") auto

declare matchstar.simps [simp del]

text \<open>The loop of \<^verbatim>\<open>match\<close> looks at every suffix of the text, the empty one included.\<close>

fun match_from :: "string \<Rightarrow> string \<Rightarrow> bool" where
  "match_from re [] = matchhere re []"
| "match_from re (x # text) = (matchhere re (x # text) \<or> match_from re text)"

definition grep_match :: "string \<Rightarrow> string \<Rightarrow> bool" where
  "grep_match re text = (if re \<noteq> [] \<and> hd re = CHR ''^'' then matchhere (tl re) text else match_from re text)"

text \<open>The inner loop of \<^verbatim>\<open>grep\<close>: from \<^verbatim>\<open>p\<close> on, write the lines that match; the result is the output and the final \<^verbatim>\<open>p\<close>.\<close>

function grep_lines :: "string \<Rightarrow> string \<Rightarrow> string \<times> string" where
  "grep_lines pattern p =
     (case strchr p NL of
        None \<Rightarrow> ([], p)
      | Some q \<Rightarrow>
          let line = take (length p - length q) p; (out, rest) = grep_lines pattern (tl q) in
          ((if grep_match pattern line then line @ [NL] else []) @ out, rest))"
  by pat_completeness auto
termination
proof (relation "measure (length \<circ> snd)", goal_cases)
  case (2 pattern p q line)
  then have "p = takeWhile (\<lambda>x. x \<noteq> NL) p @ q" "q \<noteq> []" using strchr_Some by blast+
  then have "length (tl q) < length p" by (metis length_append length_tl less_add_same_cancel2 diff_less length_greater_0_conv zero_less_one trans_less_add2)
  then show ?case by simp
qed simp

declare grep_lines.simps [simp del]

text \<open>
  The outer loop. \<open>buf\<close> holds the \<^verbatim>\<open>m\<close> bytes kept; a read asks for \<^verbatim>\<open>sizeof(buf)-m-1\<close> bytes and gets at most the number that
  the list \<open>sizes\<close> gives for it, which is how a pipe or the console can return less than there is to come.
\<close>

fun grep :: "string \<Rightarrow> string \<Rightarrow> nat list \<Rightarrow> string \<Rightarrow> string" where
  "grep pattern buf [] input = []"
| "grep pattern buf (n # sizes) input =
     (let got = take (min n (1024 - length buf - 1)) input in
      if got = [] then []
      else let (out, p) = grep_lines pattern (buf @ got);
               kept = (if p = buf @ got then [] else p) in
           out @ grep pattern kept sizes (drop (length got) input))"

section \<open>Patterns as languages\<close>

datatype item = One char | Star char

definition accepts :: "char \<Rightarrow> char \<Rightarrow> bool" where
  "accepts c x \<longleftrightarrow> c = CHR ''.'' \<or> c = x"

fun item_words :: "item \<Rightarrow> string set" where
  "item_words (One c) = {[x] |x. accepts c x}"
| "item_words (Star c) = {xs. \<forall>x\<in>set xs. accepts c x}"

fun seq_words :: "item list \<Rightarrow> string set" where
  "seq_words [] = {[]}"
| "seq_words (i # is) = {u @ v |u v. u \<in> item_words i \<and> v \<in> seq_words is}"

text \<open>The items of a pattern without its \<^verbatim>\<open>^\<close>, and whether it ends with the anchor \<^verbatim>\<open>$\<close>.\<close>

fun items :: "string \<Rightarrow> item list \<times> bool" where
  "items [] = ([], False)"
| "items [c] = (if c = CHR ''$'' then ([], True) else ([One c], False))"
| "items (c # d # re) =
     (if d = CHR ''*'' then let (is, e) = items re in (Star c # is, e)
      else let (is, e) = items (d # re) in (One c # is, e))"

definition prefix_words :: "string \<Rightarrow> string \<Rightarrow> bool" where
  "prefix_words re text \<longleftrightarrow> (\<exists>u v. text = u @ v \<and> u \<in> seq_words (fst (items re)) \<and> (snd (items re) \<longrightarrow> v = []))"

definition pattern_occurs :: "string \<Rightarrow> string \<Rightarrow> bool" where
  "pattern_occurs re text \<longleftrightarrow>
     (if re \<noteq> [] \<and> hd re = CHR ''^'' then prefix_words (tl re) text else \<exists>u v. text = u @ v \<and> prefix_words re v)"

section \<open>The matcher decides the language\<close>

lemma prefix_words_Nil [simp]: "prefix_words [] text"
  by (simp add: prefix_words_def)

lemma prefix_words_end: "prefix_words [CHR ''$''] text \<longleftrightarrow> text = []"
  by (auto simp: prefix_words_def)

lemma seq_One: "w \<in> seq_words (One c # is) \<longleftrightarrow> (\<exists>x v. w = x # v \<and> accepts c x \<and> v \<in> seq_words is)"
  by auto (metis append_Cons append_Nil)

lemma prefix_words_One:
  assumes "fst (items re) = One c # fst (items re')" "snd (items re) = snd (items re')"
  shows "prefix_words re text \<longleftrightarrow> (\<exists>x rest. text = x # rest \<and> accepts c x \<and> prefix_words re' rest)"
  unfolding prefix_words_def assms seq_One by (auto simp: Cons_eq_append_conv) blast+

lemma prefix_words_Star:
  "prefix_words (c # CHR ''*'' # re) text \<longleftrightarrow> (\<exists>u v. text = u @ v \<and> (\<forall>x\<in>set u. accepts c x) \<and> prefix_words re v)"
  (is "?l = ?r")
proof
  assume ?l
  then obtain u v where "text = u @ v" "u \<in> seq_words (Star c # fst (items re))" "snd (items re) \<longrightarrow> v = []"
    by (auto simp: prefix_words_def split: prod.splits)
  then obtain u1 u2 where "text = u1 @ u2 @ v" "\<forall>x\<in>set u1. accepts c x" "u2 \<in> seq_words (fst (items re))" "snd (items re) \<longrightarrow> v = []"
    by auto
  then show ?r unfolding prefix_words_def by blast
next
  assume ?r
  then obtain u v w where "text = u @ v @ w" "\<forall>x\<in>set u. accepts c x" "v \<in> seq_words (fst (items re))" "snd (items re) \<longrightarrow> w = []"
    by (auto simp: prefix_words_def)
  moreover from this have "u @ v \<in> seq_words (Star c # fst (items re))" by auto
  ultimately have "text = (u @ v) @ w \<and> u @ v \<in> seq_words (fst (items (c # CHR ''*'' # re))) \<and> (snd (items (c # CHR ''*'' # re)) \<longrightarrow> w = [])"
    by (cases "items re") simp
  then show ?l unfolding prefix_words_def by blast
qed

lemma star_step:
  "(\<exists>u v. text = u @ v \<and> (\<forall>x\<in>set u. P x) \<and> Q v) \<longleftrightarrow>
     Q text \<or> (case text of [] \<Rightarrow> False | x # rest \<Rightarrow> P x \<and> (\<exists>u v. rest = u @ v \<and> (\<forall>x\<in>set u. P x) \<and> Q v))"
proof (cases "text")
  case (Cons x rest)
  show ?thesis unfolding Cons list.case
  proof (intro iffI; elim exE conjE disjE)
    fix u v assume *: "x # rest = u @ v" "\<forall>y\<in>set u. P y" "Q v"
    show "Q (x # rest) \<or> P x \<and> (\<exists>u v. rest = u @ v \<and> (\<forall>x\<in>set u. P x) \<and> Q v)"
      using * by (cases u) auto
  next
    assume "Q (x # rest)"
    then show "\<exists>u v. x # rest = u @ v \<and> (\<forall>x\<in>set u. P x) \<and> Q v" by (intro exI[of _ "[]"] exI[of _ "x # rest"]) simp
  next
    fix u v assume "P x" "rest = u @ v" "\<forall>y\<in>set u. P y" "Q v"
    then show "\<exists>u v. x # rest = u @ v \<and> (\<forall>x\<in>set u. P x) \<and> Q v" by (intro exI[of _ "x # u"] exI[of _ v]) simp
  qed
qed simp

lemma matchhere_words:
  shows "matchhere re text \<longleftrightarrow> prefix_words re text"
    and "matchstar c re text \<longleftrightarrow> (\<exists>u v. text = u @ v \<and> (\<forall>x\<in>set u. accepts c x) \<and> prefix_words re v)"
proof (induction re "text" and c re "text" rule: matchhere_matchstar.induct)
  case (2 c re t)
  show ?case
  proof (cases re)
    case Nil
    then show ?thesis using 2(2) by (cases "c = CHR ''$''")
        (auto simp: prefix_words_end prefix_words_One[of "[c]" c "[]"] accepts_def split: list.splits)
  next
    case (Cons d re')
    show ?thesis
    proof (cases "d = CHR ''*''")
      case True
      then show ?thesis using 2(1) Cons by (simp add: prefix_words_Star)
    next
      case False
      then have "prefix_words (c # re) t \<longleftrightarrow> (\<exists>x rest. t = x # rest \<and> accepts c x \<and> prefix_words re rest)"
        using Cons by (intro prefix_words_One) (auto split: prod.splits)
      then show ?thesis using 2(2) Cons False by (auto simp: accepts_def split: list.splits)
    qed
  qed
next
  case (3 c re t)
  show ?case unfolding matchstar.simps[of c re t] star_step[of t]
    using 3 by (auto simp: accepts_def split: list.splits)
qed simp

lemma match_from_words: "match_from re text \<longleftrightarrow> (\<exists>u v. text = u @ v \<and> prefix_words re v)"
proof (induction re "text" rule: match_from.induct)
  case (2 re x rest)
  then show ?case using star_step[of "x # rest" "\<lambda>_. True" "prefix_words re"] by (simp add: matchhere_words)
qed (simp add: matchhere_words)

lemma grep_match_words: "grep_match re text \<longleftrightarrow> pattern_occurs re text"
  by (simp add: grep_match_def pattern_occurs_def matchhere_words match_from_words)

section \<open>Lines\<close>

function complete_lines :: "string \<Rightarrow> string list" where
  "complete_lines s =
     (if NL \<in> set s then takeWhile (\<lambda>x. x \<noteq> NL) s # complete_lines (tl (dropWhile (\<lambda>x. x \<noteq> NL) s)) else [])"
  by pat_completeness auto
termination
proof (relation "measure length", goal_cases)
  case (2 s)
  then have "dropWhile (\<lambda>x. x \<noteq> NL) s \<noteq> []" by simp
  then have "length (tl (dropWhile (\<lambda>x. x \<noteq> NL) s)) < length (dropWhile (\<lambda>x. x \<noteq> NL) s)" by (simp only: length_tl) simp
  then show ?case using length_dropWhile_le[of "\<lambda>x. x \<noteq> NL" s] by simp
qed simp

declare complete_lines.simps [simp del]

lemma complete_lines_none: "NL \<notin> set s \<Longrightarrow> complete_lines s = []"
  by (simp add: complete_lines.simps)

lemma complete_lines_line: "NL \<notin> set u \<Longrightarrow> complete_lines (u @ NL # v) = u # complete_lines v"
  by (subst complete_lines.simps) (simp add: takeWhile_tail dropWhile_append)

lemma cut_line: "NL \<in> set s \<Longrightarrow> \<exists>u v. s = u @ NL # v \<and> NL \<notin> set u"
  using split_list_first[of NL s] by blast

definition printed :: "string \<Rightarrow> string list \<Rightarrow> string" where
  "printed pattern ls = concat (map (\<lambda>l. l @ [NL]) (filter (pattern_occurs pattern) ls))"

lemma printed_simps [simp]:
  "printed pattern [] = []"
  "printed pattern (l # ls) = (if pattern_occurs pattern l then l @ [NL] else []) @ printed pattern ls"
  "printed pattern (ls @ ls') = printed pattern ls @ printed pattern ls'"
  by (simp_all add: printed_def)

lemma grep_lines_line:
  assumes "NL \<notin> set u" "NUL \<notin> set u"
  shows "grep_lines pattern (u @ NL # v) =
    (let (out, rest) = grep_lines pattern v in ((if pattern_occurs pattern u then u @ [NL] else []) @ out, rest))"
proof -
  have "strchr (u @ NL # v) NL = Some (NL # v)" using assms by (induction u) auto
  then show ?thesis by (subst grep_lines.simps) (simp add: grep_match_words)
qed

text \<open>The inner loop prints the matching lines and stops at the part after the last line.\<close>

lemma grep_lines_printed:
  assumes "NUL \<notin> set p"
  shows "\<exists>rest. grep_lines pattern p = (printed pattern (complete_lines p), rest) \<and> NL \<notin> set rest \<and> set rest \<subseteq> set p \<and>
    (if NL \<in> set p then length rest < length p else rest = p) \<and>
    (\<forall>w. complete_lines (p @ w) = complete_lines p @ complete_lines (rest @ w))"
  using assms
proof (induction "length p" arbitrary: p rule: less_induct)
  case less
  show ?case
  proof (cases "NL \<in> set p")
    case False
    then have "grep_lines pattern p = ([], p)" using less.prems by (subst grep_lines.simps) (simp add: strchr_no_NUL)
    then show ?thesis using False by (simp add: complete_lines_none)
  next
    case True
    then obtain u v where p: "p = u @ NL # v" "NL \<notin> set u" using cut_line by blast
    have "length v < length p" "NUL \<notin> set v" "NUL \<notin> set u" using p less.prems by auto
    then obtain rest where r: "grep_lines pattern v = (printed pattern (complete_lines v), rest)" "NL \<notin> set rest" "set rest \<subseteq> set v"
      "length rest \<le> length v" "\<forall>w. complete_lines (v @ w) = complete_lines v @ complete_lines (rest @ w)"
      using less.hyps[of v] by (auto split: if_splits)
    have "length rest < length p" using r(4) p by auto
    moreover have "complete_lines (p @ w) = complete_lines p @ complete_lines (rest @ w)" for w
      using r(5) p by (simp add: complete_lines_line)
    ultimately show ?thesis using r p True \<open>NUL \<notin> set u\<close> grep_lines_line[OF p(2), of pattern v]
      by (auto simp: complete_lines_line)
  qed
qed

lemma grep_full_reads:
  assumes "NUL \<notin> set buf" "NUL \<notin> set input" "NL \<notin> set buf" "length buf < 1023" "length input < length sizes"
    and "\<forall>n\<in>set sizes. 1023 \<le> n" "\<forall>l\<in>set (complete_lines (buf @ input)). length l < 1023"
  shows "grep pattern buf sizes input = printed pattern (complete_lines (buf @ input))"
  using assms
proof (induction sizes arbitrary: buf input)
  case (Cons n sizes)
  let ?got = "take (1024 - length buf - 1) input"
  let ?later = "drop (1024 - length buf - 1) input"
  have n: "min n (1024 - length buf - 1) = 1024 - length buf - 1" using Cons.prems(6) by auto
  show ?case
  proof (cases "input = []")
    case True
    then show ?thesis using Cons.prems by (simp add: complete_lines_none)
  next
    case False
    then have got: "?got \<noteq> []" using Cons.prems by auto
    have later: "drop (length ?got) input = ?later" by (cases "length input \<le> 1024 - length buf - 1") auto
    have all: "buf @ input = (buf @ ?got) @ ?later" by simp
    have nul: "NUL \<notin> set (buf @ ?got)" "NUL \<notin> set ?later" using Cons.prems by (auto dest: in_set_takeD in_set_dropD)
    obtain rest where r: "grep_lines pattern (buf @ ?got) = (printed pattern (complete_lines (buf @ ?got)), rest)" "NL \<notin> set rest"
      "set rest \<subseteq> set (buf @ ?got)" "if NL \<in> set (buf @ ?got) then length rest < length (buf @ ?got) else rest = buf @ ?got"
      "complete_lines (buf @ input) = complete_lines (buf @ ?got) @ complete_lines (rest @ ?later)"
      using grep_lines_printed[OF nul(1)] all by metis
    define kept where "kept = (if rest = buf @ ?got then [] else rest)"
    have step: "grep pattern buf (n # sizes) input = printed pattern (complete_lines (buf @ ?got)) @ grep pattern kept sizes ?later"
      unfolding grep.simps n later Let_def kept_def using got by (simp only: r(1) later split if_False)
    have shorter: "length ?later < length sizes" using Cons.prems(4,5) False by (cases input) auto
    have same: "complete_lines (kept @ ?later) = complete_lines (rest @ ?later)"
    proof (cases "rest = buf @ ?got")
      case True
      have "NL \<notin> set ?later"
      proof
        assume in_later: "NL \<in> set ?later"
        then obtain u v where uv: "?later = u @ NL # v" "NL \<notin> set u" using cut_line by blast
        have long: "length (buf @ ?got) = 1023" using in_later Cons.prems(4) by (cases "length input \<le> 1024 - length buf - 1") auto
        have "complete_lines (buf @ input) = ((buf @ ?got) @ u) # complete_lines v"
          unfolding all uv(1) using True r(2) uv(2) complete_lines_line[of "(buf @ ?got) @ u" v] by simp
        then have "length ((buf @ ?got) @ u) < 1023" using Cons.prems(7) by simp
        then show False using long by simp
      qed
      then have "NL \<notin> set (kept @ ?later)" "NL \<notin> set (rest @ ?later)" using r(2) unfolding set_append by (simp_all add: kept_def)
      then show ?thesis by (metis complete_lines_none)
    qed (simp add: kept_def)
    have "length (buf @ ?got) \<le> 1023" using Cons.prems(4) by simp
    then have "length kept < 1023" using r(4) by (auto simp: kept_def split: if_splits)
    moreover have "NUL \<notin> set kept" "NL \<notin> set kept" using r(2,3) nul(1) by (auto simp: kept_def)
    moreover have "\<forall>l\<in>set (complete_lines (kept @ ?later)). length l < 1023"
      using Cons.prems(7) unfolding r(5) same by simp
    moreover have "\<forall>n\<in>set sizes. 1023 \<le> n" using Cons.prems(6) by simp
    ultimately have "grep pattern kept sizes ?later = printed pattern (complete_lines (kept @ ?later))"
      using nul(2) shorter by (intro Cons.IH)
    then show ?thesis unfolding step r(5) same by simp
  qed
qed simp

section \<open>Properties\<close>

text \<open>
  C13. \<^verbatim>\<open>grep\<close> on a file: when every read gets the bytes it asks for and no line is longer than the buffer, the output is exactly the
  complete lines of the file in which the pattern occurs, in order, where the pattern is read as a language: \<^verbatim>\<open>.\<close> is any
  character, \<^verbatim>\<open>c*\<close> any number of them, \<^verbatim>\<open>^\<close> and \<^verbatim>\<open>$\<close> anchor the occurrence at the ends of the line.
\<close>

theorem grep_prints_matching_lines:
  assumes "NUL \<notin> set input" "length input < length sizes" "\<forall>n\<in>set sizes. 1023 \<le> n"
    and "\<forall>l\<in>set (complete_lines input). length l < 1023"
  shows "grep pattern [] sizes input = concat (map (\<lambda>l. l @ [NL]) (filter (pattern_occurs pattern) (complete_lines input)))"
  using grep_full_reads[of "[]" input sizes pattern] assms by (simp add: printed_def)

theorem grep_prints_matching_lines_witness:
  "grep ''a*b$'' [] (replicate 9 1023) (''xaab'' @ NL # ''bc'' @ [NL]) = ''xaab'' @ [NL]"
proof -
  have ls: "complete_lines (''xaab'' @ NL # ''bc'' @ [NL]) = [''xaab'', ''bc'']" by code_simp
  have "grep_match ''a*b$'' ''xaab''" "\<not> grep_match ''a*b$'' ''bc''" by code_simp+
  then have "pattern_occurs ''a*b$'' ''xaab''" "\<not> pattern_occurs ''a*b$'' ''bc''" by (simp_all add: grep_match_words)
  then show ?thesis
    using grep_prints_matching_lines[of "''xaab'' @ NL # ''bc'' @ [NL]" "replicate 9 1023" "''a*b$''"] unfolding ls by simp
qed

text \<open>
  A read that ends before the end of a line, as on a pipe, loses the characters read so far: with no newline in the buffer
  \<^verbatim>\<open>p == buf\<close>, and the code sets \<^verbatim>\<open>m\<close> to 0. Here the line \<^verbatim>\<open>ab\<close> arrives in two reads and a search for \<^verbatim>\<open>ab\<close> finds nothing.
\<close>

lemma grep_loses_short_reads:
  "grep ''ab'' [] [1, 1023, 1023] (''ab'' @ [NL]) = []"
  "grep ''ab'' [] [1023, 1023, 1023] (''ab'' @ [NL]) = ''ab'' @ [NL]"
  by code_simp+

end
