(* ===== verification/Sh.thy ===== *)
theory Sh
  imports User_Lib
begin

text \<open>
  The command parser of the shell (\<^verbatim>\<open>sh.c\<close>). The buffer is the list of its characters up to the terminating NUL, a pointer into
  it is a position, and a word of a command is the pair of positions \<^verbatim>\<open>(q, eq)\<close> that \<^verbatim>\<open>gettoken\<close> stores. The parsing
  functions pass the position on that the code keeps in \<^verbatim>\<open>*ps\<close>. \<^verbatim>\<open>panic\<close> of the shell ends the process with a message.
  The constructors of commands take their memory from \<^verbatim>\<open>malloc\<close>, whose null result the code does not check; the model has no
  failing allocation.
\<close>

section \<open>Commands\<close>

abbreviation (input) MAXARGS :: nat where "MAXARGS \<equiv> 10"

abbreviation (input) RD :: uint where "RD \<equiv> 0"
abbreviation (input) WR :: uint where "WR \<equiv> 0x201"

datatype 'w cmd =
    EXEC "'w list"
  | REDIR "'w cmd" 'w uint nat
  | PIPE "'w cmd" "'w cmd"
  | LIST "'w cmd" "'w cmd"
  | BACK "'w cmd"

type_synonym token = "nat \<times> nat"

text \<open>The result of a parsing function: a value and the new position, a panic, or no result within the fuel.\<close>

datatype 'a parse = Done 'a nat | Fail string | Fuel

section \<open>Tokens\<close>

definition whitespace :: string where
  "whitespace = [CHR '' '', CHR 0x09, CR, NL, CHR 0x0B]"

definition symbols :: string where
  "symbols = ''<|>&;()''"

definition is_space :: "char \<Rightarrow> bool" where
  "is_space c = (strchr whitespace c \<noteq> None)"

definition is_symbol :: "char \<Rightarrow> bool" where
  "is_symbol c = (strchr symbols c \<noteq> None)"

definition char_at :: "string \<Rightarrow> nat \<Rightarrow> char" where
  "char_at b i = (if i < length b then b ! i else NUL)"

function skip_space :: "string \<Rightarrow> nat \<Rightarrow> nat" where
  "skip_space b i = (if i < length b \<and> is_space (char_at b i) then skip_space b (Suc i) else i)"
  by pat_completeness auto
termination by (relation "measure (\<lambda>(b, i). length b - i)") auto

function skip_word :: "string \<Rightarrow> nat \<Rightarrow> nat" where
  "skip_word b i = (if i < length b \<and> \<not> is_space (char_at b i) \<and> \<not> is_symbol (char_at b i) then skip_word b (Suc i) else i)"
  by pat_completeness auto
termination by (relation "measure (\<lambda>(b, i). length b - i)") auto

declare skip_space.simps [simp del] skip_word.simps [simp del]

text \<open>The \<^verbatim>\<open>switch\<close> of \<^verbatim>\<open>gettoken\<close> at a character that is not white space: the token and its end.\<close>

definition token_at :: "string \<Rightarrow> nat \<Rightarrow> char \<times> nat" where
  "token_at b q =
     (let c = char_at b q in
      if c = NUL then (c, q)
      else if c \<in> set ''|();&<'' then (c, Suc q)
      else if c = CHR ''>'' then
        (if char_at b (Suc q) = CHR ''>'' then (CHR ''+'', Suc (Suc q)) else (c, Suc q))
      else (CHR ''a'', skip_word b q))"

definition gettoken :: "string \<Rightarrow> nat \<Rightarrow> char \<times> nat \<times> nat \<times> nat" where
  "gettoken b i =
     (let q = skip_space b i; (ret, eq) = token_at b q in (ret, q, eq, skip_space b eq))"

definition peek :: "string \<Rightarrow> nat \<Rightarrow> string \<Rightarrow> nat \<times> bool" where
  "peek b i toks =
     (let j = skip_space b i in (j, char_at b j \<noteq> NUL \<and> strchr toks (char_at b j) \<noteq> None))"

text \<open>The position after the next token, for the calls that ignore the token.\<close>

definition next_pos :: "string \<Rightarrow> nat \<Rightarrow> nat" where
  "next_pos b i = snd (snd (snd (gettoken b i)))"

lemma skip_space_le: "i \<le> skip_space b i \<and> (i \<le> length b \<longrightarrow> skip_space b i \<le> length b)"
proof (induction b i rule: skip_space.induct)
  case (1 b i)
  then show ?case unfolding skip_space.simps[of b i] by (auto intro: Suc_leD)
qed

lemma skip_word_le: "i \<le> skip_word b i \<and> (i \<le> length b \<longrightarrow> skip_word b i \<le> length b)"
proof (induction b i rule: skip_word.induct)
  case (1 b i)
  then show ?case unfolding skip_word.simps[of b i] by (auto intro: Suc_leD)
qed

lemma skip_word_less: "i < skip_word b i" if "i < length b" "\<not> is_space (char_at b i)" "\<not> is_symbol (char_at b i)"
  using that skip_word_le[of "Suc i" b] skip_word.simps[of b i] by simp

lemma skip_space_stop: "skip_space b i < length b \<Longrightarrow> \<not> is_space (char_at b (skip_space b i))"
proof (induction b i rule: skip_space.induct)
  case (1 b i)
  then show ?case unfolding skip_space.simps[of b i] by (auto split: if_splits)
qed

lemma char_at_NUL: "char_at b i \<noteq> NUL \<Longrightarrow> i < length b"
  by (simp add: char_at_def split: if_splits)

lemma symbols_cases: "is_symbol c \<longleftrightarrow> c \<in> set ''|();&<'' \<or> c = CHR ''>''"
  by (auto simp: is_symbol_def symbols_def)

lemma next_pos_eq: "next_pos b i = skip_space b (snd (token_at b (skip_space b i)))"
  by (simp add: next_pos_def gettoken_def Let_def split: prod.splits)

lemma token_at_le: "q \<le> snd (token_at b q)" "q \<le> length b \<Longrightarrow> snd (token_at b q) \<le> length b"
  using skip_word_le[of q b] char_at_NUL[of b q] char_at_NUL[of b "Suc q"] by (auto simp: token_at_def Let_def)

lemma token_at_less: "q < snd (token_at b q)" if "char_at b q \<noteq> NUL" "\<not> is_space (char_at b q)"
  using skip_word_less[of q b] char_at_NUL[of b q] that symbols_cases[of "char_at b q"] by (auto simp: token_at_def Let_def)

lemma gettoken_progress:
  assumes "char_at b (skip_space b i) \<noteq> NUL"
  shows "i < next_pos b i"
proof -
  have "i \<le> skip_space b i" "skip_space b i < snd (token_at b (skip_space b i))"
    using skip_space_le token_at_less assms skip_space_stop char_at_NUL by auto
  then show ?thesis unfolding next_pos_eq using skip_space_le[of "snd (token_at b (skip_space b i))" b] by linarith
qed

lemma next_pos_le: "i \<le> next_pos b i" "i \<le> length b \<Longrightarrow> next_pos b i \<le> length b"
  unfolding next_pos_eq using skip_space_le[of i b] token_at_le[of "skip_space b i" b] skip_space_le[of "snd (token_at b (skip_space b i))" b]
  by auto

lemma peek_progress:
  assumes "peek b i toks = (j, True)"
  shows "i \<le> j" "j < next_pos b j" "j < length b"
proof -
  have j: "j = skip_space b i" "char_at b j \<noteq> NUL" using assms by (auto simp: peek_def Let_def)
  then have "skip_space b j = j" using skip_space_stop[of b i] char_at_NUL skip_space.simps[of b j] by auto
  then show "i \<le> j" "j < next_pos b j" "j < length b" using char_at_NUL j gettoken_progress[of b j] skip_space_le[of i b] by auto
qed

section \<open>The parser\<close>

fun add_arg :: "'w cmd \<Rightarrow> 'w \<Rightarrow> 'w cmd" where
  "add_arg (EXEC ws) w = EXEC (ws @ [w])"
| "add_arg (REDIR c f m d) w = REDIR (add_arg c w) f m d"
| "add_arg c w = c"

definition redir_for :: "token cmd \<Rightarrow> char \<Rightarrow> token \<Rightarrow> token cmd" where
  "redir_for c tok f =
     (if tok = CHR ''<'' then REDIR c f RD 0
      else if tok = CHR ''>'' then REDIR c f WR 1
      else if tok = CHR ''+'' then REDIR c f WR 1
      else c)"

function parseredirs :: "token cmd \<Rightarrow> string \<Rightarrow> nat \<Rightarrow> token cmd parse" where
  "parseredirs c b i =
     (let (j, found) = peek b i ''<>'' in
      if \<not> found then Done c j
      else let (tok, _, _, k) = gettoken b j; (tok2, q, eq, l) = gettoken b k in
           if tok2 \<noteq> CHR ''a'' then Fail ''missing file for redirection''
           else parseredirs (redir_for c tok (q, eq)) b l)"
  by pat_completeness auto
termination
proof (relation "measure (\<lambda>(c, b, i). length b - i)", goal_cases)
  case (2 c b i x j found y tok z u v w k x' tok2 y' q z' eq l)
  then have "l = next_pos b k" "k = next_pos b j" "peek b i ''<>'' = (j, True)" by (auto simp: next_pos_def dest: sym dest!: arg_cong[where f = "\<lambda>x. snd (snd (snd x))"])
  then show ?case using peek_progress[of b i "''<>''" j] next_pos_le[of k b] by simp
qed simp

declare parseredirs.simps [simp del]

text \<open>The loop of \<^verbatim>\<open>parseexec\<close>: arguments, with redirections between them.\<close>

function parse_args :: "token cmd \<Rightarrow> nat \<Rightarrow> string \<Rightarrow> nat \<Rightarrow> token cmd parse" where
  "parse_args ret argc b i =
     (let (j, found) = peek b i ''|)&;'' in
      if found then Done ret j
      else let (tok, q, eq, k) = gettoken b j in
           if tok = NUL then Done ret k
           else if tok \<noteq> CHR ''a'' then Fail ''syntax''
           else if Suc argc \<ge> MAXARGS then Fail ''too many args''
           else (case parseredirs (add_arg ret (q, eq)) b k of
                   Done ret' l \<Rightarrow> parse_args ret' (Suc argc) b l
                 | Fail m \<Rightarrow> Fail m
                 | Fuel \<Rightarrow> Fuel))"
  by pat_completeness auto
termination by (relation "measure (\<lambda>(ret, argc, b, i). MAXARGS - argc)") auto

declare parse_args.simps [simp del]

text \<open>The loop of \<^verbatim>\<open>parseline\<close> over the ampersands.\<close>

function parse_backs :: "token cmd \<Rightarrow> string \<Rightarrow> nat \<Rightarrow> token cmd \<times> nat" where
  "parse_backs c b i =
     (let (j, found) = peek b i ''&'' in
      if found then parse_backs (BACK c) b (next_pos b j) else (c, j))"
  by pat_completeness auto
termination
proof (relation "measure (\<lambda>(c, b, i). length b - i)", goal_cases)
  case (2 c b i x j found)
  then have "peek b i ''&'' = (j, True)" by (auto dest: sym)
  then show ?case using peek_progress[of b i "''&''" j] by simp
qed simp

declare parse_backs.simps [simp del]

text \<open>
  The four functions that call each other, with fuel: a nested block costs four calls and at least one character, so
  \<open>4 * length b + 4\<close> is enough (\<open>parsers_good\<close> below).
\<close>

fun parseline :: "nat \<Rightarrow> string \<Rightarrow> nat \<Rightarrow> token cmd parse"
  and parsepipe :: "nat \<Rightarrow> string \<Rightarrow> nat \<Rightarrow> token cmd parse"
  and parseexec :: "nat \<Rightarrow> string \<Rightarrow> nat \<Rightarrow> token cmd parse"
  and parseblock :: "nat \<Rightarrow> string \<Rightarrow> nat \<Rightarrow> token cmd parse" where
  "parseline 0 b i = Fuel"
| "parseline (Suc n) b i =
     (case parsepipe n b i of
        Done c j \<Rightarrow>
          (let (c, k) = parse_backs c b j; (l, found) = peek b k '';'' in
           if found then (case parseline n b (next_pos b l) of Done r m \<Rightarrow> Done (LIST c r) m | e \<Rightarrow> e)
           else Done c l)
      | e \<Rightarrow> e)"
| "parsepipe 0 b i = Fuel"
| "parsepipe (Suc n) b i =
     (case parseexec n b i of
        Done c j \<Rightarrow>
          (let (k, found) = peek b j ''|'' in
           if found then (case parsepipe n b (next_pos b k) of Done r m \<Rightarrow> Done (PIPE c r) m | e \<Rightarrow> e)
           else Done c k)
      | e \<Rightarrow> e)"
| "parseexec 0 b i = Fuel"
| "parseexec (Suc n) b i =
     (let (j, found) = peek b i ''('' in
      if found then parseblock n b j
      else (case parseredirs (EXEC []) b j of Done ret k \<Rightarrow> parse_args ret 0 b k | e \<Rightarrow> e))"
| "parseblock 0 b i = Fuel"
| "parseblock (Suc n) b i =
     (let (j, found) = peek b i ''('' in
      if \<not> found then Fail ''parseblock''
      else (case parseline n b (next_pos b j) of
              Done c k \<Rightarrow>
                (let (l, found) = peek b k '')'' in
                 if \<not> found then Fail ''syntax - missing )''
                 else parseredirs c b (next_pos b l))
            | e \<Rightarrow> e))"

text \<open>\<^verbatim>\<open>nulterminate\<close> stores a NUL at the end of every word, in the memory of the buffer.\<close>

fun nulterminate :: "token cmd \<Rightarrow> string \<Rightarrow> string" where
  "nulterminate (EXEC ws) m = foldl (\<lambda>m w. m[snd w := NUL]) m ws"
| "nulterminate (REDIR c f mode fd) m = (nulterminate c m)[snd f := NUL]"
| "nulterminate (PIPE l r) m = nulterminate r (nulterminate l m)"
| "nulterminate (LIST l r) m = nulterminate r (nulterminate l m)"
| "nulterminate (BACK c) m = nulterminate c m"

text \<open>\<^verbatim>\<open>parsecmd\<close>: the command and the memory of the buffer with the words terminated.\<close>

definition parsecmd :: "string \<Rightarrow> (token cmd \<times> string) parse" where
  "parsecmd s =
     (case parseline (4 * length s + 4) s 0 of
        Done c i \<Rightarrow>
          (let (j, _) = peek s i [] in
           if j \<noteq> length s then Fail ''syntax'' else Done (c, nulterminate c (s @ [NUL])) j)
      | Fail m \<Rightarrow> Fail m
      | Fuel \<Rightarrow> Fuel)"

text \<open>The strings that the pointers of a command denote in a memory.\<close>

definition words_in :: "string \<Rightarrow> token cmd \<Rightarrow> string cmd" where
  "words_in m = map_cmd (\<lambda>w. takeWhile (\<lambda>x. x \<noteq> NUL) (drop (fst w) m))"

section \<open>What the parser builds\<close>

definition word :: "string \<Rightarrow> bool" where
  "word w \<longleftrightarrow> w \<noteq> [] \<and> (\<forall>x\<in>set w. x \<noteq> NUL \<and> \<not> is_space x \<and> \<not> is_symbol x)"

text \<open>The commands of the shell: at most nine arguments, and the modes and descriptors of the two redirections.\<close>

fun wf_cmd :: "string cmd \<Rightarrow> bool" where
  "wf_cmd (EXEC ws) \<longleftrightarrow> length ws < MAXARGS \<and> (\<forall>w\<in>set ws. word w)"
| "wf_cmd (REDIR c f m d) \<longleftrightarrow> wf_cmd c \<and> word f \<and> (m = RD \<and> d = 0 \<or> m = WR \<and> d = 1)"
| "wf_cmd (PIPE l r) \<longleftrightarrow> wf_cmd l \<and> wf_cmd r"
| "wf_cmd (LIST l r) \<longleftrightarrow> wf_cmd l \<and> wf_cmd r"
| "wf_cmd (BACK c) \<longleftrightarrow> wf_cmd c"

definition slice :: "string \<Rightarrow> token \<Rightarrow> string" where
  "slice b t = take (snd t - fst t) (drop (fst t) b)"

definition apart :: "token \<Rightarrow> token \<Rightarrow> bool" where
  "apart t u \<longleftrightarrow> t = u \<or> snd t \<le> fst u \<or> snd u \<le> fst t"

definition ends_at :: "string \<Rightarrow> nat \<Rightarrow> bool" where
  "ends_at b k \<longleftrightarrow> k < length b \<longrightarrow> is_space (b ! k) \<or> is_symbol (b ! k)"

text \<open>A command parsed from position \<open>i\<close> to position \<open>j\<close>: its words lie there, in places of their own.\<close>

definition laid :: "string \<Rightarrow> nat \<Rightarrow> nat \<Rightarrow> token cmd \<Rightarrow> bool" where
  "laid b i j c \<longleftrightarrow> i \<le> j \<and> j \<le> length b \<and> wf_cmd (map_cmd (slice b) c) \<and>
     (\<forall>t\<in>set_cmd c. i \<le> fst t \<and> fst t < snd t \<and> snd t \<le> j \<and> ends_at b (snd t)) \<and> (\<forall>t\<in>set_cmd c. \<forall>u\<in>set_cmd c. apart t u)"

lemma laid_le: "laid b i j c \<Longrightarrow> i \<le> j \<and> j \<le> length b"
  by (simp add: laid_def)

lemma laid_mono: "laid b i j c \<Longrightarrow> i' \<le> i \<Longrightarrow> j \<le> j' \<Longrightarrow> j' \<le> length b \<Longrightarrow> laid b i' j' c"
  unfolding laid_def by (auto intro: order_trans)

definition in_span :: "nat \<Rightarrow> nat \<Rightarrow> token \<Rightarrow> bool" where
  "in_span i j t \<longleftrightarrow> i \<le> fst t \<and> fst t < snd t \<and> snd t \<le> j"

lemma in_span_apart: "in_span i j t \<Longrightarrow> in_span j k u \<Longrightarrow> apart t u \<and> apart u t"
  by (auto simp: in_span_def apart_def)

lemma in_span_mono: "in_span i j t \<Longrightarrow> i' \<le> i \<Longrightarrow> j \<le> j' \<Longrightarrow> in_span i' j' t"
  by (simp add: in_span_def)

lemma laid_iff: "laid b i j c \<longleftrightarrow> i \<le> j \<and> j \<le> length b \<and> wf_cmd (map_cmd (slice b) c) \<and>
     (\<forall>t\<in>set_cmd c. in_span i j t \<and> ends_at b (snd t)) \<and> (\<forall>t\<in>set_cmd c. \<forall>u\<in>set_cmd c. apart t u)"
  unfolding laid_def in_span_def by blast

lemma laid_union:
  assumes "laid b i j c" "j \<le> k" "k \<le> length b" "set_cmd e \<subseteq> set_cmd c \<union> T" "\<And>t. t \<in> T \<Longrightarrow> in_span j k t \<and> ends_at b (snd t)"
    "\<And>t u. t \<in> T \<Longrightarrow> u \<in> T \<Longrightarrow> apart t u" "wf_cmd (map_cmd (slice b) e)"
  shows "laid b i k e"
  unfolding laid_iff
proof (intro conjI ballI)
  have c: "i \<le> j" "\<And>t. t \<in> set_cmd c \<Longrightarrow> in_span i j t \<and> ends_at b (snd t)" "\<And>t u. t \<in> set_cmd c \<Longrightarrow> u \<in> set_cmd c \<Longrightarrow> apart t u"
    using assms(1) unfolding laid_iff by blast+
  show "i \<le> k" using c(1) assms(2) by simp
  fix t u assume t: "t \<in> set_cmd e" "u \<in> set_cmd e"
  then have "t \<in> set_cmd c \<or> t \<in> T" "u \<in> set_cmd c \<or> u \<in> T" using assms(4) by blast+
  then show "in_span i k t" "ends_at b (snd t)" "apart t u"
    by (meson c assms(2,5,6) in_span_apart in_span_mono order_refl)+
qed (use assms in auto)

lemma laid_two:
  assumes "laid b i j c" "laid b j k d" "set_cmd e = set_cmd c \<union> set_cmd d" "wf_cmd (map_cmd (slice b) e)"
  shows "laid b i k e"
  using assms(2) unfolding laid_iff[of b j k d] by (intro laid_union[OF assms(1)]) (use assms(3,4) in auto)

lemma laid_word:
  assumes "laid b i j c" "j \<le> q" "q < e" "e \<le> k" "k \<le> length b" "ends_at b e" "set_cmd d \<subseteq> insert (q, e) (set_cmd c)" "wf_cmd (map_cmd (slice b) d)"
  shows "laid b i k d"
  using assms(2-8) by (intro laid_union[OF assms(1), where T = "{(q, e)}"]) (auto simp: in_span_def apart_def)

lemma laid_BACK: "laid b i j (BACK c) = laid b i j c"
  by (simp add: laid_def)

lemma skip_word_chars: "i \<le> k \<Longrightarrow> k < skip_word b i \<Longrightarrow> k < length b \<and> \<not> is_space (b ! k) \<and> \<not> is_symbol (b ! k)"
proof (induction b i rule: skip_word.induct)
  case (1 b i)
  then show ?case using skip_word.simps[of b i] by (cases "i = k") (auto simp: char_at_def split: if_splits)
qed

lemma skip_word_end: "ends_at b (skip_word b i)"
proof (induction b i rule: skip_word.induct)
  case (1 b i)
  then show ?case using skip_word.simps[of b i] by (auto simp: char_at_def ends_at_def)
qed

lemma gettoken_word:
  assumes "gettoken b i = (CHR ''a'', q, e, k)" "i \<le> length b" "NUL \<notin> set b"
  shows "i \<le> q" "q < e" "e \<le> k" "k \<le> length b" "ends_at b e" "word (slice b (q, e))"
proof -
  have q: "q = skip_space b i" "i \<le> q" "k = skip_space b e" "token_at b q = (CHR ''a'', e)"
    using assms(1) skip_space_le[of i b] by (auto simp: gettoken_def Let_def split: prod.splits)
  then have c: "char_at b q \<noteq> NUL" "e = skip_word b q" "\<not> is_symbol (char_at b q)"
    by (auto simp: token_at_def Let_def symbols_cases split: if_splits)
  then have "q < length b" "\<not> is_space (char_at b q)" using char_at_NUL skip_space_stop q(1) by auto
  then show "i \<le> q" "q < e" "e \<le> k" "k \<le> length b"
    using q c skip_word_less[of q b] skip_word_le[of q b] skip_space_le[of e b] by auto
  show "ends_at b e" unfolding c(2) by (rule skip_word_end)
  have "x \<noteq> NUL \<and> \<not> is_space x \<and> \<not> is_symbol x" if "x \<in> set (slice b (q, e))" for x
  proof -
    from that obtain j where "j < e - q" "q + j < length b" "x = b ! (q + j)" by (auto simp: slice_def in_set_conv_nth)
    moreover from this have "x \<noteq> NUL" using assms(3) nth_mem[of "q + j" b] by metis
    ultimately show ?thesis using skip_word_chars[of q "q + j" b] c(2) assms(3) by auto
  qed
  moreover have "slice b (q, e) \<noteq> []" using \<open>q < length b\<close> \<open>q < e\<close> by (simp add: slice_def)
  ultimately show "word (slice b (q, e))" by (simp add: word_def)
qed

lemma peek_le: "peek b i toks = (j, f) \<Longrightarrow> i \<le> j \<and> (i \<le> length b \<longrightarrow> j \<le> length b)"
  using skip_space_le[of i b] by (auto simp: peek_def Let_def)

fun nargs :: "'w cmd \<Rightarrow> nat" where
  "nargs (EXEC ws) = length ws"
| "nargs (REDIR c f m d) = nargs c"
| "nargs c = 0"

lemma add_arg_simps:
  "nargs (add_arg c w) \<le> Suc (nargs c)" "set_cmd (add_arg c w) \<subseteq> insert w (set_cmd c)"
  "map_cmd g (add_arg c w) = add_arg (map_cmd g c) (g w)" "nargs (map_cmd g c) = nargs c"
  by (induction c) auto

lemma wf_add_arg: "wf_cmd c \<Longrightarrow> word w \<Longrightarrow> Suc (nargs c) < MAXARGS \<Longrightarrow> wf_cmd (add_arg c w)"
  by (induction c) auto

lemma parseredirs_laid:
  assumes "laid b i j c" "NUL \<notin> set b"
  shows "case parseredirs c b j of Done d k \<Rightarrow> laid b i k d \<and> nargs d = nargs c | Fail m \<Rightarrow> True | Fuel \<Rightarrow> False"
  using assms
proof (induction c b j rule: parseredirs.induct)
  case (1 c b j)
  obtain j' found where p: "peek b j ''<>'' = (j', found)" by fastforce
  obtain tok q0 e0 k where t: "gettoken b j' = (tok, q0, e0, k)" by (cases "gettoken b j'") auto
  obtain tok2 q e l where t2: "gettoken b k = (tok2, q, e, l)" by (cases "gettoken b k") auto
  have j': "j \<le> j'" "j' \<le> length b" "j' \<le> k" "k \<le> length b"
    using peek_le[OF p] laid_le[OF 1(2)] next_pos_le[of j' b] t by (auto simp: next_pos_def)
  consider "\<not> found" | "tok2 \<noteq> CHR ''a''" | "found" "tok2 = CHR ''a''" by blast
  then show ?case
  proof cases
    case 1
    then show ?thesis using p j' laid_mono[OF \<open>laid b i j c\<close>] by (subst parseredirs.simps) simp
  next
    case 2
    then show ?thesis using p t t2 j' laid_mono[OF \<open>laid b i j c\<close>] by (subst parseredirs.simps) simp
  next
    case 3
    let ?d = "redir_for c tok (q, e)"
    have w: "k \<le> q" "q < e" "e \<le> l" "l \<le> length b" "ends_at b e" "word (slice b (q, e))"
      using gettoken_word[of b k q e l] t2 3 j' \<open>NUL \<notin> set b\<close> by auto
    have "wf_cmd (map_cmd (slice b) ?d)" "set_cmd ?d \<subseteq> insert (q, e) (set_cmd c)"
      using w(6) \<open>laid b i j c\<close> by (auto simp: redir_for_def laid_def)
    then have "laid b i l ?d" using laid_word[OF \<open>laid b i j c\<close>, of q e l] w j' by simp
    moreover have "nargs ?d = nargs c" by (simp add: redir_for_def)
    ultimately show ?thesis using "1.IH"[OF refl p[symmetric] _ refl t[symmetric] refl refl refl t2[symmetric] refl refl] 3 \<open>NUL \<notin> set b\<close>
      unfolding parseredirs.simps[of c b j] by (simp add: p t t2 split: parse.splits)
  qed
qed

lemma parse_args_laid:
  assumes "laid b i j c" "NUL \<notin> set b" "nargs c \<le> argc"
  shows "case parse_args c argc b j of Done d k \<Rightarrow> laid b i k d | Fail m \<Rightarrow> True | Fuel \<Rightarrow> False"
  using assms
proof (induction c argc b j rule: parse_args.induct)
  case (1 c argc b j)
  obtain j' found where p: "peek b j ''|)&;'' = (j', found)" by fastforce
  obtain tok q e k where t: "gettoken b j' = (tok, q, e, k)" by (cases "gettoken b j'") auto
  have j': "j \<le> j'" "j' \<le> length b" "j' \<le> k" "k \<le> length b"
    using peek_le[OF p] laid_le[OF 1(2)] next_pos_le[of j' b] t by (auto simp: next_pos_def)
  show ?case
  proof (cases "\<not> found \<and> tok = CHR ''a'' \<and> Suc argc < MAXARGS")
    case False
    then show ?thesis using p t j' laid_mono[OF 1(2), of i j'] laid_mono[OF 1(2), of i k]
      by (subst parse_args.simps) auto
  next
    case True
    have w: "j' \<le> q" "q < e" "e \<le> k" "k \<le> length b" "ends_at b e" "word (slice b (q, e))"
      using gettoken_word[of b j' q e k] t True j' 1(3) by auto
    let ?d = "add_arg c (q, e)"
    have "wf_cmd (map_cmd (slice b) ?d)"
      using w(6) 1(2,4) True wf_add_arg[of "map_cmd (slice b) c" "slice b (q, e)"] by (simp add: add_arg_simps laid_def)
    then have "laid b i k ?d" using laid_word[OF 1(2), of q e k ?d] w j' add_arg_simps(2)[of c "(q, e)"] by simp
    then have r: "case parseredirs ?d b k of Done d k \<Rightarrow> laid b i k d \<and> nargs d = nargs ?d | Fail m \<Rightarrow> True | Fuel \<Rightarrow> False"
      by (rule parseredirs_laid) (rule 1(3))
    show ?thesis
    proof (cases "parseredirs ?d b k")
      case (Done d l)
      then have "laid b i l d" "nargs d \<le> Suc argc" using r 1(4) add_arg_simps(1)[of c "(q, e)"] by auto
      then show ?thesis using "1.IH"[OF refl p[symmetric] _ refl t[symmetric] refl refl _ _ _ Done] True 1(3)
        unfolding parse_args.simps[of c argc b j] by (simp add: p t Done)
    qed (use r p t True in \<open>auto simp: parse_args.simps[of c argc b j]\<close>)
  qed
qed

lemma parse_backs_laid:
  assumes "laid b i j c"
  shows "case parse_backs c b j of (d, k) \<Rightarrow> laid b i k d"
  using assms
proof (induction c b j rule: parse_backs.induct)
  case (1 c b j)
  obtain j' found where p: "peek b j ''&'' = (j', found)" by fastforce
  have j': "j \<le> j'" "j' \<le> length b" using peek_le[OF p] laid_le[OF 1(2)] by auto
  then have "laid b i j' c" "laid b i (next_pos b j') c" using laid_mono[OF 1(2)] next_pos_le[of j' b] by auto
  then show ?case using "1.IH"[OF refl p[symmetric]] unfolding parse_backs.simps[of c b j] by (simp add: p laid_BACK)
qed

text \<open>The result of a parsing function at position \<open>i\<close> with fuel \<open>n\<close>, of which \<open>4 * (length b - i) + d\<close> is enough.\<close>

definition good :: "string \<Rightarrow> nat \<Rightarrow> nat \<Rightarrow> nat \<Rightarrow> token cmd parse \<Rightarrow> bool" where
  "good b i d n r = (case r of Done c j \<Rightarrow> laid b i j c | Fail m \<Rightarrow> True | Fuel \<Rightarrow> n < 4 * (length b - i) + d)"

lemma good_simps [simp]:
  "good b i d n (Done c j) = laid b i j c" "good b i d n (Fail m)" "good b i d n Fuel = (n < 4 * (length b - i) + d)"
  by (simp_all add: good_def)

lemma laid_EXEC: "i \<le> j \<Longrightarrow> j \<le> length b \<Longrightarrow> laid b i j (EXEC [])"
  by (simp add: laid_def)

lemma laid_pair:
  assumes "laid b i j c" "laid b j' k d" "j \<le> j'" "e = PIPE c d \<or> e = LIST c d"
  shows "laid b i k e"
proof -
  have "laid b j k d" using laid_mono[OF assms(2,3)] laid_le[OF assms(2)] by simp
  moreover have "wf_cmd (map_cmd (slice b) c)" "wf_cmd (map_cmd (slice b) d)" using assms(1,2) by (simp_all add: laid_def)
  ultimately show ?thesis using laid_two[OF assms(1), of k d e] assms(4) by auto
qed

lemma good_parseline:
  assumes "NUL \<notin> set b" "\<And>i. i \<le> length b \<Longrightarrow> good b i 3 n (parsepipe n b i)" "\<And>i. i \<le> length b \<Longrightarrow> good b i 4 n (parseline n b i)" "i \<le> length b"
  shows "good b i 4 (Suc n) (parseline (Suc n) b i)"
proof -
  have IH: "good b i 3 n (parsepipe n b i)" using assms(2,4) .
  show ?thesis
  proof (cases "parsepipe n b i")
    case (Done c j)
    obtain c' k where c': "parse_backs c b j = (c', k)" by fastforce
    obtain l found where l: "peek b k '';'' = (l, found)" by fastforce
    have laid: "laid b i k c'" using parse_backs_laid[of b i j c] IH Done c' by simp
    then have le: "i \<le> k" "k \<le> l" "l \<le> length b" using laid_le peek_le[OF l] by auto
    have rest: "good b (next_pos b l) 4 n (parseline n b (next_pos b l))" using le next_pos_le by (intro assms(3)) simp
    show ?thesis
    proof (cases found)
      case True
      then have "l < next_pos b l" "l < length b" using peek_progress l by auto
      then show ?thesis using rest le laid_pair[OF laid, of "next_pos b l"] True
        by (cases "parseline n b (next_pos b l)") (auto simp: Done c' l)
    next
      case False
      then show ?thesis using laid_mono[OF laid] le by (simp add: Done c' l)
    qed
  qed (use IH in simp_all)
qed

lemma good_parsepipe:
  assumes "NUL \<notin> set b" "\<And>i. i \<le> length b \<Longrightarrow> good b i 2 n (parseexec n b i)" "\<And>i. i \<le> length b \<Longrightarrow> good b i 3 n (parsepipe n b i)" "i \<le> length b"
  shows "good b i 3 (Suc n) (parsepipe (Suc n) b i)"
proof -
  have IH: "good b i 2 n (parseexec n b i)" using assms(2,4) .
  show ?thesis
  proof (cases "parseexec n b i")
    case (Done c j)
    obtain l found where l: "peek b j ''|'' = (l, found)" by fastforce
    have laid: "laid b i j c" using IH Done by simp
    then have le: "i \<le> j" "j \<le> l" "l \<le> length b" using laid_le peek_le[OF l] by auto
    have rest: "good b (next_pos b l) 3 n (parsepipe n b (next_pos b l))" using le next_pos_le by (intro assms(3)) simp
    show ?thesis
    proof (cases found)
      case True
      then have "l < next_pos b l" "l < length b" using peek_progress l by auto
      then show ?thesis using rest le laid_pair[OF laid, of "next_pos b l"] True
        by (cases "parsepipe n b (next_pos b l)") (auto simp: Done l)
    next
      case False
      then show ?thesis using laid_mono[OF laid] le by (simp add: Done l)
    qed
  qed (use IH in simp_all)
qed

lemma good_parseexec:
  assumes "NUL \<notin> set b" "\<And>i. i \<le> length b \<Longrightarrow> good b i 1 n (parseblock n b i)" "i \<le> length b"
  shows "good b i 2 (Suc n) (parseexec (Suc n) b i)"
proof -
  obtain j found where p: "peek b i ''('' = (j, found)" by fastforce
  then have le: "i \<le> j" "j \<le> length b" using peek_le assms(3) by auto
  then have blk: "good b j 1 n (parseblock n b j)" by (intro assms(2))
  have "good b i 2 (Suc n) (parseblock n b j)"
    using blk le laid_mono[of b j _ _ i] laid_le[of b j] by (cases "parseblock n b j") auto
  moreover have "good b i 2 (Suc n) (case parseredirs (EXEC []) b j of Done ret k \<Rightarrow> parse_args ret 0 b k | e \<Rightarrow> e)"
  proof -
    have r: "case parseredirs (EXEC []) b j of Done d k \<Rightarrow> laid b i k d \<and> nargs d = 0 | Fail m \<Rightarrow> True | Fuel \<Rightarrow> False"
      using parseredirs_laid[OF laid_EXEC[OF le] assms(1)] by (simp split: parse.splits)
    show ?thesis
    proof (cases "parseredirs (EXEC []) b j")
      case (Done d k)
      then show ?thesis using r parse_args_laid[of b i k d 0] assms(1) by (simp split: parse.splits)
    qed (use r in auto)
  qed
  ultimately show ?thesis by (simp add: p)
qed

lemma good_parseblock:
  assumes "NUL \<notin> set b" "\<And>i. i \<le> length b \<Longrightarrow> good b i 4 n (parseline n b i)" "i \<le> length b"
  shows "good b i 1 (Suc n) (parseblock (Suc n) b i)"
proof -
  obtain j found where p: "peek b i ''('' = (j, found)" by fastforce
  then have le: "i \<le> j" "j \<le> length b" using peek_le assms(3) by auto
  show ?thesis
  proof (cases found)
    case True
    then have j: "j < next_pos b j" "j < length b" using peek_progress p by auto
    have IH: "good b (next_pos b j) 4 n (parseline n b (next_pos b j))" using le next_pos_le by (intro assms(2)) simp
    show ?thesis
    proof (cases "parseline n b (next_pos b j)")
      case (Done c k)
      obtain l f where l: "peek b k '')'' = (l, f)" by fastforce
      have laid: "laid b (next_pos b j) k c" using IH Done by simp
      then have "next_pos b j \<le> k" "k \<le> l" "l \<le> length b" using laid_le peek_le[OF l] by auto
      then have "laid b i (next_pos b l) c" using laid_mono[OF laid, of i "next_pos b l"] le j next_pos_le[of l b] by simp
      then show ?thesis using parseredirs_laid[of b i "next_pos b l" c] assms(1) True
        by (cases "parseredirs c b (next_pos b l)") (auto simp: p l Done)
    qed (use IH True p j le in auto)
  qed (simp add: p)
qed

lemma parsers_good:
  assumes "NUL \<notin> set b"
  shows "i \<le> length b \<Longrightarrow> good b i 4 n (parseline n b i)" "i \<le> length b \<Longrightarrow> good b i 3 n (parsepipe n b i)"
    "i \<le> length b \<Longrightarrow> good b i 2 n (parseexec n b i)" "i \<le> length b \<Longrightarrow> good b i 1 n (parseblock n b i)"
proof (induction n arbitrary: i)
  case (Suc n)
  note IH = Suc.IH
  { case 1 show ?case by (rule good_parseline[OF assms IH(2) IH(1) 1])
  next case 2 show ?case by (rule good_parsepipe[OF assms IH(3) IH(2) 2])
  next case 3 show ?case by (rule good_parseexec[OF assms IH(4) 3])
  next case 4 show ?case by (rule good_parseblock[OF assms IH(1) 4]) }
qed simp_all

section \<open>Terminating the words\<close>

lemma nth_store: "k < length m \<Longrightarrow> m[j := x] ! k = (if k = j then x else m ! k)"
  by (cases "j = k") auto

lemma foldl_upd:
  "length (foldl (\<lambda>m w. m[snd w := NUL]) m ws) = length m"
  "k < length m \<Longrightarrow> foldl (\<lambda>m w. m[snd w := NUL]) m ws ! k = (if k \<in> snd ` set ws then NUL else m ! k)"
  by (induction ws arbitrary: m) (auto simp: nth_store)

lemma nulterminate_length [simp]: "length (nulterminate c m) = length m"
  by (induction c arbitrary: m) (simp_all add: foldl_upd)

lemma nulterminate_nth:
  "k < length m \<Longrightarrow> nulterminate c m ! k = (if k \<in> snd ` set_cmd c then NUL else m ! k)"
  by (induction c arbitrary: m) (simp_all add: foldl_upd nth_store image_Un)

lemma wf_cmd_words: "wf_cmd d \<Longrightarrow> w \<in> set_cmd d \<Longrightarrow> word w"
  by (induction d) auto

lemma laid_token:
  assumes "laid b i j c" "t \<in> set_cmd c"
  shows "fst t < snd t" "snd t \<le> length b" "ends_at b (snd t)" "word (slice b t)"
proof -
  have c: "j \<le> length b" "wf_cmd (map_cmd (slice b) c)" "\<forall>t\<in>set_cmd c. i \<le> fst t \<and> fst t < snd t \<and> snd t \<le> j \<and> ends_at b (snd t)"
    using assms(1) unfolding laid_def by blast+
  then show "fst t < snd t" "snd t \<le> length b" "ends_at b (snd t)" using assms(2) order_trans by blast+
  show "word (slice b t)" using wf_cmd_words[OF c(2)] assms(2) by (simp add: cmd.set_map)
qed

lemma laid_strict:
  assumes "laid b i j c" "t \<in> set_cmd c" "u \<in> set_cmd c" "t \<noteq> u"
  shows "snd t < fst u \<or> snd u < fst t"
proof -
  have "snd v \<noteq> fst w" if "v \<in> set_cmd c" "w \<in> set_cmd c" for v w
  proof -
    note w = laid_token[OF assms(1) that(2)] laid_token[OF assms(1) that(1)]
    have "\<not> is_space (hd (slice b w)) \<and> \<not> is_symbol (hd (slice b w))" using hd_in_set w(4) unfolding word_def by blast
    moreover have "hd (slice b w) = b ! fst w" using w(1,2) by (simp add: slice_def hd_drop_conv_nth)
    ultimately show ?thesis using w unfolding ends_at_def by auto
  qed
  then have "snd t \<noteq> fst u" "snd u \<noteq> fst t" using assms(2,3) by blast+
  moreover have "apart t u" using assms(1,2,3) unfolding laid_def by blast
  ultimately show ?thesis using assms(4) unfolding apart_def by linarith
qed

lemma word_terminated:
  assumes "laid b i j c" "t \<in> set_cmd c" "NUL \<notin> set b"
  shows "takeWhile (\<lambda>x. x \<noteq> NUL) (drop (fst t) (nulterminate c (b @ [NUL]))) = slice b t"
proof -
  let ?m = "nulterminate c (b @ [NUL])"
  have t: "fst t < snd t" "snd t \<le> length b" using assms(1,2) by (auto simp: laid_def)
  have len: "length ?m = Suc (length b)" by simp
  have same: "?m ! k = b ! k" if k: "fst t \<le> k" "k < snd t" for k
  proof -
    have "k \<noteq> snd u" if u: "u \<in> set_cmd c" for u
    proof -
      have "fst u < snd u" using assms(1) u by (auto simp: laid_def)
      then show ?thesis using k laid_strict[OF assms(1,2) u] by (cases "t = u") auto
    qed
    then show ?thesis using k t by (auto simp: nulterminate_nth nth_append)
  qed
  have cut: "drop (fst t) ?m = take (snd t - fst t) (drop (fst t) ?m) @ drop (snd t) ?m"
    using t append_take_drop_id[of "snd t - fst t" "drop (fst t) ?m"] by simp
  have front: "take (snd t - fst t) (drop (fst t) ?m) = slice b t"
    unfolding slice_def using t len same by (intro nth_equalityI) auto
  have end_nul: "drop (snd t) ?m = NUL # drop (Suc (snd t)) ?m"
    using t len assms(2) nulterminate_nth[of "snd t" "b @ [NUL]" c] by (subst Cons_nth_drop_Suc[symmetric]) auto
  have "x \<noteq> NUL" if "x \<in> set (slice b t)" for x using laid_token(4)[OF assms(1,2)] that unfolding word_def by blast
  then have "takeWhile (\<lambda>x. x \<noteq> NUL) (slice b t @ NUL # drop (Suc (snd t)) ?m) = slice b t" by simp
  then show ?thesis using cut front end_nul by simp
qed

lemma words_in_slices:
  assumes "laid b i j c" "NUL \<notin> set b"
  shows "words_in (nulterminate c (b @ [NUL])) c = map_cmd (slice b) c"
  unfolding words_in_def using word_terminated[OF assms(1) _ assms(2)] by (intro cmd.map_cong) auto

lemma parsecmd_cases:
  assumes "NUL \<notin> set s"
  shows "(\<exists>m. parsecmd s = Fail m) \<or>
    (\<exists>c i. parseline (4 * length s + 4) s 0 = Done c i \<and> laid s 0 i c \<and>
       parsecmd s = Done (c, nulterminate c (s @ [NUL])) (length s) \<and> words_in (nulterminate c (s @ [NUL])) c = map_cmd (slice s) c)"
proof (cases "parseline (4 * length s + 4) s 0")
  case (Done c i)
  then have "laid s 0 i c" using parsers_good(1)[OF assms, of 0 "4 * length s + 4"] by simp
  then show ?thesis using words_in_slices assms Done by (auto simp: parsecmd_def split: prod.splits)
qed (use parsers_good(1)[OF assms, of 0 "4 * length s + 4"] in \<open>auto simp: parsecmd_def\<close>)

text \<open>
  C18. \<^verbatim>\<open>parsecmd\<close> ends on every line, with a message or with a command. The command is well formed: an \<^verbatim>\<open>EXEC\<close> has at
  most nine arguments, so that the null pointer after them is inside \<^verbatim>\<open>argv\<close>, and each of its words, read from the
  buffer after \<^verbatim>\<open>nulterminate\<close> has stored its NULs, is a non-empty word without white space or symbols, a part of the line.
\<close>

theorem parsecmd_returns:
  assumes "NUL \<notin> set s"
  shows "(\<exists>m. parsecmd s = Fail m) \<or>
    (\<exists>c m. parsecmd s = Done (c, m) (length s) \<and> wf_cmd (words_in m c) \<and>
       (\<forall>(q, e) \<in> set_cmd c. q < e \<and> e \<le> length s \<and> m ! e = NUL \<and> takeWhile (\<lambda>x. x \<noteq> NUL) (drop q m) = take (e - q) (drop q s)))"
proof (cases "\<exists>m. parsecmd s = Fail m")
  case False
  then obtain c i where c: "laid s 0 i c" "parsecmd s = Done (c, nulterminate c (s @ [NUL])) (length s)"
    "words_in (nulterminate c (s @ [NUL])) c = map_cmd (slice s) c" using parsecmd_cases[OF assms] by blast
  have "q < e \<and> e \<le> length s \<and> nulterminate c (s @ [NUL]) ! e = NUL \<and>
      takeWhile (\<lambda>x. x \<noteq> NUL) (drop q (nulterminate c (s @ [NUL]))) = take (e - q) (drop q s)" if t: "(q, e) \<in> set_cmd c" for q e
    using c(1) t word_terminated[OF c(1) t assms] nulterminate_nth[of e "s @ [NUL]" c]
    by (force simp: laid_def slice_def)
  moreover have "wf_cmd (map_cmd (slice s) c)" using c(1) by (simp add: laid_def)
  ultimately show ?thesis using c(2,3) by auto
qed blast

theorem parsecmd_returns_witness:
  "\<exists>c m. parsecmd ''ls -l>f'' = Done (c, m) 7 \<and> wf_cmd (words_in m c)"
proof -
  have "parsecmd ''ls -l>f'' = Done (REDIR (EXEC [(0, 2), (3, 5)]) (6, 7) WR 1, ''ls'' @ [NUL] @ ''-l'' @ [NUL] @ ''f'' @ [NUL]) 7" by code_simp
  then show ?thesis using parsecmd_returns[of "''ls -l>f''"] by auto
qed

text \<open>A line that the grammar refuses: an ampersand ends a list element, and what follows without a semicolon is left over.\<close>

lemma ampersand_needs_semicolon: "parsecmd ''a & b'' = Fail ''syntax''"
  by code_simp

end
