(* ===== verification/Sh_Print.thy ===== *)
theory Sh_Print
  imports Sh
begin

text \<open>
  Every command of the shell has a line that parses to it. A command is printed as a list of lexemes, with parentheses
  where the grammar of \<^verbatim>\<open>sh.c\<close> needs a block, and the parser of \<^verbatim>\<open>Sh\<close> reads the command back.
\<close>

section \<open>Printing\<close>

datatype level = Atom | Pipe | Back | Line

definition block_if :: "bool \<Rightarrow> string list \<Rightarrow> string list" where
  "block_if p ts = (if p then [''(''] @ ts @ ['')''] else ts)"

primrec show_cmd :: "string cmd \<Rightarrow> level \<Rightarrow> string list" where
  "show_cmd (EXEC ws) lev = ws"
| "show_cmd (REDIR c f m d) lev = show_cmd c Atom @ [[if m = RD then CHR ''<'' else CHR ''>''], f]"
| "show_cmd (PIPE l r) lev = block_if (lev = Atom) (show_cmd l Atom @ [''|''] @ show_cmd r Pipe)"
| "show_cmd (BACK c) lev = block_if (lev = Atom \<or> lev = Pipe) (show_cmd c Back @ [''&''])"
| "show_cmd (LIST l r) lev = block_if (lev \<noteq> Line) (show_cmd l Back @ ['';''] @ show_cmd r Line)"

definition unlex :: "string list \<Rightarrow> string" where
  "unlex ts = concat (map (\<lambda>t. t @ '' '') ts)"

definition show_line :: "string cmd \<Rightarrow> string" where
  "show_line c = unlex (show_cmd c Line)"

section \<open>Lexemes\<close>

definition lexeme :: "string \<Rightarrow> bool" where
  "lexeme t \<longleftrightarrow> word t \<or> t \<in> {''|'', ''&'', '';'', ''('', '')'', ''<'', ''>''}"

lemma unlex_simps [simp]: "unlex [] = []" "unlex (t # ts) = t @ CHR '' '' # unlex ts"
  by (simp_all add: unlex_def)

lemma space_char [simp]: "is_space CHR '' ''"
  by code_simp

lemma symbol_chars [simp]:
  "\<not> is_space CHR ''|''" "\<not> is_space CHR ''&''" "\<not> is_space CHR '';''" "\<not> is_space CHR ''(''" "\<not> is_space CHR '')''"
  "\<not> is_space CHR ''<''" "\<not> is_space CHR ''>''"
  by code_simp+

lemma lexeme_hd: "lexeme t \<Longrightarrow> t \<noteq> [] \<and> hd t \<noteq> NUL \<and> \<not> is_space (hd t)"
  by (cases t) (auto simp: lexeme_def word_def)

lemma word_lexeme: "word t \<Longrightarrow> lexeme t"
  by (simp add: lexeme_def)

lemma word_hd: "word t \<Longrightarrow> \<not> is_symbol (hd t)"
  by (cases t) (auto simp: word_def)

lemma drop_skip_space: "drop (skip_space b i) b = dropWhile is_space (drop i b)"
proof (induction b i rule: skip_space.induct)
  case (1 b i)
  then show ?case using skip_space.simps[of b i]
    by (cases "i < length b") (auto simp: char_at_def Cons_nth_drop_Suc[symmetric])
qed

lemma drop_skip_word: "drop (skip_word b i) b = dropWhile (\<lambda>x. \<not> is_space x \<and> \<not> is_symbol x) (drop i b)"
proof (induction b i rule: skip_word.induct)
  case (1 b i)
  then show ?case using skip_word.simps[of b i]
    by (cases "i < length b") (auto simp: char_at_def Cons_nth_drop_Suc[symmetric])
qed

lemma char_at_drop: "char_at b i = (case drop i b of [] \<Rightarrow> NUL | c # _ \<Rightarrow> c)"
  by (cases "i < length b") (auto simp: char_at_def Cons_nth_drop_Suc[symmetric])

text \<open>The lexemes from a position on.\<close>

definition at_lex :: "string \<Rightarrow> nat \<Rightarrow> string list \<Rightarrow> bool" where
  "at_lex b i ts \<longleftrightarrow> i \<le> length b \<and> dropWhile is_space (drop i b) = unlex ts \<and> (\<forall>t\<in>set ts. lexeme t)"

lemma at_lex_skip: "at_lex b i ts \<Longrightarrow> at_lex b (skip_space b i) ts \<and> drop (skip_space b i) b = unlex ts"
proof -
  assume *: "at_lex b i ts"
  then have d: "drop (skip_space b i) b = unlex ts" by (simp add: at_lex_def drop_skip_space)
  moreover have "dropWhile is_space (unlex ts) = unlex ts"
  proof (cases ts)
    case (Cons t us)
    then have "t \<noteq> []" "\<not> is_space (hd t)" using * lexeme_hd by (auto simp: at_lex_def)
    then show ?thesis using Cons by (cases t) auto
  qed simp
  ultimately show ?thesis using * skip_space_le[of i b] by (simp add: at_lex_def)
qed

lemma peek_lex:
  assumes "at_lex b i ts" "NUL \<notin> set toks"
  shows "\<exists>j. peek b i toks = (j, ts \<noteq> [] \<and> hd (hd ts) \<in> set toks) \<and> at_lex b j ts \<and> i \<le> j"
proof -
  let ?j = "skip_space b i"
  have j: "at_lex b ?j ts" "drop ?j b = unlex ts" using at_lex_skip[OF assms(1)] by auto
  have "char_at b ?j = (if ts = [] then NUL else hd (hd ts))"
  proof (cases ts)
    case (Cons t us)
    then have "t \<noteq> []" using assms(1) lexeme_hd by (auto simp: at_lex_def)
    then show ?thesis using j(2) Cons by (cases t) (auto simp: char_at_drop)
  qed (use j(2) in \<open>simp add: char_at_drop\<close>)
  moreover have "hd (hd ts) \<noteq> NUL" if "ts \<noteq> []" using that assms(1) lexeme_hd[of "hd ts"] by (auto simp: at_lex_def)
  moreover have "(strchr toks c \<noteq> None) = (c \<in> set toks)" for c using assms(2) by (simp add: strchr_no_NUL)
  ultimately show ?thesis using j(1) skip_space_le[of i b] by (auto simp: peek_def Let_def)
qed

lemma next_lex:
  assumes "at_lex b j (t # ts)" "drop j b = unlex (t # ts)" "e = j + length t"
  shows "at_lex b (skip_space b e) ts" "j < skip_space b e" "slice b (j, e) = t"
proof -
  have len: "length b - j = length t + 1 + length (unlex ts)" using arg_cong[OF assms(2), of length] by simp
  have d: "drop e b = CHR '' '' # unlex ts" using assms(2) drop_drop[of "length t" j b] unfolding assms(3) by (simp add: add.commute)
  have t: "t \<noteq> []" using assms(1) lexeme_hd by (auto simp: at_lex_def)
  have "dropWhile is_space (drop e b) = unlex ts"
  proof (cases ts)
    case (Cons u us)
    then have "u \<noteq> []" "\<not> is_space (hd u)" using assms(1) lexeme_hd by (auto simp: at_lex_def)
    then show ?thesis using Cons d by (cases u) auto
  qed (use d in simp)
  then have "at_lex b e ts" using assms(1,3) len by (auto simp: at_lex_def)
  then show "at_lex b (skip_space b e) ts" using at_lex_skip by blast
  show "j < skip_space b e" using skip_space_le[of e b] assms(3) t by (cases t) auto
  show "slice b (j, e) = t" using assms(2,3) by (simp add: slice_def)
qed

lemma gettoken_lex_word:
  assumes "at_lex b i (t # ts)" "word t"
  shows "\<exists>q e k. gettoken b i = (CHR ''a'', q, e, k) \<and> at_lex b k ts \<and> i < k \<and> slice b (q, e) = t"
proof -
  let ?q = "skip_space b i"
  have q: "at_lex b ?q (t # ts)" "drop ?q b = unlex (t # ts)" using at_lex_skip[OF assms(1)] by auto
  have c: "char_at b ?q = hd t" "t \<noteq> []" using q(2) assms(2) by (cases t; auto simp: char_at_drop word_def)+
  have "dropWhile (\<lambda>x. \<not> is_space x \<and> \<not> is_symbol x) (unlex (t # ts)) = drop (length t) (unlex (t # ts))"
    using assms(2) by (simp add: word_def dropWhile_append)
  then have "drop (skip_word b ?q) b = drop (?q + length t) b"
    using drop_skip_word[of b ?q] q(2) drop_drop[of "length t" ?q b] by (simp add: add.commute)
  then have "length b - skip_word b ?q = length b - (?q + length t)" by (metis length_drop)
  moreover have "?q + length t < length b" using arg_cong[OF q(2), of length] by simp
  ultimately have e: "skip_word b ?q = ?q + length t" using skip_word_le[of ?q b] by linarith
  have "hd t \<noteq> NUL" "\<not> is_symbol (hd t)" using assms(2) word_hd lexeme_hd word_lexeme by blast+
  then have "token_at b ?q = (CHR ''a'', ?q + length t)" using c e by (auto simp: token_at_def symbols_cases)
  then show ?thesis using next_lex[OF q, of "?q + length t"] skip_space_le[of i b]
    by (auto simp: gettoken_def Let_def intro: le_less_trans)
qed

lemma gettoken_lex_symbol:
  assumes "at_lex b i ([c] # ts)" "c \<in> set ''|();&<>''"
  shows "\<exists>q e k. gettoken b i = (c, q, e, k) \<and> at_lex b k ts \<and> i < k"
proof -
  let ?q = "skip_space b i"
  have q: "at_lex b ?q ([c] # ts)" "drop ?q b = unlex ([c] # ts)" using at_lex_skip[OF assms(1)] by auto
  have "drop (Suc ?q) b = CHR '' '' # unlex ts" using q(2) by (simp add: drop_Suc drop_tl)
  then have "char_at b ?q = c" "char_at b (Suc ?q) = CHR '' ''" using q(2) by (auto simp: char_at_drop)
  then have "token_at b ?q = (c, ?q + length [c])" using assms(2) by (auto simp: token_at_def)
  then show ?thesis using next_lex[OF q, of "?q + length [c]"] skip_space_le[of i b]
    by (auto simp: gettoken_def Let_def intro: le_less_trans)
qed

lemma gettoken_lex_end:
  assumes "at_lex b i []"
  shows "\<exists>q e k. gettoken b i = (NUL, q, e, k) \<and> at_lex b k [] \<and> i \<le> k"
proof -
  let ?q = "skip_space b i"
  have q: "at_lex b ?q []" "drop ?q b = []" using at_lex_skip[OF assms] by auto
  then have "char_at b ?q = NUL" by (simp add: char_at_drop)
  then have "gettoken b i = (NUL, ?q, ?q, skip_space b ?q)" by (simp add: gettoken_def token_at_def Let_def)
  then show ?thesis using at_lex_skip[OF q(1)] skip_space_le[of i b] skip_space_le[of ?q b] by (auto intro: order_trans)
qed

lemma next_pos_lex:
  assumes "at_lex b i ([c] # ts)" "c \<in> set ''|();&<>''"
  shows "at_lex b (next_pos b i) ts" "i < next_pos b i"
  using gettoken_lex_symbol[OF assms] by (auto simp: next_pos_def)

section \<open>The loops of the parser\<close>

fun redir_lex :: "string \<times> uint \<times> nat \<Rightarrow> string list" where
  "redir_lex (f, m, d) = [[if m = RD then CHR ''<'' else CHR ''>''], f]"

definition wf_redir :: "string \<times> uint \<times> nat \<Rightarrow> bool" where
  "wf_redir r = (case r of (f, m, d) \<Rightarrow> word f \<and> (m = RD \<and> d = 0 \<or> m = WR \<and> d = 1))"

definition with_redirs :: "'w cmd \<Rightarrow> ('w \<times> uint \<times> nat) list \<Rightarrow> 'w cmd" where
  "with_redirs c rs = foldl (\<lambda>c (f, m, d). REDIR c f m d) c rs"

lemma with_redirs_simps [simp]:
  "with_redirs c [] = c" "with_redirs c ((f, m, d) # rs) = with_redirs (REDIR c f m d) rs"
  by (simp_all add: with_redirs_def)

text \<open>The lexemes that end a simple command, a pipeline and a list element.\<close>

definition stops :: "string \<Rightarrow> string list \<Rightarrow> bool" where
  "stops cs ts \<longleftrightarrow> ts = [] \<or> hd (hd ts) \<in> set cs"

lemma parseredirs_lex:
  assumes "at_lex b i (concat (map redir_lex rs) @ ts)" "\<forall>r\<in>set rs. wf_redir r" "ts = [] \<or> hd (hd ts) \<notin> set ''<>''"
    "map_cmd (slice b) c' = c"
  shows "\<exists>d j. parseredirs c' b i = Done d j \<and> at_lex b j ts \<and> i \<le> j \<and> map_cmd (slice b) d = with_redirs c rs"
  using assms
proof (induction rs arbitrary: i c c')
  case Nil
  then obtain j where "peek b i ''<>'' = (j, False)" "at_lex b j ts" "i \<le> j" using peek_lex[of b i ts "''<>''"] by auto
  then show ?case using Nil by (subst parseredirs.simps) auto
next
  case (Cons r rs)
  obtain f m d where r: "r = (f, m, d)" by (cases r)
  define s where "s = (if m = RD then CHR ''<'' else CHR ''>'')"
  have f: "word f" "m = RD \<and> d = 0 \<or> m = WR \<and> d = 1" using Cons.prems(2) r by (auto simp: wf_redir_def)
  have at: "at_lex b i ([s] # f # concat (map redir_lex rs) @ ts)" using Cons.prems(1) by (simp add: r s_def)
  have s: "s \<in> set ''<>''" "s \<in> set ''|();&<>''" by (simp_all add: s_def)
  obtain j where j: "peek b i ''<>'' = (j, True)" "at_lex b j ([s] # f # concat (map redir_lex rs) @ ts)" "i \<le> j"
    using peek_lex[OF at, of "''<>''"] s by auto
  obtain q0 e0 k where k: "gettoken b j = (s, q0, e0, k)" "at_lex b k (f # concat (map redir_lex rs) @ ts)" "j < k"
    using gettoken_lex_symbol[OF j(2) s(2)] by blast
  obtain q e l where l: "gettoken b k = (CHR ''a'', q, e, l)" "at_lex b l (concat (map redir_lex rs) @ ts)" "k < l" "slice b (q, e) = f"
    using gettoken_lex_word[OF k(2) f(1)] by blast
  have d: "redir_for c' s (q, e) = REDIR c' (q, e) m d" using f(2) by (auto simp: redir_for_def s_def)
  have "\<exists>d' j'. parseredirs (REDIR c' (q, e) m d) b l = Done d' j' \<and> at_lex b j' ts \<and> l \<le> j' \<and>
      map_cmd (slice b) d' = with_redirs (REDIR c f m d) rs"
    using Cons.IH[OF l(2) _ Cons.prems(3), of "REDIR c' (q, e) m d"] Cons.prems(2,4) l(4) by simp
  then show ?case using j k l d r by (subst parseredirs.simps) auto
qed

lemma parse_args_lex:
  assumes "at_lex b i (ws @ (if ws = [] then [] else concat (map redir_lex rs)) @ ts)" "\<forall>w\<in>set ws. word w"
    "\<forall>r\<in>set rs. wf_redir r" "stops ''|)&;'' ts"
    "map_cmd (slice b) c' = (if ws = [] then with_redirs (EXEC vs) rs else EXEC vs)" "argc + length ws < MAXARGS"
  shows "\<exists>d j. parse_args c' argc b i = Done d j \<and> at_lex b j ts \<and> i \<le> j \<and> map_cmd (slice b) d = with_redirs (EXEC (vs @ ws)) rs"
  using assms
proof (induction ws arbitrary: i c' vs argc)
  case Nil
  obtain j where j: "peek b i ''|)&;'' = (j, ts \<noteq> [])" "at_lex b j ts" "i \<le> j"
    using peek_lex[of b i ts "''|)&;''"] Nil.prems(1,4) by (auto simp: stops_def)
  show ?case
  proof (cases "ts = []")
    case True
    then obtain q e k where "gettoken b j = (NUL, q, e, k)" "at_lex b k ts" "j \<le> k" using gettoken_lex_end[of b j] j(2) by auto
    then show ?thesis using j True Nil.prems(5) by (subst parse_args.simps) auto
  next
    case False
    then show ?thesis using j Nil.prems(5) by (subst parse_args.simps) auto
  qed
next
  case (Cons w ws)
  let ?rest = "ws @ concat (map redir_lex rs) @ ts"
  have w: "word w" "\<not> is_symbol (hd w)" using Cons.prems(2) word_hd by auto
  have at: "at_lex b i (w # ?rest)" using Cons.prems(1) by simp
  obtain j where j: "peek b i ''|)&;'' = (j, False)" "at_lex b j (w # ?rest)" "i \<le> j"
    using peek_lex[OF at, of "''|)&;''"] w(2) by (auto simp: symbols_cases)
  obtain q e k where k: "gettoken b j = (CHR ''a'', q, e, k)" "at_lex b k ?rest" "j < k" "slice b (q, e) = w"
    using gettoken_lex_word[OF j(2) w(1)] by blast
  have argc: "\<not> MAXARGS \<le> Suc argc" "Suc argc + length ws < MAXARGS" using Cons.prems(6) by auto
  have c': "map_cmd (slice b) (add_arg c' (q, e)) = EXEC (vs @ [w])" using Cons.prems(5) k(4) by (simp add: add_arg_simps)
  define us where "us = (if ws = [] then [] else concat (map redir_lex rs))"
  have "\<exists>d l. parseredirs (add_arg c' (q, e)) b k = Done d l \<and> at_lex b l (ws @ us @ ts) \<and> k \<le> l \<and>
      map_cmd (slice b) d = (if ws = [] then with_redirs (EXEC (vs @ [w])) rs else EXEC (vs @ [w]))"
  proof (cases ws)
    case Nil
    have "ts = [] \<or> hd (hd ts) \<notin> set ''<>''" using Cons.prems(4) by (auto simp: stops_def)
    then show ?thesis using parseredirs_lex[OF _ _ _ c', of k rs ts] k(2) Cons.prems(3) Nil by (simp add: us_def)
  next
    case (Cons v ws')
    then have "hd (hd (ws @ us @ ts)) \<notin> set ''<>''" using \<open>\<forall>w\<in>set (w # ws). word w\<close> word_hd[of v] by (auto simp: symbols_cases)
    then show ?thesis using parseredirs_lex[OF _ _ _ c', of k "[]" "ws @ us @ ts"] k(2) Cons by (simp add: us_def)
  qed
  then obtain d l where d: "parseredirs (add_arg c' (q, e)) b k = Done d l" "at_lex b l (ws @ us @ ts)" "k \<le> l"
    "map_cmd (slice b) d = (if ws = [] then with_redirs (EXEC (vs @ [w])) rs else EXEC (vs @ [w]))" by blast
  have "\<exists>d' j. parse_args d (Suc argc) b l = Done d' j \<and> at_lex b j ts \<and> l \<le> j \<and>
      map_cmd (slice b) d' = with_redirs (EXEC ((vs @ [w]) @ ws)) rs"
    using Cons.IH[OF d(2)[unfolded us_def] _ Cons.prems(3,4) d(4) argc(2)] Cons.prems(2) by simp
  then show ?case using j k d argc by (subst parse_args.simps) auto
qed

lemma parse_backs_lex:
  assumes "at_lex b i (replicate k ''&'' @ ts)" "ts = [] \<or> hd (hd ts) \<noteq> CHR ''&''" "map_cmd (slice b) c' = c"
  shows "\<exists>d j. parse_backs c' b i = (d, j) \<and> at_lex b j ts \<and> i \<le> j \<and> map_cmd (slice b) d = (BACK ^^ k) c"
  using assms
proof (induction k arbitrary: i c c')
  case 0
  then obtain j where "peek b i ''&'' = (j, False)" "at_lex b j ts" "i \<le> j" using peek_lex[of b i ts "''&''"] by auto
  then show ?case using 0 by (subst parse_backs.simps) auto
next
  case (Suc k)
  then obtain j where j: "peek b i ''&'' = (j, True)" "at_lex b j (''&'' # replicate k ''&'' @ ts)" "i \<le> j"
    using peek_lex[of b i "''&'' # replicate k ''&'' @ ts" "''&''"] by auto
  note n = next_pos_lex[OF j(2)]
  have "\<exists>d l. parse_backs (BACK c') b (next_pos b j) = (d, l) \<and> at_lex b l ts \<and> next_pos b j \<le> l \<and> map_cmd (slice b) d = (BACK ^^ k) (BACK c)"
    using Suc.IH[OF n(1) Suc.prems(2), of "BACK c'"] Suc.prems(3) by simp
  then show ?case using j n(2) by (subst parse_backs.simps) (auto simp: funpow_swap1)
qed

section \<open>The levels of the grammar\<close>

text \<open>The function \<open>p\<close> reads the lexemes \<open>us\<close> as the command \<open>c\<close>, before a lexeme of \<open>cs\<close> or at the end of the line.\<close>

definition reads :: "(nat \<Rightarrow> string \<Rightarrow> nat \<Rightarrow> token cmd parse) \<Rightarrow> nat \<Rightarrow> string list \<Rightarrow> string \<Rightarrow> string cmd \<Rightarrow> bool" where
  "reads p d us cs c \<longleftrightarrow> (\<forall>b i n ts. at_lex b i (us @ ts) \<longrightarrow> stops cs ts \<longrightarrow> 4 * (length b - i) + d \<le> n \<longrightarrow>
     (\<exists>c' j. p n b i = Done c' j \<and> at_lex b j ts \<and> i \<le> j \<and> map_cmd (slice b) c' = c))"

lemma readsI:
  assumes "\<And>b i n ts. at_lex b i (us @ ts) \<Longrightarrow> stops cs ts \<Longrightarrow> 4 * (length b - i) + d \<le> Suc n \<Longrightarrow>
     \<exists>c' j. p (Suc n) b i = Done c' j \<and> at_lex b j ts \<and> i \<le> j \<and> map_cmd (slice b) c' = c" "0 < d"
  shows "reads p d us cs c"
  unfolding reads_def
proof (intro allI impI)
  fix b i n ts assume "at_lex b i (us @ ts)" "stops cs ts" "4 * (length b - i) + d \<le> n"
  then show "\<exists>c' j. p n b i = Done c' j \<and> at_lex b j ts \<and> i \<le> j \<and> map_cmd (slice b) c' = c"
    using assms(1)[of b i ts "n - 1"] assms(2) by (cases n) auto
qed

lemma readsD:
  assumes "reads p d us cs c" "at_lex b i (us @ ts)" "stops cs ts" "4 * (length b - i) + d \<le> n"
  obtains c' j where "p n b i = Done c' j" "at_lex b j ts" "i \<le> j" "map_cmd (slice b) c' = c"
  using assms unfolding reads_def by blast

text \<open>\<^verbatim>\<open>parsepipe\<close> with the ampersands after it, the first half of \<^verbatim>\<open>parseline\<close>.\<close>

definition parseback :: "nat \<Rightarrow> string \<Rightarrow> nat \<Rightarrow> token cmd parse" where
  "parseback n b i = (case parsepipe n b i of Done c j \<Rightarrow> (let (d, k) = parse_backs c b j in Done d k) | e \<Rightarrow> e)"

definition reads_atom :: "string cmd \<Rightarrow> bool" where
  "reads_atom c \<longleftrightarrow> (\<forall>rs. (\<forall>r\<in>set rs. wf_redir r) \<longrightarrow>
     reads parseexec 2 (show_cmd c Atom @ concat (map redir_lex rs)) ''|)&;'' (with_redirs c rs))"

definition reads_pipe :: "string cmd \<Rightarrow> bool" where
  "reads_pipe c \<longleftrightarrow> reads parsepipe 3 (show_cmd c Pipe) '')&;'' c"

definition reads_back :: "string cmd \<Rightarrow> bool" where
  "reads_back c \<longleftrightarrow> (\<forall>k. reads parseback 3 (show_cmd c Back @ replicate k ''&'') '');'' ((BACK ^^ k) c))"

definition reads_line :: "string cmd \<Rightarrow> bool" where
  "reads_line c \<longleftrightarrow> reads parseline 4 (show_cmd c Line) '')'' c"

lemma reads_atomD: "reads_atom c \<Longrightarrow> reads parseexec 2 (show_cmd c Atom) ''|)&;'' c"
  using with_redirs_simps(1) unfolding reads_atom_def by (metis append_Nil2 concat.simps(1) empty_iff list.map(1) list.set(1))

lemma stops_mono: "stops cs ts \<Longrightarrow> set cs \<subseteq> set cs' \<Longrightarrow> stops cs' ts"
  by (auto simp: stops_def)

lemma reads_EXEC:
  assumes "wf_cmd (EXEC ws)"
  shows "reads_atom (EXEC ws)"
  unfolding reads_atom_def
proof (intro allI impI readsI)
  fix rs b i n ts
  assume rs: "\<forall>r\<in>set rs. wf_redir r" and "at_lex b i ((show_cmd (EXEC ws) Atom @ concat (map redir_lex rs)) @ ts)"
    and ts: "stops ''|)&;'' ts"
  then have at: "at_lex b i (ws @ concat (map redir_lex rs) @ ts)" by simp
  have hd_ts: "ts = [] \<or> hd (hd ts) \<notin> set ''(<>''" using ts by (auto simp: stops_def)
  define us where "us = (if ws = [] then [] else concat (map redir_lex rs))"
  have first: "hd (hd (ws @ concat (map redir_lex rs) @ ts)) \<noteq> CHR ''(''" if "ws @ concat (map redir_lex rs) @ ts \<noteq> []"
  proof (cases ws)
    case Nil
    then show ?thesis using that hd_ts by (cases rs) (auto split: if_splits)
  next
    case (Cons w ws')
    then show ?thesis using assms word_hd[of w] by (auto simp: symbols_cases)
  qed
  then have no_block: "(ws @ concat (map redir_lex rs) @ ts \<noteq> [] \<and> hd (hd (ws @ concat (map redir_lex rs) @ ts)) \<in> set ''('') = False"
    by (metis empty_iff list.set(1) set_ConsD)
  obtain j where j: "peek b i ''('' = (j, False)" "at_lex b j (ws @ concat (map redir_lex rs) @ ts)" "i \<le> j"
    using peek_lex[OF at, of "''(''"] unfolding no_block by auto
  have "\<exists>d k. parseredirs (EXEC []) b j = Done d k \<and> at_lex b k (ws @ us @ ts) \<and> j \<le> k \<and>
      map_cmd (slice b) d = (if ws = [] then with_redirs (EXEC []) rs else EXEC [])"
  proof (cases ws)
    case Nil
    then show ?thesis using parseredirs_lex[of b j rs ts "EXEC []" "EXEC []"] j(2) rs hd_ts by (auto simp: us_def)
  next
    case (Cons w ws')
    then have "hd (hd (ws @ us @ ts)) \<notin> set ''<>''" using assms word_hd[of w] by (auto simp: symbols_cases)
    then show ?thesis using parseredirs_lex[of b j "[]" "ws @ us @ ts" "EXEC []" "EXEC []"] j(2) Cons by (simp add: us_def)
  qed
  then obtain d k where d: "parseredirs (EXEC []) b j = Done d k" "at_lex b k (ws @ us @ ts)" "j \<le> k"
    "map_cmd (slice b) d = (if ws = [] then with_redirs (EXEC []) rs else EXEC [])" by blast
  have "\<exists>d' l. parse_args d 0 b k = Done d' l \<and> at_lex b l ts \<and> k \<le> l \<and> map_cmd (slice b) d' = with_redirs (EXEC ([] @ ws)) rs"
    using parse_args_lex[OF d(2)[unfolded us_def] _ rs ts d(4), of 0] assms by simp
  then show "\<exists>c' j. parseexec (Suc n) b i = Done c' j \<and> at_lex b j ts \<and> i \<le> j \<and> map_cmd (slice b) c' = with_redirs (EXEC ws) rs"
    using j d by auto
qed simp

lemma reads_REDIR:
  assumes "reads_atom c" "wf_redir (f, m, d)"
  shows "reads_atom (REDIR c f m d)"
  unfolding reads_atom_def
proof (intro allI impI)
  fix rs assume "\<forall>r\<in>set rs. wf_redir r"
  then have "reads parseexec 2 (show_cmd c Atom @ concat (map redir_lex ((f, m, d) # rs))) ''|)&;'' (with_redirs c ((f, m, d) # rs))"
    using assms unfolding reads_atom_def by (metis set_ConsD)
  then show "reads parseexec 2 (show_cmd (REDIR c f m d) Atom @ concat (map redir_lex rs)) ''|)&;'' (with_redirs (REDIR c f m d) rs)"
    by (simp split: if_splits)
qed

lemma reads_block:
  assumes "reads_line c" "show_cmd c Atom = [''(''] @ show_cmd c Line @ ['')'']"
  shows "reads_atom c"
  unfolding reads_atom_def
proof (intro allI impI)
  fix rs assume rs: "\<forall>r\<in>set rs. wf_redir r"
  show "reads parseexec 2 (show_cmd c Atom @ concat (map redir_lex rs)) ''|)&;'' (with_redirs c rs)"
    unfolding reads_def
  proof (intro allI impI)
    fix b i n ts
    assume "at_lex b i ((show_cmd c Atom @ concat (map redir_lex rs)) @ ts)" and ts: "stops ''|)&;'' ts" and n: "4 * (length b - i) + 2 \<le> n"
    then have at: "at_lex b i (''('' # show_cmd c Line @ '')'' # concat (map redir_lex rs) @ ts)" by (simp add: assms(2))
    obtain n' where n': "n = Suc (Suc n')" using n by (metis add_2_eq_Suc' le_add2 le_Suc_ex add.commute order_trans)
    obtain j where j: "peek b i ''('' = (j, True)" "at_lex b j (''('' # show_cmd c Line @ '')'' # concat (map redir_lex rs) @ ts)" "i \<le> j"
      using peek_lex[OF at, of "''(''"] by auto
    obtain j2 where j2: "peek b j ''('' = (j2, True)" "at_lex b j2 (''('' # show_cmd c Line @ '')'' # concat (map redir_lex rs) @ ts)" "j \<le> j2"
      using peek_lex[OF j(2), of "''(''"] by auto
    note k = next_pos_lex[OF j2(2)]
    have fuel: "4 * (length b - next_pos b j2) + 4 \<le> n'"
      using n n' k(2) j(3) j2(3) peek_progress(3)[OF j2(1)] by simp
    obtain c' l where l: "parseline n' b (next_pos b j2) = Done c' l" "at_lex b l ('')'' # concat (map redir_lex rs) @ ts)"
        "next_pos b j2 \<le> l" "map_cmd (slice b) c' = c"
      using readsD[OF assms(1)[unfolded reads_line_def] k(1) _ fuel] by (auto simp: stops_def)
    obtain o' where o': "peek b l '')'' = (o', True)" "at_lex b o' ('')'' # concat (map redir_lex rs) @ ts)" "l \<le> o'"
      using peek_lex[OF l(2), of "'')''"] by auto
    note p = next_pos_lex[OF o'(2)]
    have "ts = [] \<or> hd (hd ts) \<notin> set ''<>''" using ts by (auto simp: stops_def)
    then obtain d m where "parseredirs c' b (next_pos b o') = Done d m" "at_lex b m ts" "next_pos b o' \<le> m" "map_cmd (slice b) d = with_redirs c rs"
      using parseredirs_lex[OF p(1) rs _ l(4)] by auto
    then show "\<exists>c' j. parseexec n b i = Done c' j \<and> at_lex b j ts \<and> i \<le> j \<and> map_cmd (slice b) c' = with_redirs c rs"
      using j j2 k(2) l o' p(2) n' by auto
  qed
qed

lemma reads_pipe_atom:
  assumes "reads_atom c" "show_cmd c Pipe = show_cmd c Atom"
  shows "reads_pipe c"
  unfolding reads_pipe_def assms(2)
proof (rule readsI)
  fix b i n ts
  assume at: "at_lex b i (show_cmd c Atom @ ts)" and ts: "stops '')&;'' ts" and n: "4 * (length b - i) + 3 \<le> Suc n"
  obtain c' j where j: "parseexec n b i = Done c' j" "at_lex b j ts" "i \<le> j" "map_cmd (slice b) c' = c"
    using readsD[OF reads_atomD[OF assms(1)] at] n stops_mono[OF ts, of "''|)&;''"] by auto
  obtain k where "peek b j ''|'' = (k, False)" "at_lex b k ts" "j \<le> k"
    using peek_lex[OF j(2), of "''|''"] ts by (auto simp: stops_def)
  then show "\<exists>c' j. parsepipe (Suc n) b i = Done c' j \<and> at_lex b j ts \<and> i \<le> j \<and> map_cmd (slice b) c' = c"
    using j by auto
qed simp

lemma reads_PIPE:
  assumes "reads_atom l" "reads_pipe r"
  shows "reads_pipe (PIPE l r)"
  unfolding reads_pipe_def
proof (rule readsI)
  fix b i n ts
  assume "at_lex b i (show_cmd (PIPE l r) Pipe @ ts)" and ts: "stops '')&;'' ts" and n: "4 * (length b - i) + 3 \<le> Suc n"
  then have at: "at_lex b i (show_cmd l Atom @ ''|'' # show_cmd r Pipe @ ts)" by (simp add: block_if_def)
  obtain l' j where j: "parseexec n b i = Done l' j" "at_lex b j (''|'' # show_cmd r Pipe @ ts)" "i \<le> j" "map_cmd (slice b) l' = l"
    using readsD[OF reads_atomD[OF assms(1)] at] n by (auto simp: stops_def)
  obtain k where k: "peek b j ''|'' = (k, True)" "at_lex b k (''|'' # show_cmd r Pipe @ ts)" "j \<le> k"
    using peek_lex[OF j(2), of "''|''"] by auto
  note m = next_pos_lex[OF k(2)]
  have fuel: "4 * (length b - next_pos b k) + 3 \<le> n" using n m(2) j(3) k(3) peek_progress(3)[OF k(1)] by simp
  obtain r' o' where "parsepipe n b (next_pos b k) = Done r' o'" "at_lex b o' ts" "next_pos b k \<le> o'" "map_cmd (slice b) r' = r"
    using readsD[OF assms(2)[unfolded reads_pipe_def] m(1) ts fuel] by auto
  then show "\<exists>c' j. parsepipe (Suc n) b i = Done c' j \<and> at_lex b j ts \<and> i \<le> j \<and> map_cmd (slice b) c' = PIPE l r"
    using j k m(2) by auto
qed simp

lemma reads_back_pipe:
  assumes "reads_pipe c" "show_cmd c Back = show_cmd c Pipe"
  shows "reads_back c"
  unfolding reads_back_def assms(2)
proof (intro allI readsI)
  fix k b i n ts
  assume "at_lex b i ((show_cmd c Pipe @ replicate k ''&'') @ ts)" and ts: "stops '');'' ts" and n: "4 * (length b - i) + 3 \<le> Suc n"
  then have at: "at_lex b i (show_cmd c Pipe @ replicate k ''&'' @ ts)" by simp
  have "stops '')&;'' (replicate k ''&'' @ ts)" using ts by (cases k) (auto simp: stops_def)
  then obtain c' j where j: "parsepipe (Suc n) b i = Done c' j" "at_lex b j (replicate k ''&'' @ ts)" "i \<le> j" "map_cmd (slice b) c' = c"
    using readsD[OF assms(1)[unfolded reads_pipe_def] at _ n] by blast
  have "ts = [] \<or> hd (hd ts) \<noteq> CHR ''&''" using ts by (auto simp: stops_def)
  then obtain d l where "parse_backs c' b j = (d, l)" "at_lex b l ts" "j \<le> l" "map_cmd (slice b) d = (BACK ^^ k) c"
    using parse_backs_lex[OF j(2) _ j(4)] by blast
  then show "\<exists>c' j. parseback (Suc n) b i = Done c' j \<and> at_lex b j ts \<and> i \<le> j \<and> map_cmd (slice b) c' = (BACK ^^ k) c"
    using j by (auto simp: parseback_def)
qed simp

lemma reads_BACK:
  assumes "reads_back c"
  shows "reads_back (BACK c)"
  unfolding reads_back_def
proof
  fix k
  have "show_cmd (BACK c) Back @ replicate k ''&'' = show_cmd c Back @ replicate (Suc k) ''&''" by (simp add: block_if_def)
  moreover have "(BACK ^^ k) (BACK c) = (BACK ^^ Suc k) c" by (simp add: funpow_swap1)
  ultimately show "reads parseback 3 (show_cmd (BACK c) Back @ replicate k ''&'') '');'' ((BACK ^^ k) (BACK c))"
    using assms unfolding reads_back_def by metis
qed

lemma reads_backD: "reads_back c \<Longrightarrow> reads parseback 3 (show_cmd c Back) '');'' c"
  unfolding reads_back_def by (metis append_Nil2 funpow_0 replicate_0)

lemma parseline_back:
  "parseline (Suc n) b i =
     (case parseback n b i of
        Done c k \<Rightarrow>
          (let (l, found) = peek b k '';'' in
           if found then (case parseline n b (next_pos b l) of Done r m \<Rightarrow> Done (LIST c r) m | e \<Rightarrow> e)
           else Done c l)
      | e \<Rightarrow> e)"
  by (simp add: parseback_def split: parse.split prod.split)

lemma reads_line_back:
  assumes "reads_back c" "show_cmd c Line = show_cmd c Back"
  shows "reads_line c"
  unfolding reads_line_def assms(2)
proof (rule readsI)
  fix b i n ts
  assume at: "at_lex b i (show_cmd c Back @ ts)" and ts: "stops '')'' ts" and n: "4 * (length b - i) + 4 \<le> Suc n"
  obtain c' j where j: "parseback n b i = Done c' j" "at_lex b j ts" "i \<le> j" "map_cmd (slice b) c' = c"
    using readsD[OF reads_backD[OF assms(1)] at stops_mono[OF ts], of n] n by auto
  obtain k where "peek b j '';'' = (k, False)" "at_lex b k ts" "j \<le> k"
    using peek_lex[OF j(2), of "'';''"] ts by (auto simp: stops_def)
  then show "\<exists>c' j. parseline (Suc n) b i = Done c' j \<and> at_lex b j ts \<and> i \<le> j \<and> map_cmd (slice b) c' = c"
    unfolding parseline_back using j by auto
qed simp

lemma reads_LIST:
  assumes "reads_back l" "reads_line r"
  shows "reads_line (LIST l r)"
  unfolding reads_line_def
proof (rule readsI)
  fix b i n ts
  assume "at_lex b i (show_cmd (LIST l r) Line @ ts)" and ts: "stops '')'' ts" and n: "4 * (length b - i) + 4 \<le> Suc n"
  then have at: "at_lex b i (show_cmd l Back @ '';'' # show_cmd r Line @ ts)" by (simp add: block_if_def)
  obtain l' j where j: "parseback n b i = Done l' j" "at_lex b j ('';'' # show_cmd r Line @ ts)" "i \<le> j" "map_cmd (slice b) l' = l"
    using readsD[OF reads_backD[OF assms(1)] at, of n] n by (auto simp: stops_def)
  obtain k where k: "peek b j '';'' = (k, True)" "at_lex b k ('';'' # show_cmd r Line @ ts)" "j \<le> k"
    using peek_lex[OF j(2), of "'';''"] by auto
  note m = next_pos_lex[OF k(2)]
  have fuel: "4 * (length b - next_pos b k) + 4 \<le> n" using n m(2) j(3) k(3) peek_progress(3)[OF k(1)] by simp
  obtain r' o' where "parseline n b (next_pos b k) = Done r' o'" "at_lex b o' ts" "next_pos b k \<le> o'" "map_cmd (slice b) r' = r"
    using readsD[OF assms(2)[unfolded reads_line_def] m(1) ts fuel] by auto
  then show "\<exists>c' j. parseline (Suc n) b i = Done c' j \<and> at_lex b j ts \<and> i \<le> j \<and> map_cmd (slice b) c' = LIST l r"
    unfolding parseline_back using j k m(2) by auto
qed simp

lemma reads_all:
  "wf_cmd c \<Longrightarrow> reads_atom c \<and> reads_pipe c \<and> reads_back c \<and> reads_line c"
proof (induction c)
  case (EXEC ws)
  then have a: "reads_atom (EXEC ws)" by (rule reads_EXEC)
  then show ?case by (simp add: reads_pipe_atom reads_back_pipe reads_line_back)
next
  case (REDIR c f m d)
  then have "reads_atom (REDIR c f m d)" by (intro reads_REDIR) (auto simp: wf_redir_def)
  then show ?case by (simp add: reads_pipe_atom reads_back_pipe reads_line_back)
next
  case (PIPE l r)
  then have "reads_pipe (PIPE l r)" by (simp add: reads_PIPE)
  then show ?case by (simp add: reads_back_pipe reads_line_back reads_block block_if_def)
next
  case (LIST l r)
  then have "reads_line (LIST l r)" by (simp add: reads_LIST)
  then show ?case by (simp add: reads_block reads_pipe_atom reads_back_pipe block_if_def)
next
  case (BACK c)
  then have "reads_back (BACK c)" by (simp add: reads_BACK)
  then show ?case by (simp add: reads_line_back reads_block reads_pipe_atom block_if_def)
qed

section \<open>Properties\<close>

lemma lexeme_symbols:
  "lexeme ''|''" "lexeme ''&''" "lexeme '';''" "lexeme ''(''" "lexeme '')''" "lexeme ''<''" "lexeme ''>''"
  by (simp_all add: lexeme_def)

lemma block_if_lexemes: "(\<forall>t\<in>set (block_if p ts). lexeme t) \<longleftrightarrow> (\<forall>t\<in>set ts. lexeme t)"
  by (simp add: block_if_def lexeme_symbols ball_Un)

lemma show_lexemes: "wf_cmd c \<Longrightarrow> \<forall>t\<in>set (show_cmd c lev). lexeme t"
  by (induction c arbitrary: lev) (simp_all add: block_if_lexemes lexeme_symbols word_lexeme ball_Un)

lemma lexeme_NUL: "NUL \<notin> set t" if "lexeme t"
proof (cases "word t")
  case True
  then show ?thesis unfolding word_def by blast
next
  case False
  then have "t \<in> {''|'', ''&'', '';'', ''('', '')'', ''<'', ''>''}" using that unfolding lexeme_def by blast
  then show ?thesis by (elim insertE emptyE) simp_all
qed

lemma lexemes_NUL: "\<forall>t\<in>set ts. lexeme t \<Longrightarrow> NUL \<notin> set (unlex ts)"
proof (induction ts)
  case (Cons t ts)
  then show ?case using lexeme_NUL[of t] by simp
qed simp

lemma at_lex_start: "\<forall>t\<in>set ts. lexeme t \<Longrightarrow> at_lex (unlex ts) 0 ts"
proof (cases ts)
  case (Cons t us)
  moreover assume "\<forall>t\<in>set ts. lexeme t"
  ultimately show ?thesis using lexeme_hd[of t] by (cases t) (auto simp: at_lex_def)
qed (simp add: at_lex_def)

text \<open>
  C7. The parser reads back what a command prints: for every command with words and redirections of the shell, nested in any
  way, the line with the lexemes of the command and parentheses around the blocks parses to that command. The words are read
  from the buffer that \<^verbatim>\<open>nulterminate\<close> has cut up, so arguments, files, modes and descriptors are those of the command.
\<close>

theorem parsecmd_show_line:
  assumes "wf_cmd c"
  shows "\<exists>d m. parsecmd (show_line c) = Done (d, m) (length (show_line c)) \<and> words_in m d = c"
proof -
  let ?ts = "show_cmd c Line" and ?b = "show_line c"
  have lex: "\<forall>t\<in>set ?ts. lexeme t" using show_lexemes[OF assms] by blast
  have at: "at_lex ?b 0 (?ts @ [])" using at_lex_start[OF lex] by (simp add: show_line_def)
  obtain d i where d: "parseline (4 * length ?b + 4) ?b 0 = Done d i" "at_lex ?b i []" "map_cmd (slice ?b) d = c"
    using readsD[OF _ at, of parseline 4 "'')''" c "4 * length ?b + 4"] reads_all[OF assms] by (auto simp: reads_line_def stops_def)
  have "skip_space ?b i = length ?b" using at_lex_skip[OF d(2)] by (simp add: at_lex_def)
  then have "parsecmd ?b = Done (d, nulterminate d (?b @ [NUL])) (length ?b)" using d(1) by (simp add: parsecmd_def peek_def Let_def)
  moreover have "NUL \<notin> set ?b" using lexemes_NUL[OF lex] by (simp add: show_line_def)
  ultimately show ?thesis using parsecmd_cases[of ?b] d(1,3) by auto
qed

definition sample_cmd :: "string cmd" where
  "sample_cmd = LIST (BACK (PIPE (REDIR (EXEC [''cat'']) ''f'' RD 0) (LIST (EXEC [''wc'', ''-l'']) (EXEC [])))) (EXEC [''ls''])"

lemma sample_line: "show_line sample_cmd = ''cat < f | ( wc -l ; ) & ; ls ''"
  by code_simp

theorem parsecmd_show_line_witness:
  "\<exists>d m n. parsecmd ''cat < f | ( wc -l ; ) & ; ls '' = Done (d, m) n \<and> words_in m d = sample_cmd"
proof -
  have "wf_cmd sample_cmd" by code_simp
  then show ?thesis using parsecmd_show_line[of sample_cmd] unfolding sample_line by blast
qed

end
