(* ===== verification/Sh_Run.thy ===== *)
theory Sh_Run
  imports Sh
begin

text \<open>
  The execution of commands by the shell (\<^verbatim>\<open>runcmd\<close>, \<^verbatim>\<open>getcmd\<close> and \<^verbatim>\<open>main\<close> of \<^verbatim>\<open>sh.c\<close>). A process is its table of descriptors; \<^verbatim>\<open>open\<close>,
  \<^verbatim>\<open>dup\<close> and \<^verbatim>\<open>pipe\<close> take the lowest free ones, as \<^verbatim>\<open>fdalloc\<close> of \<^verbatim>\<open>sysfile.c\<close> does. \<^verbatim>\<open>runcmd\<close> never returns; its meaning is the tree of the
  processes it forks and of the programs they execute, with the table of descriptors at every point where a process executes a program,
  waits or exits. Which calls of \<^verbatim>\<open>open\<close>, \<^verbatim>\<open>pipe\<close>, \<^verbatim>\<open>fork\<close> and \<^verbatim>\<open>exec\<close> the kernel grants is a parameter.
\<close>

section \<open>Descriptors\<close>

abbreviation (input) NOFILE :: nat where "NOFILE \<equiv> 16"

text \<open>What a descriptor refers to: something inherited, an opened file, or an end of a pipe. A pipe is named by the place in the
  command where it is made.\<close>

datatype fobj = Inherited nat | Opened string uint | ReadEnd "bool list" | WriteEnd "bool list"

type_synonym fdtable = "nat \<Rightarrow> fobj option"

definition fd_lowest :: "fdtable \<Rightarrow> nat option" where
  "fd_lowest t = List.find (\<lambda>i. t i = None) [0..<NOFILE]"

definition fd_install :: "fobj \<Rightarrow> fdtable \<Rightarrow> (nat \<times> fdtable) option" where
  "fd_install x t = map_option (\<lambda>i. (i, t(i \<mapsto> x))) (fd_lowest t)"

definition fd_close :: "nat \<Rightarrow> fdtable \<Rightarrow> fdtable" where
  "fd_close i t = t(i := None)"

text \<open>\<^verbatim>\<open>dup\<close>; the result that the shell ignores is left out.\<close>

definition fd_dup :: "nat \<Rightarrow> fdtable \<Rightarrow> fdtable" where
  "fd_dup i t = (case t i of None \<Rightarrow> t | Some x \<Rightarrow> (case fd_install x t of None \<Rightarrow> t | Some (_, u) \<Rightarrow> u))"

definition fd_pipe :: "bool list \<Rightarrow> fdtable \<Rightarrow> (nat \<times> nat \<times> fdtable) option" where
  "fd_pipe w t =
     (case fd_install (ReadEnd w) t of
        None \<Rightarrow> None
      | Some (i, u) \<Rightarrow> (case fd_install (WriteEnd w) u of None \<Rightarrow> None | Some (j, v) \<Rightarrow> Some (i, j, v)))"

section \<open>Running a command\<close>

text \<open>The answers of the kernel. A call is named by the place in the command where it is made, and \<^verbatim>\<open>fork\<close> also by its number there.\<close>

record os =
  os_open :: "bool list \<Rightarrow> string \<Rightarrow> uint \<Rightarrow> bool"
  os_pipe :: "bool list \<Rightarrow> bool"
  os_fork :: "bool list \<Rightarrow> nat \<Rightarrow> bool"
  os_exec :: "bool list \<Rightarrow> string \<Rightarrow> bool"

text \<open>
  A process executes a program, prints a message on descriptor 2 and exits, or exits; it forks a process and goes on, or it waits for a
  child and goes on. It carries its table of descriptors where it executes, exits or waits.
\<close>

datatype 'x task =
    Exec "string list" 'x
  | Message string 'x
  | Exit 'x
  | Fork "'x task" "'x task"
  | Wait 'x "'x task"

definition sh_panic :: "string \<Rightarrow> 'x \<Rightarrow> 'x task" where
  "sh_panic s t = Message (s @ [CHR 0x0A]) t"

text \<open>\<^verbatim>\<open>fork1\<close>, with the process of the child and what the parent, whose table is \<open>t\<close>, does next: a failing fork panics.\<close>

definition fork1 :: "os \<Rightarrow> bool list \<Rightarrow> nat \<Rightarrow> 'x task \<Rightarrow> 'x task \<Rightarrow> 'x \<Rightarrow> 'x task" where
  "fork1 os w k p q t = (if os_fork os w k then Fork p q else sh_panic ''fork'' t)"

fun runcmd :: "os \<Rightarrow> bool list \<Rightarrow> string cmd \<Rightarrow> fdtable \<Rightarrow> fdtable task" where
  "runcmd os w (EXEC ws) t =
     (if ws = [] then Exit t
      else if os_exec os w (hd ws) then Exec ws t
      else Message (''exec '' @ hd ws @ '' failed'' @ [CHR 0x0A]) t)"
| "runcmd os w (REDIR c f m d) t =
     (let t = fd_close d t in
      case (if os_open os w f m then fd_install (Opened f m) t else None) of
        None \<Rightarrow> Message (''open '' @ f @ '' failed'' @ [CHR 0x0A]) t
      | Some (_, t) \<Rightarrow> runcmd os (False # w) c t)"
| "runcmd os w (LIST l r) t = fork1 os w 0 (runcmd os (False # w) l t) (Wait t (runcmd os (True # w) r t)) t"
| "runcmd os w (PIPE l r) t =
     (case (if os_pipe os w then fd_pipe w t else None) of
        None \<Rightarrow> sh_panic ''pipe'' t
      | Some (i, j, t) \<Rightarrow>
          fork1 os w 0 (runcmd os (False # w) l (fd_close j (fd_close i (fd_dup j (fd_close 1 t)))))
         (fork1 os w 1 (runcmd os (True # w) r (fd_close j (fd_close i (fd_dup i (fd_close 0 t)))))
         (let t = fd_close j (fd_close i t) in Wait t (Wait t (Exit t))) t) t)"
| "runcmd os w (BACK c) t = fork1 os w 0 (runcmd os (False # w) c t) (Exit t) t"

section \<open>The loop of the shell\<close>

lemma fd_lowest_is: "fd_lowest t = Some i \<longleftrightarrow> i < NOFILE \<and> t i = None \<and> (\<forall>j < i. t j \<noteq> None)"
  unfolding fd_lowest_def find_Some_iff by auto

text \<open>The start of \<^verbatim>\<open>main\<close> opens the console until a descriptor above 2 comes back; \<open>ok\<close> is whether the console can be opened.\<close>

function open_console :: "bool \<Rightarrow> fdtable \<Rightarrow> fdtable" where
  "open_console ok t =
     (case (if ok then fd_install (Opened ''console'' 2) t else None) of
        None \<Rightarrow> t
      | Some (fd, t) \<Rightarrow> if 3 \<le> fd then fd_close fd t else open_console ok t)"
  by pat_completeness auto
termination
proof (relation "measure (\<lambda>(ok, t). card {i. i < 3 \<and> t i = None})", simp)
  fix ok and t :: fdtable and x :: "nat \<times> fdtable" and fd u
  assume "(if ok then fd_install (Opened ''console'' 2) t else None) = Some x" "(fd, u) = x" "\<not> 3 \<le> fd"
  then have "fd < 3" "t fd = None" "u = t(fd \<mapsto> Opened ''console'' 2)" by (auto simp: fd_install_def fd_lowest_is split: if_splits)
  then have "{i. i < 3 \<and> u i = None} \<subset> {i. i < 3 \<and> t i = None}" by (auto split: if_splits)
  then show "((ok, u), ok, t) \<in> measure (\<lambda>(ok, t). card {i. i < 3 \<and> t i = None})" by (simp add: psubset_card_mono)
qed

declare open_console.simps [simp del]

text \<open>\<^verbatim>\<open>getcmd\<close>: a line of at most 99 characters; at the end of the input there is none.\<close>

definition getcmd :: "string \<Rightarrow> (string \<times> string) option" where
  "getcmd inp = (let (buf, rest) = gets 100 inp in if buf = [] \<or> hd buf = NUL then None else Some (buf, rest))"

text \<open>What \<^verbatim>\<open>main\<close> does with a line: change the directory itself, or fork a process that parses and runs it.\<close>

datatype action = Chdir string | Run "(token cmd \<times> string) parse"

definition sh_action :: "string \<Rightarrow> action" where
  "sh_action buf =
     (let s = takeWhile (\<lambda>x. x \<noteq> NUL) buf in
      if take 3 s = ''cd '' then Chdir (drop 3 (butlast s)) else Run (parsecmd s))"

lemma gets_loop_split: "fst (gets_loop k inp) @ snd (gets_loop k inp) = inp"
  by (induction k inp rule: gets_loop.induct) (auto split: prod.splits)

lemma getcmd_shorter:
  assumes "getcmd inp = Some (buf, rest)"
  shows "length rest < length inp"
proof -
  have "buf \<noteq> []" "buf @ rest = inp"
    using assms gets_loop_split[of 99 inp] by (auto simp: getcmd_def gets_def split: prod.splits if_splits)
  then show ?thesis by auto
qed

function sh_main :: "string \<Rightarrow> action list" where
  "sh_main inp = (case getcmd inp of None \<Rightarrow> [] | Some (buf, rest) \<Rightarrow> sh_action buf # sh_main rest)"
  by pat_completeness auto
termination by (relation "measure length") (auto dest: getcmd_shorter)

declare sh_main.simps [simp del]

section \<open>The meaning of a command\<close>

text \<open>
  The specification knows only standard input and standard output: a redirection replaces one of them, a pipeline connects the
  output of its left side with the input of its right side.
\<close>

text \<open>Its processes also say whether that is all: both ends of a pipe are still open in the parent of a pipeline until it has forked
  both sides, and a descriptor is closed after its redirection has failed.\<close>

datatype extra = Plain | Ends "bool list" | Closed nat

fun wiring :: "os \<Rightarrow> bool list \<Rightarrow> string cmd \<Rightarrow> fobj \<times> fobj \<Rightarrow> ((fobj \<times> fobj) \<times> extra) task" where
  "wiring os w (EXEC ws) io =
     (if ws = [] then Exit (io, Plain)
      else if os_exec os w (hd ws) then Exec ws (io, Plain)
      else Message (''exec '' @ hd ws @ '' failed'' @ [CHR 0x0A]) (io, Plain))"
| "wiring os w (REDIR c f m d) io =
     (if os_open os w f m then wiring os (False # w) c (if d = 0 then (Opened f m, snd io) else (fst io, Opened f m))
      else Message (''open '' @ f @ '' failed'' @ [CHR 0x0A]) (io, Closed d))"
| "wiring os w (LIST l r) io =
     fork1 os w 0 (wiring os (False # w) l io) (Wait (io, Plain) (wiring os (True # w) r io)) (io, Plain)"
| "wiring os w (PIPE l r) io =
     (if os_pipe os w
      then fork1 os w 0 (wiring os (False # w) l (fst io, WriteEnd w))
          (fork1 os w 1 (wiring os (True # w) r (ReadEnd w, snd io))
          (Wait (io, Plain) (Wait (io, Plain) (Exit (io, Plain)))) (io, Ends w)) (io, Ends w)
      else sh_panic ''pipe'' (io, Plain))"
| "wiring os w (BACK c) io = fork1 os w 0 (wiring os (False # w) c io) (Exit (io, Plain)) (io, Plain)"

text \<open>The table of a process with the standard descriptors of the specification, and the other descriptors of the shell.\<close>

definition with_io :: "fdtable \<Rightarrow> fobj \<times> fobj \<Rightarrow> fdtable" where
  "with_io t io = t(0 \<mapsto> fst io, 1 \<mapsto> snd io)"

lemma with_io_simps [simp]:
  "with_io t io 0 = Some (fst io)" "with_io t io (Suc 0) = Some (snd io)" "1 < i \<Longrightarrow> with_io t io i = t i"
  by (simp_all add: with_io_def)

lemma fd_install_input: "fd_install x (fd_close 0 (with_io t io)) = Some (0, with_io t (x, snd io))"
proof -
  have "fd_lowest (fd_close 0 (with_io t io)) = Some 0" by (simp add: fd_lowest_is fd_close_def)
  then show ?thesis by (auto simp: fd_install_def fd_close_def with_io_def)
qed

lemma fd_install_output: "fd_install x (fd_close 1 (with_io t io)) = Some (1, with_io t (fst io, x))"
proof -
  have "fd_lowest (fd_close 1 (with_io t io)) = Some 1" by (simp add: fd_lowest_is fd_close_def)
  then show ?thesis by (auto simp: fd_install_def fd_close_def with_io_def)
qed

lemma fd_install_above:
  assumes "1 < i" "i < NOFILE" "t i = None"
  shows "\<exists>k. fd_install x (with_io t io) = Some (k, with_io (t(k \<mapsto> x)) io) \<and> 1 < k \<and> k \<le> i \<and> t k = None"
proof -
  have "fd_lowest (with_io t io) \<noteq> None" using assms unfolding fd_lowest_def find_None_iff by force
  then obtain k where k: "fd_lowest (with_io t io) = Some k" by blast
  then have *: "with_io t io k = None" "\<forall>j < k. with_io t io j \<noteq> None" by (auto simp: fd_lowest_is)
  have "k \<noteq> 0" "k \<noteq> 1" using *(1) by (metis option.distinct(1) with_io_simps(1), metis One_nat_def option.distinct(1) with_io_simps(2))
  moreover have "k \<le> i" using *(2) assms by (metis leI with_io_simps(3))
  ultimately show ?thesis using k *(1) by (auto simp: fd_install_def with_io_def fun_upd_twist)
qed

text \<open>The table that a process of the specification stands for.\<close>

definition table :: "fdtable \<Rightarrow> (fobj \<times> fobj) \<times> extra \<Rightarrow> fdtable" where
  "table t x =
     (case snd x of
        Plain \<Rightarrow> with_io t (fst x)
      | Ends w \<Rightarrow> (case fd_pipe w (with_io t (fst x)) of None \<Rightarrow> with_io t (fst x) | Some (_, _, u) \<Rightarrow> u)
      | Closed d \<Rightarrow> fd_close d (with_io t (fst x)))"

lemma table_simps [simp]: "table t (io, Plain) = with_io t io" "table t (io, Closed d) = fd_close d (with_io t io)"
  "fd_pipe w (with_io t io) = Some (i, j, u) \<Longrightarrow> table t (io, Ends w) = u"
  by (simp_all add: table_def)

text \<open>The tables of the processes that execute a program or wait, those that stay for a while.\<close>

fun resting :: "'x task \<Rightarrow> 'x list" where
  "resting (Exec ws x) = [x]"
| "resting (Message m x) = []"
| "resting (Exit x) = []"
| "resting (Fork p q) = resting p @ resting q"
| "resting (Wait x p) = x # resting p"

lemma resting_map: "resting (map_task f p) = map f (resting p)"
  by (induction p) simp_all

lemma resting_wiring: "x \<in> set (resting (wiring os w c io)) \<Longrightarrow> snd x = Plain"
  by (induction os w c io rule: wiring.induct) (auto simp: fork1_def sh_panic_def split: if_splits)

text \<open>A pipe and the two ends of it for the processes of a pipeline.\<close>

definition roomy :: "fdtable \<Rightarrow> bool" where
  "roomy t \<longleftrightarrow> (\<exists>i j. 1 < i \<and> i < j \<and> j < NOFILE \<and> t i = None \<and> t j = None)"

lemma fd_pipe_io:
  assumes "roomy t"
  shows "\<exists>i j u. fd_pipe w (with_io t io) = Some (i, j, u) \<and>
    fd_close j (fd_close i (fd_dup j (fd_close 1 u))) = with_io t (fst io, WriteEnd w) \<and>
    fd_close j (fd_close i (fd_dup i (fd_close 0 u))) = with_io t (ReadEnd w, snd io) \<and> fd_close j (fd_close i u) = with_io t io"
proof -
  from assms obtain a b where ab: "1 < a" "a < b" "b < NOFILE" "t a = None" "t b = None" unfolding roomy_def by blast
  from fd_install_above[of a t "ReadEnd w" io] ab obtain i where
    i: "fd_install (ReadEnd w) (with_io t io) = Some (i, with_io (t(i \<mapsto> ReadEnd w)) io)" "1 < i" "i \<le> a" "t i = None" by auto
  from fd_install_above[of b "t(i \<mapsto> ReadEnd w)" "WriteEnd w" io] ab i(3) obtain j where
    j: "fd_install (WriteEnd w) (with_io (t(i \<mapsto> ReadEnd w)) io) = Some (j, with_io (t(i \<mapsto> ReadEnd w, j \<mapsto> WriteEnd w)) io)"
    "1 < j" "(t(i \<mapsto> ReadEnd w)) j = None" by auto
  then have ij: "i \<noteq> j" "t j = None" by (auto split: if_splits)
  let ?t = "t(i \<mapsto> ReadEnd w, j \<mapsto> WriteEnd w)"
  have "fd_close 1 (with_io ?t io) j = Some (WriteEnd w)" "fd_close 0 (with_io ?t io) i = Some (ReadEnd w)"
    using i(2) j(2) ij(1) by (auto simp: fd_close_def with_io_def)
  then have dup: "fd_dup j (fd_close 1 (with_io ?t io)) = with_io ?t (fst io, WriteEnd w)"
    "fd_dup i (fd_close 0 (with_io ?t io)) = with_io ?t (ReadEnd w, snd io)"
    by (simp_all add: fd_dup_def fd_install_input fd_install_output del: One_nat_def)
  have "fd_close j (fd_close i (with_io ?t io')) = with_io t io'" for io'
    using i(2,4) j(2) ij by (auto simp: fd_close_def with_io_def)
  then show ?thesis using i(1) j(1) dup by (simp add: fd_pipe_def)
qed

text \<open>After the start of \<^verbatim>\<open>main\<close> the first three descriptors are open, when the console can be opened and there is room.\<close>

lemma open_console_three:
  assumes "i < 3"
  shows "open_console True t i \<noteq> None"
proof (induction "True" t rule: open_console.induct)
  case (1 t)
  show ?case
  proof (cases "fd_lowest t")
    case None
    then have "t i \<noteq> None" using assms unfolding fd_lowest_def find_None_iff by auto
    then show ?thesis using None by (simp add: open_console.simps fd_install_def)
  next
    case (Some fd)
    show ?thesis
    proof (cases "3 \<le> fd")
      case True
      then have "t i \<noteq> None" using Some assms by (auto simp: fd_lowest_is)
      then show ?thesis using Some True assms by (auto simp: open_console.simps fd_install_def fd_close_def)
    next
      case False
      then show ?thesis using 1 Some by (simp add: open_console.simps [of True t] fd_install_def)
    qed
  qed
qed

section \<open>Property\<close>

text \<open>
  C14. \<^verbatim>\<open>runcmd\<close> implements the meaning of commands: started with standard input and output open and two descriptors free, it builds
  exactly the processes of the specification, each with the standard input and output that the redirections and pipelines around it give,
  whatever calls the kernel refuses. In every process that executes a program or waits, the parent of a pipeline included, the
  descriptors above 1 are those of the shell, so no end of a pipe stays open there but as standard input or output.
\<close>

theorem runcmd_wires:
  assumes "wf_cmd c" "roomy t"
  shows "runcmd os w c (with_io t io) = map_task (table t) (wiring os w c io) \<and>
    (\<forall>u \<in> set (resting (runcmd os w c (with_io t io))). \<forall>i > 1. u i = t i)"
proof -
  have "runcmd os w c (with_io t io) = map_task (table t) (wiring os w c io)"
    using assms(1)
  proof (induction c arbitrary: w io)
    case (REDIR c f m d)
    have "fd_install (Opened f m) (fd_close d (with_io t io)) = Some (d, with_io t (if d = 0 then (Opened f m, snd io) else (fst io, Opened f m)))"
      using REDIR.prems fd_install_input[of "Opened f m" t io] fd_install_output[of "Opened f m" t io] by auto
    then show ?case using REDIR by simp
  next
    case (PIPE l r)
    from fd_pipe_io[OF assms(2)] obtain i j u where "fd_pipe w (with_io t io) = Some (i, j, u)"
      "fd_close j (fd_close i (fd_dup j (fd_close 1 u))) = with_io t (fst io, WriteEnd w)"
      "fd_close j (fd_close i (fd_dup i (fd_close 0 u))) = with_io t (ReadEnd w, snd io)" "fd_close j (fd_close i u) = with_io t io" by blast
    then show ?case using PIPE by (simp add: fork1_def sh_panic_def Let_def del: One_nat_def)
  qed (simp_all add: fork1_def sh_panic_def)
  moreover have "table t x i = t i" if "x \<in> set (resting (wiring os w c io))" "1 < i" for x i
    using resting_wiring[OF that(1)] that(2) by (simp add: table_def)
  ultimately show ?thesis by (auto simp: resting_map)
qed

definition shell_fds :: fdtable where
  "shell_fds i = (if i < 3 then Some (Inherited i) else None)"

definition all_granted :: os where
  "all_granted = \<lparr>os_open = (\<lambda>_ _ _. True), os_pipe = (\<lambda>_. True), os_fork = (\<lambda>_ _. True), os_exec = (\<lambda>_ _. True)\<rparr>"

definition ls_to_wc :: "string cmd" where
  "ls_to_wc = PIPE (EXEC [''ls'']) (REDIR (EXEC [''wc'']) ''f'' WR 1)"

theorem runcmd_wires_witness:
  "runcmd all_granted [] ls_to_wc shell_fds =
     Fork (Exec [''ls''] (shell_fds(1 \<mapsto> WriteEnd [])))
    (Fork (Exec [''wc''] (shell_fds(0 \<mapsto> ReadEnd [], 1 \<mapsto> Opened ''f'' WR)))
    (Wait shell_fds (Wait shell_fds (Exit shell_fds))))"
proof -
  let ?io = "(Inherited 0, Inherited 1)"
  have wf: "wf_cmd ls_to_wc" by code_simp
  have "roomy shell_fds" unfolding roomy_def by (intro exI[of _ 3] exI[of _ 4]) (simp add: shell_fds_def)
  note run = conjunct1[OF runcmd_wires[OF wf this, of all_granted "[]" ?io]]
  have io: "with_io shell_fds ?io = shell_fds" "with_io shell_fds (Inherited 0, WriteEnd []) = shell_fds(1 \<mapsto> WriteEnd [])"
    by (auto simp: with_io_def shell_fds_def)
  have "wiring all_granted [] ls_to_wc ?io = Fork (Exec [''ls''] ((Inherited 0, WriteEnd []), Plain))
      (Fork (Exec [''wc''] ((ReadEnd [], Opened ''f'' WR), Plain)) (Wait (?io, Plain) (Wait (?io, Plain) (Exit (?io, Plain)))))"
    by (simp add: ls_to_wc_def all_granted_def fork1_def)
  then show ?thesis using run unfolding io(1) by (simp add: io(1)[simplified] io(2)[simplified]) (simp add: with_io_def)
qed

end
