(* ===== verification/Malloc.thy ===== *)
theory Malloc
  imports User_Lib
begin

text \<open>
  The memory allocator of the user programs (\<^verbatim>\<open>umalloc.c\<close>). A header is addressed by its number, the byte address divided by
  \<^verbatim>\<open>sizeof(Header)\<close> = 8, as the pointer arithmetic of the code counts; the null pointer is 0. The two fields of the headers are
  functions of the address. \<^verbatim>\<open>sbrk\<close> is the system call of \<^verbatim>\<open>sysproc.c\<close>: it returns the old end of the memory of the process and
  moves it, when the kernel can grow the process, which is the parameter \<open>grow\<close>. The two searches of the code follow
  pointers and are partial functions, whose value \<open>None\<close> is a search that never ends.
\<close>

section \<open>The program\<close>

record umem =
  um_ptr :: "int \<Rightarrow> int"
  um_size :: "int \<Rightarrow> uint"
  um_freep :: int
  um_base :: int
  um_brk :: int

definition set_ptr :: "int \<Rightarrow> int \<Rightarrow> umem \<Rightarrow> umem" where
  "set_ptr p q h = h\<lparr>um_ptr := (um_ptr h)(p := q)\<rparr>"

definition set_size :: "int \<Rightarrow> uint \<Rightarrow> umem \<Rightarrow> umem" where
  "set_size p n h = h\<lparr>um_size := (um_size h)(p := n)\<rparr>"

text \<open>The header after a block: \<^verbatim>\<open>p + p->s.size\<close>.\<close>

definition block_end :: "umem \<Rightarrow> int \<Rightarrow> int" where
  "block_end h p = p + uint (um_size h p)"

partial_function (option) free_find :: "umem \<Rightarrow> int \<Rightarrow> int \<Rightarrow> int option" where
  [code]: "free_find h bp p =
     (if p < bp \<and> bp < um_ptr h p then Some p
      else if um_ptr h p \<le> p \<and> (p < bp \<or> bp < um_ptr h p) then Some p
      else free_find h bp (um_ptr h p))"

text \<open>The two coalescing steps of \<^verbatim>\<open>free\<close>, with the following and with the preceding block.\<close>

definition join_next :: "int \<Rightarrow> int \<Rightarrow> umem \<Rightarrow> umem" where
  "join_next p bp h =
     (let nxt = um_ptr h p in
      if block_end h bp = nxt
      then set_ptr bp (um_ptr h nxt) (set_size bp (um_size h bp + um_size h nxt) h)
      else set_ptr bp nxt h)"

definition join_prev :: "int \<Rightarrow> int \<Rightarrow> umem \<Rightarrow> umem" where
  "join_prev p bp h =
     (if block_end h p = bp
      then set_ptr p (um_ptr h bp) (set_size p (um_size h p + um_size h bp) h)
      else set_ptr p bp h)"

definition mfree :: "int \<Rightarrow> umem \<Rightarrow> umem option" where
  "mfree ap h =
     (let bp = ap - 1 in
      case free_find h bp (um_freep h) of
        None \<Rightarrow> None
      | Some p \<Rightarrow> Some ((join_prev p bp (join_next p bp h))\<lparr>um_freep := p\<rparr>))"

definition user_sbrk :: "(int \<Rightarrow> int \<Rightarrow> bool) \<Rightarrow> uint \<Rightarrow> umem \<Rightarrow> (int \<times> umem) option" where
  "user_sbrk grow n h =
     (if grow (8 * um_brk h) (sint n) then Some (um_brk h, h\<lparr>um_brk := um_brk h + sint n div 8\<rparr>) else None)"

text \<open>The result is the pointer that \<^verbatim>\<open>morecore\<close> returns and the memory.\<close>

definition morecore :: "(int \<Rightarrow> int \<Rightarrow> bool) \<Rightarrow> uint \<Rightarrow> umem \<Rightarrow> (int \<times> umem) option" where
  "morecore grow nu h =
     (let nu = (if nu < 4096 then 4096 else nu) in
      case user_sbrk grow (nu * 8) h of
        None \<Rightarrow> Some (0, h)
      | Some (hp, h) \<Rightarrow>
          map_option (\<lambda>h. (um_freep h, h)) (mfree (hp + 1) (set_size hp nu h)))"

partial_function (option) malloc_loop :: "(int \<Rightarrow> int \<Rightarrow> bool) \<Rightarrow> uint \<Rightarrow> int \<Rightarrow> int \<Rightarrow> umem \<Rightarrow> (int \<times> umem) option" where
  [code]: "malloc_loop grow nunits prevp p h =
     (if nunits \<le> um_size h p then
        if um_size h p = nunits
        then Some (p + 1, (set_ptr prevp (um_ptr h p) h)\<lparr>um_freep := prevp\<rparr>)
        else let h = set_size p (um_size h p - nunits) h; q = block_end h p in
             Some (q + 1, (set_size q nunits h)\<lparr>um_freep := prevp\<rparr>)
      else if p = um_freep h then
        case morecore grow nunits h of
          None \<Rightarrow> None
        | Some (q, h) \<Rightarrow> if q = 0 then Some (0, h) else malloc_loop grow nunits q (um_ptr h q) h
      else malloc_loop grow nunits p (um_ptr h p) h)"

definition units :: "uint \<Rightarrow> uint" where
  "units nbytes = (nbytes + 8 - 1) div 8 + 1"

definition malloc :: "(int \<Rightarrow> int \<Rightarrow> bool) \<Rightarrow> uint \<Rightarrow> umem \<Rightarrow> (int \<times> umem) option" where
  "malloc grow nbytes h =
     (let h = (if um_freep h = 0
               then (set_size (um_base h) 0 (set_ptr (um_base h) (um_base h) h))\<lparr>um_freep := um_base h\<rparr> else h) in
      malloc_loop grow (units nbytes) (um_freep h) (um_ptr h (um_freep h)) h)"

lemma heap_simps [simp]:
  "um_ptr (set_ptr p q h) = (um_ptr h)(p := q)" "um_size (set_ptr p q h) = um_size h"
  "um_freep (set_ptr p q h) = um_freep h" "um_base (set_ptr p q h) = um_base h" "um_brk (set_ptr p q h) = um_brk h"
  "um_ptr (set_size p n h) = um_ptr h" "um_size (set_size p n h) = (um_size h)(p := n)"
  "um_freep (set_size p n h) = um_freep h" "um_base (set_size p n h) = um_base h" "um_brk (set_size p n h) = um_brk h"
  by (simp_all add: set_ptr_def set_size_def)

section \<open>The free list\<close>

fun path :: "umem \<Rightarrow> int \<Rightarrow> int list \<Rightarrow> int \<Rightarrow> bool" where
  "path h p [] q \<longleftrightarrow> p = q"
| "path h p (x # xs) q \<longleftrightarrow> p = x \<and> path h (um_ptr h x) xs q"

text \<open>Blocks in the order of their addresses, with a gap between two of them, up to a limit.\<close>

definition spaced :: "umem \<Rightarrow> int list \<Rightarrow> int \<Rightarrow> bool" where
  "spaced h xs lim \<longleftrightarrow> sorted_wrt (\<lambda>a b. block_end h a < b) xs \<and> (\<forall>a\<in>set xs. block_end h a \<le> lim)"

definition free_units :: "umem \<Rightarrow> int list \<Rightarrow> int set" where
  "free_units h xs = (\<Union>a\<in>set xs. {a..<block_end h a})"

text \<open>The list of \<^verbatim>\<open>umalloc.c\<close>: circular, from \<^verbatim>\<open>base\<close> through the free blocks in the order of their addresses, all coalesced.\<close>

definition arena :: "umem \<Rightarrow> int list \<Rightarrow> bool" where
  "arena h fs \<longleftrightarrow> 0 < um_base h \<and> path h (um_base h) (um_base h # fs) (um_base h) \<and> spaced h (um_base h # fs) (um_brk h) \<and>
     um_size h (um_base h) = 0 \<and> (\<forall>a\<in>set fs. 0 < um_size h a) \<and> um_freep h \<in> insert (um_base h) (set fs) \<and>
     um_base h < um_brk h \<and> um_brk h < 2 ^ 28"

lemma block_end_ge: "p \<le> block_end h p"
  by (simp add: block_end_def)

lemma block_end_pos: "0 < um_size h p \<Longrightarrow> p < block_end h p"
  by (simp add: block_end_def word_less_def)

lemma block_end_cong: "um_size h p = um_size h' p \<Longrightarrow> block_end h p = block_end h' p"
  by (simp add: block_end_def)

lemma path_append: "path h p (xs @ ys) q \<longleftrightarrow> (\<exists>r. path h p xs r \<and> path h r ys q)"
  by (induction xs arbitrary: p) auto

lemma path_cong: "\<forall>x\<in>set xs. um_ptr h x = um_ptr h' x \<Longrightarrow> path h p xs q = path h' p xs q"
  by (induction xs arbitrary: p) auto

lemma spaced_Cons: "spaced h (a # xs) lim \<longleftrightarrow> (\<forall>b\<in>set xs. block_end h a < b) \<and> block_end h a \<le> lim \<and> spaced h xs lim"
  by (auto simp: spaced_def)

lemma spaced_Nil [simp]: "spaced h [] lim"
  by (simp add: spaced_def)

lemma spaced_append: "spaced h (xs @ ys) lim \<longleftrightarrow> spaced h xs lim \<and> spaced h ys lim \<and> (\<forall>a\<in>set xs. \<forall>b\<in>set ys. block_end h a < b)"
  by (auto simp: spaced_def sorted_wrt_append)

lemma spaced_cong: "\<forall>x\<in>set xs. um_size h x = um_size h' x \<Longrightarrow> spaced h xs lim \<Longrightarrow> spaced h' xs lim"
  by (induction xs) (auto simp: spaced_Cons spaced_def block_end_def)

lemma free_units_simps [simp]:
  "free_units h [] = {}" "free_units h (a # xs) = {a..<block_end h a} \<union> free_units h xs"
  "free_units h (xs @ ys) = free_units h xs \<union> free_units h ys"
  by (auto simp: free_units_def)

lemma free_units_cong: "\<forall>x\<in>set xs. um_size h x = um_size h' x \<Longrightarrow> free_units h xs = free_units h' xs"
  by (simp add: free_units_def block_end_def)

lemma uint_add: "uint (x + y) = uint x + uint y" if "uint x + uint y < 2 ^ 32" for x y :: uint
  using that by (simp add: uint_word_ariths)

lemma uint_diff: "uint (x - y) = uint x - uint y" if "y \<le> x" for x y :: uint
proof -
  have "uint (x - y) = (uint x - uint y) mod 4294967296" by (simp add: uint_word_ariths)
  moreover have "0 \<le> uint y" "uint x < 4294967296" "uint y \<le> uint x" using uint_lt2p[of x] that by (simp_all add: word_le_def)
  ultimately show ?thesis by (simp add: mod_pos_pos_trivial del: uint_ge_0)
qed

section \<open>The search of free\<close>

lemma free_find_below:
  assumes "path h p (p # ps) x" "\<forall>a\<in>set (p # ps). a < bp" "spaced h (p # ps) lim" "bp < x \<or> x \<le> last (p # ps)"
  shows "free_find h bp p = Some (last (p # ps))"
  using assms
proof (induction ps arbitrary: p)
  case Nil
  then show ?case by (subst free_find.simps) auto
next
  case (Cons q ps)
  then have q: "um_ptr h p = q" "p < q" "q < bp" using block_end_ge[of p h] by (auto simp: spaced_Cons)
  then have "free_find h bp p = free_find h bp q" by (subst free_find.simps) auto
  then show ?case using Cons.IH[of q] Cons.prems q(1) by (simp add: spaced_Cons)
qed

lemma free_find_above:
  assumes "path h p (p # ps) x" "\<forall>a\<in>set (p # ps). bp < a" "spaced h (p # ps) lim" "x < bp"
  shows "free_find h bp p = free_find h bp x"
  using assms
proof (induction ps arbitrary: p)
  case Nil
  then show ?case by (subst free_find.simps) auto
next
  case (Cons q ps)
  then have q: "um_ptr h p = q" "p < q" "bp < p" using block_end_ge[of p h] by (auto simp: spaced_Cons)
  then have "free_find h bp p = free_find h bp q" by (subst free_find.simps) auto
  then show ?case using Cons.IH[of q] Cons.prems q(1) by (simp add: spaced_Cons)
qed

lemma split_at:
  assumes "spaced h fs lim" "bp \<notin> set fs"
  shows "\<exists>as cs. fs = as @ cs \<and> (\<forall>a\<in>set as. a < bp) \<and> (\<forall>c\<in>set cs. bp < c)"
  using assms
proof (induction fs)
  case (Cons a fs)
  show ?case
  proof (cases "a < bp")
    case True
    obtain as cs where "fs = as @ cs" "\<forall>a\<in>set as. a < bp" "\<forall>c\<in>set cs. bp < c" using Cons by (auto simp: spaced_Cons)
    then show ?thesis using True by (intro exI[of _ "a # as"] exI[of _ cs]) auto
  next
    case False
    then have "\<forall>c\<in>set (a # fs). bp < c" using Cons.prems block_end_ge[of a h] by (force simp: spaced_Cons)
    then show ?thesis by (intro exI[of _ "[]"] exI[of _ "a # fs"]) auto
  qed
qed simp

lemma free_find_pred:
  assumes "arena h (as @ cs)" "\<forall>a\<in>set as. a < bp" "\<forall>c\<in>set cs. bp < c" "um_base h < bp"
  shows "free_find h bp (um_freep h) = Some (last (um_base h # as))"
proof -
  let ?L = "um_base h # as"
  obtain x where x: "path h (um_base h) ?L x" "path h x cs (um_base h)"
    using assms(1) path_append[of h "um_base h" ?L cs "um_base h"] by (auto simp: arena_def)
  have sp: "spaced h ?L (um_brk h)" "spaced h cs (um_brk h)"
    using assms(1) spaced_append[of h ?L cs "um_brk h"] by (auto simp: arena_def)

  have "um_base h \<le> a" if "a \<in> set ?L" for a using that sp(1) block_end_ge[of "um_base h" h] by (force simp: spaced_Cons)
  then have "um_base h \<le> last ?L" using last_in_set by blast
  then have stop: "bp < x \<or> x \<le> last ?L" using x(2) assms(3) by (cases cs) auto
  have low: "free_find h bp p = Some (last ?L)" if "p \<in> set ?L" for p
  proof -
    from split_list[OF that] obtain us ps where L: "?L = us @ p # ps" by blast
    then have "path h p (p # ps) x" using x(1) unfolding L path_append by auto
    moreover have "spaced h (p # ps) (um_brk h)" using sp(1) unfolding L spaced_append by blast
    moreover have "a < bp" if "a \<in> set ?L" for a using assms(2,4) that by auto
    then have "\<forall>a\<in>set (p # ps). a < bp" unfolding L by simp
    moreover have "last (p # ps) = last ?L" unfolding L by simp
    moreover have "bp < x \<or> x \<le> last ?L" using stop .
    ultimately show ?thesis using free_find_below[of h p ps x bp "um_brk h"] \<open>\<forall>a\<in>set (p # ps). a < bp\<close> by simp
  qed
  have "free_find h bp p = Some (last ?L)" if "p \<in> set cs" for p
  proof -
    from split_list[OF that] obtain us ps where L: "cs = us @ p # ps" by blast
    then have "path h p (p # ps) (um_base h)" using x(2) unfolding L path_append by auto
    moreover have "spaced h (p # ps) (um_brk h)" using sp(2) unfolding L spaced_append by blast
    moreover have "\<forall>a\<in>set (p # ps). bp < a" using assms(3) unfolding L by auto
    ultimately have "free_find h bp p = free_find h bp (um_base h)" using free_find_above assms(4) by metis
    then show ?thesis using low[of "um_base h"] by simp
  qed
  then show ?thesis using low assms(1) by (auto simp: arena_def)
qed

section \<open>Coalescing\<close>

definition same_but :: "int set \<Rightarrow> umem \<Rightarrow> umem \<Rightarrow> bool" where
  "same_but S h h' \<longleftrightarrow> (\<forall>q. q \<notin> S \<longrightarrow> um_ptr h' q = um_ptr h q \<and> um_size h' q = um_size h q) \<and>
     um_base h' = um_base h \<and> um_brk h' = um_brk h"

lemma same_but_cong:
  assumes "same_but S h k" "set xs \<inter> S = {}"
  shows "path k p xs q = path h p xs q" "spaced k xs lim = spaced h xs lim" "free_units k xs = free_units h xs"
    "\<forall>x\<in>set xs. block_end k x = block_end h x"
proof -
  have *: "um_ptr k x = um_ptr h x" "um_size k x = um_size h x" if "x \<in> set xs" for x using assms that by (auto simp: same_but_def)
  show "path k p xs q = path h p xs q" using *(1) by (intro path_cong) simp
  show "spaced k xs lim = spaced h xs lim" using spaced_cong[of xs h k lim] spaced_cong[of xs k h lim] *(2) by auto
  show "free_units k xs = free_units h xs" using *(2) by (intro free_units_cong) simp
  show "\<forall>x\<in>set xs. block_end k x = block_end h x" using *(2) by (simp add: block_end_def)
qed

lemma join_size:
  assumes "block_end h a = b" "block_end h b < 2 ^ 28" "0 < a"
  shows "a + uint (um_size h a + um_size h b) = block_end h b"
proof -
  have "uint (um_size h a) + uint (um_size h b) < 2 ^ 28" using assms by (simp add: block_end_def)
  then show ?thesis using uint_add[of "um_size h a" "um_size h b"] assms(1) by (simp add: block_end_def)
qed

lemma join_next_spec:
  assumes "path h x cs (um_base h)" "um_ptr h p = x" "spaced h cs lim" "lim < 2 ^ 28" "0 < um_base h" "um_base h < bp"
    and "block_end h bp \<le> lim" "\<forall>c\<in>set cs. block_end h bp \<le> c" "0 < um_size h bp"
  defines "k \<equiv> join_next p bp h"
  shows "\<exists>ds. path k (um_ptr k bp) ds (um_base h) \<and> spaced k (bp # ds) lim \<and> set ds \<subseteq> set cs \<and>
    free_units k (bp # ds) = {bp..<block_end h bp} \<union> free_units h cs \<and> 0 < um_size k bp \<and> same_but {bp} h k"
proof -
  have bp: "bp < block_end h bp" using assms(9) by (rule block_end_pos)
  then have notin: "bp \<notin> set cs" using assms(8) by auto
  have frame: "same_but {bp} h k" by (simp add: k_def join_next_def Let_def same_but_def)
  then have same: "\<forall>c\<in>set cs. um_ptr h c = um_ptr k c" "\<forall>c\<in>set cs. um_size h c = um_size k c" using notin by (auto simp: same_but_def)
  show ?thesis
  proof (cases "block_end h bp = x")
    case True
    then obtain ds where cs: "cs = x # ds" using assms(1,6) bp by (cases cs) auto
    have "block_end h x \<le> lim" using assms(3) cs by (simp add: spaced_Cons)
    then have sz: "bp + uint (um_size h bp + um_size h x) = block_end h x" using join_size[OF True] assms(4,5,6) by simp
    have k: "um_ptr k bp = um_ptr h x" "um_size k bp = um_size h bp + um_size h x" "block_end k bp = block_end h x"
      using True sz assms(2) by (simp_all add: k_def join_next_def block_end_def)
    have "path k (um_ptr k bp) ds (um_base h)" using assms(1) same(1) path_cong[of ds h k] cs k(1) by simp
    moreover have "spaced k (bp # ds) lim"
      using assms(3) same(2) spaced_cong[of ds h k] cs k(3) by (simp add: spaced_Cons)
    moreover have "free_units k ds = free_units h ds" using free_units_cong[of ds h k] same(2) cs by simp
    then have "free_units k (bp # ds) = {bp..<block_end h bp} \<union> free_units h cs"
      using True k(3) cs bp block_end_ge[of x h] by auto
    moreover have "bp < block_end k bp" unfolding k(3) using True bp block_end_ge[of x h] by simp
    then have "0 < um_size k bp" by (simp add: block_end_def word_less_def)
    ultimately show ?thesis using frame cs by (intro exI[of _ ds]) auto
  next
    case False
    have k: "um_ptr k bp = x" "um_size k bp = um_size h bp" "block_end k bp = block_end h bp"
      using False assms(2) by (simp_all add: k_def join_next_def block_end_def)
    have "block_end h bp < c" if "c \<in> set cs" for c
    proof (cases cs)
      case (Cons y ds)
      then have "x = y" using assms(1) by simp
      then have "block_end h bp < x" using False assms(8) Cons by force
      then show ?thesis using that Cons \<open>x = y\<close> assms(3) block_end_ge[of x h] by (auto simp: spaced_Cons)
    qed (use that in simp)
    then have "spaced k (bp # cs) lim" using assms(3,7) same(2) spaced_cong[of cs h k] k(3) by (simp add: spaced_Cons)
    moreover have "path k (um_ptr k bp) cs (um_base h)" using assms(1) same(1) path_cong[of cs h k] k(1) by simp
    moreover have "free_units k cs = free_units h cs" using free_units_cong[of cs h k] same(2) by simp
    ultimately show ?thesis using frame k assms(9) by (intro exI[of _ cs]) simp
  qed
qed

lemma join_prev_spec:
  assumes "path h b ls p" "path h (um_ptr h bp) ds b" "spaced h (ls @ [p]) lim" "spaced h (bp # ds) lim"
    and "lim < 2 ^ 28" "0 < p" "block_end h p \<le> bp" "0 < um_size h bp"
  defines "k \<equiv> join_prev p bp h"
  shows "\<exists>rs. path k b (ls @ p # rs) b \<and> spaced k (ls @ p # rs) lim \<and> set rs \<subseteq> insert bp (set ds) \<and>
    free_units k (ls @ p # rs) = free_units h (ls @ [p]) \<union> free_units h (bp # ds) \<and> same_but {p} h k \<and>
    (um_size k p = um_size h p \<or> block_end h p = bp \<and> 0 < um_size k p)"
proof -
  have lt: "\<forall>a\<in>set ls. a < p" "p \<le> bp" "bp < block_end h bp" "\<forall>d\<in>set ds. bp < d"
  proof -
    show "\<forall>a\<in>set ls. a < p" using assms(3) le_less_trans[OF block_end_ge] by (auto simp: spaced_append)
    show "p \<le> bp" using assms(7) block_end_ge[of p h] by simp
    show "bp < block_end h bp" by (rule block_end_pos[OF assms(8)])
    then show "\<forall>d\<in>set ds. bp < d" using assms(4) by (auto simp: spaced_Cons)
  qed
  then have notin: "p \<notin> set ls" "p \<notin> set ds" by auto
  have frame: "same_but {p} h k" by (simp add: k_def join_prev_def same_but_def)
  note ls = same_but_cong[OF frame, of ls] and ds = same_but_cong[OF frame, of ds]
  have ls: "path k b ls p" "spaced k ls lim" "free_units k ls = free_units h ls" "\<forall>a\<in>set ls. block_end k a < p"
    using assms(1,3) notin(1) ls by (auto simp: spaced_append)
  have ds: "path k (um_ptr h bp) ds b" "spaced k ds lim" "free_units k ds = free_units h ds"
    using assms(2,4) notin(2) ds by (auto simp: spaced_Cons)
  show ?thesis
  proof (cases "block_end h p = bp")
    case True
    have "block_end h bp \<le> lim" using assms(4) by (simp add: spaced_Cons)
    then have sz: "p + uint (um_size h p + um_size h bp) = block_end h bp" using join_size[OF True] assms(5,6) by simp
    have k: "um_ptr k p = um_ptr h bp" "block_end k p = block_end h bp" "um_size k p = um_size h p + um_size h bp"
      using True sz by (simp_all add: k_def join_prev_def block_end_def)
    have "p < block_end k p" using k(2) lt(2,3) by simp
    then have pos: "0 < um_size k p" by (simp add: block_end_def word_less_def)
    have "path k b (ls @ p # ds) b" using ls(1) ds(1) k(1) by (auto simp: path_append)
    moreover have "spaced k (ls @ p # ds) lim"
      using ls(2,4) ds(2) assms(4) k(2) lt by (fastforce simp: spaced_append spaced_Cons)
    moreover have "free_units k (ls @ p # ds) = free_units h (ls @ [p]) \<union> free_units h (bp # ds)"
      using ls(3) ds(3) k(2) True lt(2,3) block_end_ge[of p h] by auto
    ultimately show ?thesis using frame True pos by (intro exI[of _ ds]) auto
  next
    case False
    have k: "um_ptr k p = bp" "block_end k p = block_end h p" "um_size k p = um_size h p"
      using False by (simp_all add: k_def join_prev_def block_end_def)
    have less: "block_end h p < bp" using False assms(7) by simp
    then have "bp \<noteq> p" using block_end_ge[of p h] by simp
    then have bp: "um_ptr k bp = um_ptr h bp" "block_end k bp = block_end h bp" using frame by (auto simp: same_but_def block_end_def)
    have "path k b (ls @ p # bp # ds) b" using ls(1) ds(1) k(1) bp(1) by (auto simp: path_append)
    moreover have "block_end h p \<le> lim" using assms(3) by (simp add: spaced_append spaced_Cons)
    then have "spaced k (ls @ p # bp # ds) lim"
      using ls(2,4) ds(2) assms(4) k(2) bp(2) lt less by (fastforce simp: spaced_append spaced_Cons)
    moreover have "free_units k (ls @ p # bp # ds) = free_units h (ls @ [p]) \<union> free_units h (bp # ds)"
      using ls(3) ds(3) k(2) bp(2) by auto
    ultimately show ?thesis using frame k(3) by (intro exI[of _ "bp # ds"]) auto
  qed
qed

section \<open>free\<close>

text \<open>A block that is not free: it lies in the heap, above \<^verbatim>\<open>base\<close>, and shares no unit with the free blocks.\<close>

definition in_use :: "umem \<Rightarrow> int list \<Rightarrow> int \<Rightarrow> bool" where
  "in_use h fs bp \<longleftrightarrow> um_base h < bp \<and> 0 < um_size h bp \<and> block_end h bp \<le> um_brk h \<and> {bp..<block_end h bp} \<inter> free_units h fs = {}"

lemma in_use_apart:
  assumes "in_use h fs bp" "a \<in> set fs" "0 < um_size h a"
  shows "a \<noteq> bp" "a < bp \<Longrightarrow> block_end h a \<le> bp" "bp < a \<Longrightarrow> block_end h bp \<le> a"
proof -
  have pos: "a < block_end h a" "bp < block_end h bp" using assms(1,3) block_end_pos by (auto simp: in_use_def)
  have "{bp..<block_end h bp} \<inter> {a..<block_end h a} = {}" using assms(1,2) unfolding in_use_def free_units_def by blast
  then have "\<not> (bp \<le> x \<and> x < block_end h bp \<and> a \<le> x \<and> x < block_end h a)" for x by auto
  from this[of a] this[of bp] pos show "a \<noteq> bp" "a < bp \<Longrightarrow> block_end h a \<le> bp" "bp < a \<Longrightarrow> block_end h bp \<le> a"
    by linarith+
qed

text \<open>The place of a block in the list: after the header \<open>p\<close>, before the blocks \<open>cs\<close>.\<close>

lemma free_place:
  assumes ar: "arena h fs" and use: "in_use h fs bp"
  shows "\<exists>as ls p cs. fs = as @ cs \<and> um_base h # as = ls @ [p] \<and> free_find h bp (um_freep h) = Some p \<and>
    (\<forall>a\<in>set (ls @ [p]). a < bp) \<and> (\<forall>c\<in>set cs. block_end h bp \<le> c) \<and> block_end h p \<le> bp \<and> 0 < p \<and> (p = um_base h \<longrightarrow> block_end h p < bp)"
proof -
  let ?b = "um_base h"
  have A: "0 < ?b" "spaced h (?b # fs) (um_brk h)" "um_size h ?b = 0" "\<forall>a\<in>set fs. 0 < um_size h a" using ar by (auto simp: arena_def)
  have B: "?b < bp" using use by (simp add: in_use_def)
  have apart: "a \<noteq> bp" "a < bp \<Longrightarrow> block_end h a \<le> bp" "bp < a \<Longrightarrow> block_end h bp \<le> a" if "a \<in> set fs" for a
    by (rule in_use_apart[OF use that A(4)[rule_format, OF that]]; assumption)+
  have "spaced h fs (um_brk h)" "bp \<notin> set fs" using A(2) apart(1)[of bp] by (auto simp: spaced_Cons)
  from split_at[OF this] obtain as cs where fs: "fs = as @ cs" "\<forall>a\<in>set as. a < bp" "\<forall>c\<in>set cs. bp < c" by blast
  define p where "p = last (?b # as)"
  define ls where "ls = butlast (?b # as)"
  have L: "?b # as = ls @ [p]" by (simp add: p_def ls_def)
  have found: "free_find h bp (um_freep h) = Some p" unfolding p_def using free_find_pred[OF _ fs(2,3) B] ar fs(1) by simp
  have p_cases: "p = ?b \<or> p \<in> set as" unfolding p_def using last_in_set by fastforce
  have base: "block_end h ?b = ?b" using A(3) by (simp add: block_end_def)
  have below: "\<forall>a\<in>set (?b # as). a < bp" using fs(2) B by simp
  have "\<forall>a\<in>set as. ?b < a" using A(2) base fs(1) by (auto simp: spaced_Cons)
  then have "0 < p" using p_cases A(1) by force
  moreover have "block_end h p \<le> bp" using p_cases apart(2)[of p] fs(1,2) base B by auto
  moreover have "p = ?b \<longrightarrow> block_end h p < bp" using base B by simp
  moreover have "\<forall>c\<in>set cs. block_end h bp \<le> c" using apart(3) fs(1,3) by auto
  ultimately show ?thesis using fs(1) L found below[unfolded L] by blast
qed

lemma free_units_base: "um_size h b = 0 \<Longrightarrow> free_units h (b # xs) = free_units h xs"
  by (simp add: block_end_def)

lemma mem_free_units: "a \<in> set fs \<Longrightarrow> 0 < um_size h a \<Longrightarrow> a \<in> free_units h fs"
  using block_end_pos[of h a] by (auto simp: free_units_def)

lemma path_freep [simp]: "path (h\<lparr>um_freep := p\<rparr>) x xs y = path h x xs y"
  by (induction xs arbitrary: x) auto

lemma freep_simps [simp]:
  "block_end (h\<lparr>um_freep := p\<rparr>) q = block_end h q" "spaced (h\<lparr>um_freep := p\<rparr>) xs lim = spaced h xs lim"
  "free_units (h\<lparr>um_freep := p\<rparr>) xs = free_units h xs"
  by (simp_all add: block_end_def spaced_def free_units_def)

lemma mfree_spec:
  assumes ar: "arena h fs" and use: "in_use h fs bp"
  shows "\<exists>k gs. mfree (bp + 1) h = Some k \<and> arena k gs \<and> free_units k gs = free_units h fs \<union> {bp..<block_end h bp} \<and>
    um_base k = um_base h \<and> um_brk k = um_brk h \<and> (\<forall>q. q \<notin> free_units h fs \<union> {bp..<block_end h bp} \<longrightarrow> um_size k q = um_size h q)"
proof -
  let ?b = "um_base h" and ?lim = "um_brk h"
  have A: "0 < ?b" "path h ?b (?b # fs) ?b" "spaced h (?b # fs) ?lim" "um_size h ?b = 0" "\<forall>a\<in>set fs. 0 < um_size h a" "?lim < 2 ^ 28"
    using ar by (auto simp: arena_def)
  have B: "?b < bp" "0 < um_size h bp" "block_end h bp \<le> ?lim" "?b < ?lim" using use ar by (auto simp: in_use_def arena_def)
  from free_place[OF assms] obtain as ls p cs where fs: "fs = as @ cs" "?b # as = ls @ [p]" and found: "free_find h bp (um_freep h) = Some p"
    and below: "\<forall>a\<in>set (ls @ [p]). a < bp" and above: "\<forall>c\<in>set cs. block_end h bp \<le> c"
    and p: "block_end h p \<le> bp" "0 < p" "p = ?b \<longrightarrow> block_end h p < bp" by blast
  define h1 where "h1 = join_next p bp h"
  define h2 where "h2 = join_prev p bp h1"
  have free: "mfree (bp + 1) h = Some (h2\<lparr>um_freep := p\<rparr>)" using found by (simp add: mfree_def h2_def h1_def)
  have all: "?b # fs = ls @ p # cs" using fs by simp
  from A(2) obtain x where x: "path h ?b ls p" "um_ptr h p = x" "path h x cs ?b" unfolding all path_append by auto
  have sp: "spaced h (ls @ [p]) ?lim" "spaced h cs ?lim" using A(3) unfolding all by (auto simp: spaced_append spaced_Cons)
  from join_next_spec[OF x(3,2) sp(2) A(6,1) B(1,3) above B(2)] obtain ds where
    ds: "path h1 (um_ptr h1 bp) ds ?b" "spaced h1 (bp # ds) ?lim" "set ds \<subseteq> set cs"
    "free_units h1 (bp # ds) = {bp..<block_end h bp} \<union> free_units h cs" "0 < um_size h1 bp" "same_but {bp} h h1"
    unfolding h1_def by blast
  have nb: "set (ls @ [p]) \<inter> {bp} = {}" "set ls \<inter> {bp} = {}" using below by auto
  note keep = same_but_cong[OF ds(6) nb(1)] and keep_ls = same_but_cong[OF ds(6) nb(2)]
  have p1: "block_end h1 p = block_end h p" using keep(4) by simp
  have ends: "path h1 ?b ls p" "spaced h1 (ls @ [p]) ?lim" using keep_ls(1) keep(2) x(1) sp(1) by simp_all
  from join_prev_spec[OF ends(1) ds(1) ends(2) ds(2) A(6) p(2) p(1)[folded p1] ds(5)] obtain rs where
    rs: "path h2 ?b (ls @ p # rs) ?b" "spaced h2 (ls @ p # rs) ?lim" "set rs \<subseteq> insert bp (set ds)"
    "free_units h2 (ls @ p # rs) = free_units h1 (ls @ [p]) \<union> free_units h1 (bp # ds)" "same_but {p} h1 h2"
    "um_size h2 p = um_size h1 p \<or> block_end h1 p = bp \<and> 0 < um_size h2 p"
    unfolding h2_def by blast
  have gs: "ls @ p # rs = ?b # as @ rs" using fs(2) by simp
  have sizes: "um_size h2 q = um_size h q" if "q \<noteq> bp" "q \<noteq> p" for q using that ds(6) rs(5) by (simp add: same_but_def)
  have size_p: "um_size h2 p = um_size h p \<or> p \<noteq> ?b \<and> 0 < um_size h2 p"
    using rs(6) p(3) p1 ds(6) below by (auto simp: same_but_def)
  have base: "um_size h2 ?b = 0" using size_p sizes[of ?b] A(4) B(1) by (cases "p = ?b") auto
  have pos: "0 < um_size h2 a" if "a \<in> set (as @ rs)" for a
  proof (cases "a = p \<or> a = bp")
    case True
    have "p \<in> set as \<or> p = ?b" using fs(2) by (metis in_set_conv_decomp set_ConsD)
    moreover have "?b \<notin> set (as @ rs)" using rs(2) block_end_ge[of ?b h2] unfolding gs spaced_Cons by (meson leD)
    moreover have "um_size h2 bp = um_size h1 bp" using rs(5) below by (auto simp: same_but_def)
    ultimately show ?thesis using True that size_p A(5) fs(1) ds(5) by auto
  next
    case False
    then have "a \<in> set fs" using that rs(3) ds(3) fs(1) by auto
    then show ?thesis using False sizes A(5) by simp
  qed
  have b2: "um_base h2 = ?b" "um_brk h2 = ?lim" using ds(6) rs(5) by (simp_all add: same_but_def)
  have "p \<in> insert ?b (set as)" using fs(2) by (metis in_set_conv_decomp list.simps(15))
  then have "arena (h2\<lparr>um_freep := p\<rparr>) (as @ rs)" unfolding arena_def using rs(1,2) gs base pos A(1,6) B(4) b2 by auto
  moreover have "free_units h2 (as @ rs) = free_units h fs \<union> {bp..<block_end h bp}"
  proof -
    have "free_units h2 (as @ rs) = free_units h (ls @ [p]) \<union> ({bp..<block_end h bp} \<union> free_units h cs)"
      using rs(4) free_units_base[OF base, of "as @ rs"] keep(3) ds(4) unfolding gs by simp
    also have "\<dots> = free_units h (?b # fs) \<union> {bp..<block_end h bp}" unfolding all by auto
    finally show ?thesis unfolding free_units_base[OF A(4)] .
  qed
  moreover have "um_size h2 q = um_size h q" if q: "q \<notin> free_units h fs \<union> {bp..<block_end h bp}" for q
  proof -
    have "q \<noteq> bp" using q block_end_pos[OF B(2)] by auto
    moreover have "q = p \<Longrightarrow> q = ?b" using q mem_free_units[of p fs h] A(5) fs by (metis UnI1 in_set_conv_decomp set_ConsD Un_iff set_append)
    ultimately show ?thesis using sizes[of q] base A(4) by (cases "q = p") auto
  qed
  ultimately show ?thesis using free b2 by (intro exI[of _ "h2\<lparr>um_freep := p\<rparr>"] exI[of _ "as @ rs"]) simp
qed

section \<open>Taking a block\<close>

lemma set_ptr_simps [simp]:
  "block_end (set_ptr p q h) x = block_end h x" "spaced (set_ptr p q h) xs lim = spaced h xs lim"
  "free_units (set_ptr p q h) xs = free_units h xs"
  by (simp_all add: block_end_def spaced_def free_units_def)

lemma succ_split:
  assumes "arena h fs" "q \<in> insert (um_base h) (set fs)" "um_ptr h q = p" "p \<noteq> um_base h"
  shows "\<exists>ls cs. um_base h # fs = ls @ q # p # cs"
proof -
  from assms(2) split_list[of q "um_base h # fs"] obtain ls rest where L: "um_base h # fs = ls @ q # rest" by auto
  have "path h (um_base h) (ls @ q # rest) (um_base h)" using assms(1) L unfolding arena_def by metis
  then have "path h p rest (um_base h)" using assms(3) by (auto simp: path_append)
  then obtain cs where "rest = p # cs" using assms(4) by (cases rest) auto
  then show ?thesis using L by blast
qed

lemma ptr_in_cycle: "arena h fs \<Longrightarrow> q \<in> insert (um_base h) (set fs) \<Longrightarrow> um_ptr h q \<in> insert (um_base h) (set fs)"
  using succ_split[of h fs q "um_ptr h q"] by (metis in_set_conv_decomp insertI1 list.simps(15) append.assoc append_Cons append_Nil)

text \<open>What a request of \<open>n\<close> units has done: a block in use at \<open>a\<close> with its size, taken from the units \<open>U\<close> that were free.\<close>

definition taken :: "umem \<Rightarrow> int set \<Rightarrow> uint \<Rightarrow> int \<Rightarrow> umem \<Rightarrow> bool" where
  "taken h U n a k \<longleftrightarrow> (\<exists>gs. arena k gs \<and> in_use k gs a \<and> free_units k gs \<union> {a..<block_end k a} = U) \<and> um_size k a = n \<and>
     um_base k = um_base h \<and> (\<forall>q. q \<notin> U \<longrightarrow> um_size k q = um_size h q)"

lemma take_whole:
  assumes ar: "arena h fs" and L: "um_base h # fs = ls @ q # p # cs" and n: "um_size h p = n"
  shows "taken h (free_units h fs) n p ((set_ptr q (um_ptr h p) h)\<lparr>um_freep := q\<rparr>)" (is "taken h _ n p ?k")
proof -
  let ?b = "um_base h" and ?gs = "tl (ls @ q # cs)"
  have A: "0 < ?b" "path h ?b (ls @ q # p # cs) ?b" "spaced h (ls @ q # p # cs) (um_brk h)" "um_size h ?b = 0"
    "\<forall>a\<in>set fs. 0 < um_size h a" "um_brk h < 2 ^ 28" "?b < um_brk h" using ar unfolding arena_def L by auto
  have G: "?b # ?gs = ls @ q # cs" using L by (cases ls) auto
  have fs: "set fs = insert p (set ?gs)" using L by (cases ls) auto
  have p: "p \<in> set fs" "?b < p" "?b \<noteq> p"
  proof -
    show "p \<in> set fs" using fs by simp
    then show "?b < p" using ar block_end_ge[of ?b h] by (force simp: arena_def spaced_Cons)
    then show "?b \<noteq> p" by simp
  qed
  have lt: "\<forall>a\<in>set (ls @ [q]). block_end h a < p" "\<forall>c\<in>set cs. block_end h p < c" using A(3) by (auto simp: spaced_append spaced_Cons)
  have "\<forall>a\<in>set ls. block_end h a < q" "\<forall>c\<in>set cs. block_end h q < c" using A(3) by (auto simp: spaced_append spaced_Cons)
  then have q: "q \<notin> set ls" "q \<notin> set cs" using block_end_ge[of q h] leD by blast+
  have "path h ?b ls q \<and> path h (um_ptr h p) cs ?b" using A(2) by (auto simp: path_append)
  then have "path ?k ?b (ls @ q # cs) ?b"
    using path_cong[of ls h ?k] path_cong[of cs h ?k] q by (auto simp: path_append)
  moreover have "spaced ?k (ls @ q # cs) (um_brk h)" using A(3) by (auto simp: spaced_append spaced_Cons)
  moreover have "q \<in> insert ?b (set ?gs)" using G by (metis in_set_conv_decomp list.simps(15))
  ultimately have ar': "arena ?k ?gs" unfolding arena_def using A fs G by auto
  have units: "free_units h fs = {p..<block_end h p} \<union> free_units h ?gs" using fs by (auto simp: free_units_def)
  have apart: "{p..<block_end h p} \<inter> {a..<block_end h a} = {}" if "a \<in> set ?gs" for a
  proof -
    have "a \<in> set (ls @ [q]) \<or> a \<in> set cs" using that G by (metis Un_iff list.set_intros(2) set_append set_simps(2) append_Cons append_Nil append_assoc)
    then show ?thesis using lt(1,2) by fastforce
  qed
  then have "{p..<block_end h p} \<inter> free_units h ?gs = {}" unfolding free_units_def by blast
  then have "in_use ?k ?gs p" using p A(3,5) by (simp add: in_use_def spaced_append spaced_Cons)
  moreover have "free_units ?k ?gs \<union> {p..<block_end ?k p} = free_units h fs" unfolding units by auto
  ultimately show ?thesis unfolding taken_def using ar' n by auto
qed

lemma inside_not_free:
  assumes "arena h fs" "p \<in> set fs" "p < x" "x < block_end h p"
  shows "x \<notin> insert (um_base h) (set fs)"
proof -
  from split_list[OF assms(2)] obtain us vs where fs: "fs = us @ p # vs" by blast
  have "spaced h (um_base h # us @ p # vs) (um_brk h)" using assms(1) unfolding arena_def fs by blast
  then have "\<forall>a\<in>set (um_base h # us). a < p" "\<forall>a\<in>set vs. block_end h p < a"
    using le_less_trans[OF block_end_ge] by (auto simp: spaced_append spaced_Cons)
  then show ?thesis using assms(3,4) unfolding fs by auto
qed

lemma free_apart:
  assumes "arena h fs" "p \<in> set fs" "y \<in> set fs" "y \<noteq> p" "y \<le> x" "x < block_end h y"
  shows "\<not> (p \<le> x \<and> x < block_end h p)"
  using inside_not_free[OF assms(1,2), of y] inside_not_free[OF assms(1,3), of p] assms(2-6) by (cases "p < y") auto

lemma take_part:
  assumes ar: "arena h fs" and p: "p \<in> set fs" and n: "0 < n" "n < um_size h p" and q: "q \<in> insert (um_base h) (set fs)"
  defines "k1 \<equiv> set_size p (um_size h p - n) h"
  defines "a \<equiv> block_end k1 p"
  shows "taken h (free_units h fs) n a ((set_size a n k1)\<lparr>um_freep := q\<rparr>)" (is "taken h _ n a ?k")
proof -
  have A: "0 < um_base h" "path h (um_base h) (um_base h # fs) (um_base h)" "spaced h (um_base h # fs) (um_brk h)" "um_size h (um_base h) = 0"
    "\<forall>a\<in>set fs. 0 < um_size h a" "um_brk h < 2 ^ 28" "um_base h < um_brk h" using ar unfolding arena_def by auto
  have pos: "0 < um_size h p - n" using n(2) by (metis eq_iff_diff_eq_0 less_irrefl word_gt_0)
  have sub: "uint (um_size h p - n) = uint (um_size h p) - uint n"
    using n(2) by (intro uint_diff) simp
  then have a: "a = block_end h p - uint n" by (simp add: a_def k1_def block_end_def)
  have "0 < uint n" using n(1) by (simp add: word_less_def)
  then have ap: "p < a" "a < block_end h p" using a pos n(2) by (auto simp: block_end_def word_less_def)
  note notin = inside_not_free[OF ar p ap]
  then have ne: "x \<noteq> a" if "x \<in> set fs" for x using that by blast
  have k: "um_ptr ?k = um_ptr h" "um_size ?k p = um_size h p - n" "um_size ?k a = n" "\<And>x. x \<noteq> a \<Longrightarrow> x \<noteq> p \<Longrightarrow> um_size ?k x = um_size h x"
    using ap(1) by (auto simp: k1_def)
  have ends: "block_end ?k p = a" "block_end ?k a = block_end h p" "\<And>x. x \<noteq> a \<Longrightarrow> x \<noteq> p \<Longrightarrow> block_end ?k x = block_end h x"
    using ap(1) a sub k by (auto simp: block_end_def)
  have le: "block_end ?k x \<le> block_end h x" if "x \<in> insert (um_base h) (set fs)" for x
  proof (cases "x = p")
    case False
    moreover have "x \<noteq> a" using that notin by blast
    ultimately show ?thesis using ends(3)[of x] by simp
  qed (use ends(1) ap(2) in simp)
  have b: "um_base h \<noteq> p" "um_base h < p" using A(3) p block_end_ge[of "um_base h" h] by (auto simp: spaced_Cons)
  have "path ?k (um_base h) (um_base h # fs) (um_base h)" using A(2) path_cong[of "um_base h # fs" h ?k] k(1) by metis
  moreover have "spaced ?k (um_base h # fs) (um_brk h)"
    unfolding spaced_def using A(3)[unfolded spaced_def] le by (auto intro: order_trans le_less_trans elim!: sorted_wrt_mono_rel[rotated])
  moreover have "\<forall>x\<in>set fs. 0 < um_size ?k x" using A(5) k pos notin by (metis insertCI)
  ultimately have ar': "arena ?k fs" unfolding arena_def using A q k(4)[of "um_base h"] b notin by (auto simp: k1_def)
  have split: "free_units h fs = free_units ?k fs \<union> {a..<block_end h p}"
  proof -
    have other: "{x..<block_end ?k x} = {x..<block_end h x}" if "x \<in> set fs" "x \<noteq> p" for x using ends(3)[of x] that ne[of x] by simp
    have "{p..<block_end h p} = {p..<block_end ?k p} \<union> {a..<block_end h p}" using ends(1) ap by auto
    then show ?thesis using other p unfolding free_units_def by blast
  qed
  have "x \<notin> free_units ?k fs" if "a \<le> x" "x < block_end h p" for x
  proof
    assume "x \<in> free_units ?k fs"
    then obtain y where y: "y \<in> set fs" "y \<le> x" "x < block_end ?k y" by (auto simp: free_units_def)
    then have "y \<noteq> p" "y \<noteq> a" using ends(1) that(1) notin by auto
    then have "x < block_end h y" using y(3) ends(3) by simp
    then show False using free_apart[OF ar p y(1) \<open>y \<noteq> p\<close> y(2)] that ap(1) by simp
  qed
  then have "{a..<block_end ?k a} \<inter> free_units ?k fs = {}" unfolding ends(2) by auto
  then have "in_use ?k fs a"
    using n(1) k(3) ends(2) A(3) p b(2) ap(1) by (auto simp: in_use_def spaced_Cons spaced_def k1_def)
  moreover have "free_units ?k fs \<union> {a..<block_end ?k a} = free_units h fs" using split ends(2) by simp
  moreover have "um_size ?k x = um_size h x" if "x \<notin> free_units h fs" for x
  proof (rule k(4))
    show "x \<noteq> p" using that mem_free_units[OF p] A(5) p by blast
    show "x \<noteq> a" using that split ap by auto
  qed
  ultimately show ?thesis unfolding taken_def using ar' k(3) by (auto simp: k1_def)
qed

section \<open>The search of malloc\<close>

text \<open>At a block that is large enough the loop takes the request from it.\<close>

lemma malloc_takes:
  assumes ar: "arena h fs" and q: "q \<in> insert (um_base h) (set fs)" "um_ptr h q = p" and n: "0 < n" "n \<le> um_size h p"
  shows "\<exists>a k. malloc_loop grow n q p h = Some (a + 1, k) \<and> taken h (free_units h fs) n a k \<and> um_brk k = um_brk h"
proof -
  have "um_size h (um_base h) = 0" using ar by (simp add: arena_def)
  then have "p \<noteq> um_base h" using n by auto
  from succ_split[OF ar q this] obtain ls cs where L: "um_base h # fs = ls @ q # p # cs" by blast
  show ?thesis
  proof (cases "um_size h p = n")
    case True
    then show ?thesis using take_whole[OF ar L True] by (subst malloc_loop.simps) simp
  next
    case False
    have "p \<in> set fs" using L by (cases ls) auto
    then have "taken h (free_units h fs) n (block_end (set_size p (um_size h p - n) h) p)
        ((set_size (block_end (set_size p (um_size h p - n) h) p) n (set_size p (um_size h p - n) h))\<lparr>um_freep := q\<rparr>)"
      using take_part[OF ar _ n(1) _ q(1), of p] n(2) False by simp
    then show ?thesis using False n(2) by (subst malloc_loop.simps) (simp add: Let_def)
  qed
qed

text \<open>The loop walks the list up to \<^verbatim>\<open>freep\<close> and takes the first block that is large enough.\<close>

lemma malloc_walks:
  assumes "arena h fs" "path h p xs (um_freep h)" "q \<in> insert (um_base h) (set fs)" "um_ptr h q = p" "0 < n"
    and "\<exists>x\<in>insert (um_freep h) (set xs). n \<le> um_size h x" "um_freep h \<notin> set xs"
  shows "\<exists>a k. malloc_loop grow n q p h = Some (a + 1, k) \<and> taken h (free_units h fs) n a k \<and> um_brk k = um_brk h"
  using assms(2-7)
proof (induction xs arbitrary: p q)
  case Nil
  then show ?case using malloc_takes[OF assms(1), of q p n] by simp
next
  case (Cons x xs)
  show ?case
  proof (cases "n \<le> um_size h p")
    case True
    then show ?thesis using malloc_takes[OF assms(1) Cons.prems(2,3)] assms(5) by blast
  next
    case False
    have "p \<noteq> um_freep h" using Cons.prems(1,6) by auto
    then have "malloc_loop grow n q p h = malloc_loop grow n p (um_ptr h p) h" using False by (subst malloc_loop.simps) simp
    moreover have "p \<in> insert (um_base h) (set fs)" using ptr_in_cycle[OF assms(1) Cons.prems(2)] Cons.prems(3) by simp
    ultimately show ?thesis using Cons.IH[of "um_ptr h p" p] Cons.prems False by auto
  qed
qed

lemma malloc_walks_past:
  assumes "arena h fs" "path h p xs (um_freep h)" "\<not> (\<exists>x\<in>insert (um_freep h) (set xs). n \<le> um_size h x)"
  shows "malloc_loop grow n q p h =
    (case morecore grow n h of None \<Rightarrow> None | Some (r, k) \<Rightarrow> if r = 0 then Some (0, k) else malloc_loop grow n r (um_ptr k r) k)"
  using assms(2,3)
proof (induction xs arbitrary: p q)
  case Nil
  then show ?case by (subst malloc_loop.simps) simp
next
  case (Cons x xs)
  then show ?case
  proof (cases "p = um_freep h")
    case True
    then show ?thesis using Cons.prems by (subst malloc_loop.simps) simp
  next
    case False
    then have "malloc_loop grow n q p h = malloc_loop grow n p (um_ptr h p) h"
      using Cons.prems by (subst malloc_loop.simps) auto
    then show ?thesis using Cons.IH[of "um_ptr h p" p] Cons.prems by simp
  qed
qed

lemma cycle_from:
  assumes "arena h fs"
  shows "\<exists>xs. path h (um_ptr h (um_freep h)) xs (um_freep h) \<and> um_freep h \<notin> set xs \<and> insert (um_freep h) (set xs) = insert (um_base h) (set fs)"
proof -
  let ?f = "um_freep h" and ?b = "um_base h"
  have "?f \<in> set (?b # fs)" using assms by (simp add: arena_def)
  from split_list[OF this] obtain us vs where L: "?b # fs = us @ ?f # vs" by blast
  have "path h ?b (us @ ?f # vs) ?b" "spaced h (us @ ?f # vs) (um_brk h)" using assms L unfolding arena_def by metis+
  then have "path h (um_ptr h ?f) vs ?b" "path h ?b us ?f" "\<forall>a\<in>set us. a < ?f" "\<forall>a\<in>set vs. ?f < a"
    using block_end_ge[of ?f h] le_less_trans[OF block_end_ge] by (auto simp: path_append spaced_append spaced_Cons)
  then have "path h (um_ptr h ?f) (vs @ us) ?f" "?f \<notin> set (vs @ us)" by (auto simp: path_append)
  moreover have "insert ?f (set (vs @ us)) = insert ?b (set fs)" using arg_cong[OF L, of set] by auto
  ultimately show ?thesis by blast
qed

section \<open>More memory\<close>

text \<open>The kernel keeps a process below \<^verbatim>\<open>KERNBASE\<close> (\<^verbatim>\<open>allocuvm\<close> of \<^verbatim>\<open>vm.c\<close>).\<close>

definition below_kernel :: "(int \<Rightarrow> int \<Rightarrow> bool) \<Rightarrow> bool" where
  "below_kernel grow \<longleftrightarrow> (\<forall>sz n. 0 < n \<longrightarrow> grow sz n \<longrightarrow> sz + n < 0x80000000)"

lemma arena_grown:
  fixes nu :: uint
  assumes "arena h fs" "um_brk h < b" "b < 2 ^ 28"
  defines "k \<equiv> set_size (um_brk h) nu (h\<lparr>um_brk := b\<rparr>)"
  shows "arena k fs" "free_units k fs = free_units h fs"
proof -
  have A: "0 < um_base h" "path h (um_base h) (um_base h # fs) (um_base h)" "spaced h (um_base h # fs) (um_brk h)" "um_size h (um_base h) = 0"
    "\<forall>a\<in>set fs. 0 < um_size h a" "um_base h < um_brk h" "um_freep h \<in> insert (um_base h) (set fs)" using assms(1) unfolding arena_def by auto
  have "a \<noteq> um_brk h" if "a \<in> set fs" for a
    using A(3,5) that block_end_pos[of h a] by (auto simp: spaced_def)
  then have sz: "\<forall>a\<in>set (um_base h # fs). um_size h a = um_size k a" using A(6) by (auto simp: k_def)
  have "spaced k (um_base h # fs) (um_brk h)" using spaced_cong[OF sz A(3)] .
  then have "spaced k (um_base h # fs) b" using assms(2) order_trans[OF _ less_imp_le[OF assms(2)]] unfolding spaced_def by blast
  moreover have "path k (um_base h) (um_base h # fs) (um_base h)" using A(2) path_cong[of "um_base h # fs" h k "um_base h" "um_base h"] by (simp add: k_def)
  moreover have "um_base k = um_base h" "um_brk k = b" "um_freep k = um_freep h" by (simp_all add: k_def)
  ultimately show "arena k fs" unfolding arena_def using A(1,4-7) sz assms(2,3) by simp
  show "free_units k fs = free_units h fs" using free_units_cong[of fs h k] sz by simp
qed

lemma free_units_below: "arena h fs \<Longrightarrow> x \<in> free_units h fs \<Longrightarrow> x < um_brk h"
  by (force simp: arena_def free_units_def spaced_def)

lemma sint_times_8: "sint (n * 8) = uint n * 8" if "uint n < 2 ^ 28" for n :: uint
proof -
  have "uint (n * 8) = uint n * 8" using that by (simp add: uint_word_ariths)
  moreover have "- (2 ^ 31) \<le> uint n * 8" "uint n * 8 < 2 ^ 31"
    using that order_trans[of "- (2 ^ 31)" 0 "uint n * 8"] by simp_all
  then have "signed_take_bit 31 (uint n * 8) = uint n * 8" by (rule signed_take_bit_int_eq_self)
  ultimately show ?thesis by (simp add: sint_uint)
qed

lemma morecore_spec:
  assumes ar: "arena h fs" and n: "0 < n" "uint n < 2 ^ 28" and lim: "below_kernel grow"
  shows "morecore grow n h = Some (0, h) \<or>
    (\<exists>k gs. morecore grow n h = Some (um_freep k, k) \<and> um_freep k \<noteq> 0 \<and> arena k gs \<and> um_base k = um_base h \<and>
      free_units k gs = free_units h fs \<union> {um_brk h..<um_brk k} \<and> um_brk h + uint n \<le> um_brk k \<and>
      (\<forall>q. q \<notin> free_units k gs \<longrightarrow> um_size k q = um_size h q))"
proof (cases "grow (8 * um_brk h) (sint ((if n < 4096 then 4096 else n) * 8))")
  case False
  then show ?thesis by (simp add: morecore_def user_sbrk_def)
next
  case True
  define nu where "nu = (if n < 4096 then 4096 else n)"
  have nu: "uint nu < 2 ^ 28" "uint n \<le> uint nu" "0 < nu" using n by (auto simp: nu_def word_less_def)
  have pos: "0 < uint nu" using nu(3) by (simp add: word_less_def)
  have s8: "sint (nu * 8) = uint nu * 8" using sint_times_8[OF nu(1)] .
  have "0 < uint nu * 8" "grow (8 * um_brk h) (uint nu * 8)" using True pos unfolding nu_def[symmetric] s8 by simp_all
  then have "8 * um_brk h + uint nu * 8 < 0x80000000" using lim unfolding below_kernel_def by blast
  then have b: "um_brk h < um_brk h + uint nu" "um_brk h + uint nu < 2 ^ 28" using pos by simp_all
  define h1 where "h1 = set_size (um_brk h) nu (h\<lparr>um_brk := um_brk h + uint nu\<rparr>)"
  note g = arena_grown[OF ar b, of nu, folded h1_def]
  have h1: "um_base h1 = um_base h" "um_brk h1 = um_brk h + uint nu" "um_size h1 (um_brk h) = nu" "block_end h1 (um_brk h) = um_brk h + uint nu"
    by (simp_all add: h1_def block_end_def)
  have "in_use h1 fs (um_brk h)"
    unfolding in_use_def h1 g(2) using ar nu(3) free_units_below[OF ar] by (force simp: arena_def)
  from mfree_spec[OF g(1) this] obtain k gs where k: "mfree (um_brk h + 1) h1 = Some k" "arena k gs"
    "free_units k gs = free_units h fs \<union> {um_brk h..<um_brk h + uint nu}" "um_base k = um_base h" "um_brk k = um_brk h + uint nu"
    "\<forall>q. q \<notin> free_units h fs \<union> {um_brk h..<um_brk h + uint nu} \<longrightarrow> um_size k q = um_size h1 q"
    unfolding h1 g(2) by blast
  have "morecore grow n h = Some (um_freep k, k)"
    using True k(1) unfolding morecore_def user_sbrk_def nu_def[symmetric] Let_def s8 h1_def by simp
  moreover have "um_freep k \<noteq> 0" using k(2) block_end_ge[of "um_base k" k] by (force simp: arena_def spaced_Cons)
  moreover have "um_size k q = um_size h q" if "q \<notin> free_units k gs" for q
    using k(3,6) that pos by (auto simp: h1_def)
  ultimately show ?thesis using k nu(2) by (intro disjI2 exI[of _ k] exI[of _ gs]) auto
qed

lemma wide_block:
  assumes "arena h fs" "{a..<a + n} \<subseteq> free_units h fs" "0 < n"
  shows "\<exists>g\<in>set fs. n \<le> uint (um_size h g)"
proof -
  have "a \<in> free_units h fs" using assms(2,3) by auto
  then obtain g where g: "g \<in> set fs" "g \<le> a" "a < block_end h g" by (auto simp: free_units_def)
  have "a + n \<le> block_end h g"
  proof (rule ccontr)
    assume "\<not> a + n \<le> block_end h g"
    then have "block_end h g \<in> free_units h fs" using assms(2) g(3) by auto
    then obtain y where y: "y \<in> set fs" "y \<le> block_end h g" "block_end h g < block_end h y" by (auto simp: free_units_def)
    have sp: "spaced h fs (um_brk h)" using assms(1) by (simp add: arena_def spaced_Cons)
    from split_list[OF g(1)] obtain us vs where fs: "fs = us @ g # vs" by blast
    have "y \<in> set us \<or> y = g \<or> y \<in> set vs" using y(1) fs by auto
    moreover have "\<forall>u\<in>set us. block_end h u < g" "\<forall>v\<in>set vs. block_end h g < v"
      using sp unfolding fs by (auto simp: spaced_append spaced_Cons)
    ultimately show False using y(2,3) block_end_ge[of g h] by fastforce
  qed
  then have "n \<le> uint (um_size h g)" using g(2) by (simp add: block_end_def)
  then show ?thesis using g(1) by blast
qed

section \<open>malloc\<close>

text \<open>The heap of a program: either \<^verbatim>\<open>malloc\<close> was never called, or there is a list.\<close>

definition heap_ok :: "umem \<Rightarrow> int set \<Rightarrow> bool" where
  "heap_ok h U \<longleftrightarrow> (if um_freep h = 0 then U = {} \<and> 0 < um_base h \<and> um_base h < um_brk h \<and> um_brk h < 2 ^ 28
     else \<exists>fs. arena h fs \<and> free_units h fs = U)"

definition init_list :: "umem \<Rightarrow> umem" where
  "init_list h = (if um_freep h = 0
     then (set_size (um_base h) 0 (set_ptr (um_base h) (um_base h) h))\<lparr>um_freep := um_base h\<rparr> else h)"

lemma init_list_arena:
  assumes "heap_ok h U"
  shows "\<exists>fs. arena (init_list h) fs \<and> free_units (init_list h) fs = U" "um_base (init_list h) = um_base h"
    "um_brk (init_list h) = um_brk h" "q \<noteq> um_base h \<Longrightarrow> um_size (init_list h) q = um_size h q"
proof -
  show "\<exists>fs. arena (init_list h) fs \<and> free_units (init_list h) fs = U"
  proof (cases "um_freep h = 0")
    case True
    then have "arena (init_list h) []" using assms by (simp add: arena_def init_list_def heap_ok_def spaced_Cons block_end_def)
    then show ?thesis using True assms by (intro exI[of _ "[]"]) (simp add: heap_ok_def)
  next
    case False
    then show ?thesis using assms by (simp add: heap_ok_def init_list_def)
  qed
qed (simp_all add: init_list_def)

lemma arena_freep: "arena h fs \<Longrightarrow> um_freep h \<noteq> 0"
  using block_end_ge[of "um_base h" h] by (force simp: arena_def spaced_Cons)

lemma arena_heap_ok: "arena h fs \<Longrightarrow> heap_ok h (free_units h fs)"
proof -
  assume ar: "arena h fs"
  then show ?thesis using arena_freep[OF ar] by (auto simp: heap_ok_def)
qed

lemma malloc_list:
  assumes ar: "arena h fs" and n: "0 < n" "uint n < 2 ^ 28" and lim: "below_kernel grow"
  shows "malloc_loop grow n (um_freep h) (um_ptr h (um_freep h)) h = Some (0, h) \<or>
    (\<exists>a k. malloc_loop grow n (um_freep h) (um_ptr h (um_freep h)) h = Some (a + 1, k) \<and> um_brk h \<le> um_brk k \<and>
      taken h (free_units h fs \<union> {um_brk h..<um_brk k}) n a k)"
proof -
  from cycle_from[OF ar] obtain xs where xs: "path h (um_ptr h (um_freep h)) xs (um_freep h)" "um_freep h \<notin> set xs" by blast
  have f: "um_freep h \<in> insert (um_base h) (set fs)" using ar by (simp add: arena_def)
  show ?thesis
  proof (cases "\<exists>x\<in>insert (um_freep h) (set xs). n \<le> um_size h x")
    case True
    from malloc_walks[OF ar xs(1) f refl n(1) True xs(2), of grow] show ?thesis by force
  next
    case False
    note past = malloc_walks_past[OF ar xs(1) False, of grow "um_freep h"]
    from morecore_spec[OF ar n lim] show ?thesis
    proof (elim disjE exE conjE)
      assume "morecore grow n h = Some (0, h)"
      then show ?thesis unfolding past by simp
    next
      fix k gs
      assume k: "morecore grow n h = Some (um_freep k, k)" "um_freep k \<noteq> 0" "arena k gs" "um_base k = um_base h"
        "free_units k gs = free_units h fs \<union> {um_brk h..<um_brk k}" "um_brk h + uint n \<le> um_brk k"
        "\<forall>q. q \<notin> free_units k gs \<longrightarrow> um_size k q = um_size h q"
      from cycle_from[OF k(3)] obtain ys where ys: "path k (um_ptr k (um_freep k)) ys (um_freep k)" "um_freep k \<notin> set ys"
        "insert (um_freep k) (set ys) = insert (um_base k) (set gs)" by blast
      have f: "um_freep k \<in> insert (um_base k) (set gs)" using k(3) by (simp add: arena_def)
      have "{um_brk h..<um_brk h + uint n} \<subseteq> free_units k gs" "0 < uint n" using k(5,6) n(1) by (auto simp: word_less_def)
      from wide_block[OF k(3) this] have "\<exists>x\<in>insert (um_freep k) (set ys). n \<le> um_size k x" unfolding ys(3) by (auto simp: word_le_def)
      from malloc_walks[OF k(3) ys(1) f refl n(1) this ys(2), of grow] obtain a t where
        t: "malloc_loop grow n (um_freep k) (um_ptr k (um_freep k)) k = Some (a + 1, t)" "taken k (free_units k gs) n a t" "um_brk t = um_brk k"
        by blast
      have "0 \<le> uint n" by simp
      then have le: "um_brk h \<le> um_brk t" using k(6) t(3) by linarith
      have "taken h (free_units h fs \<union> {um_brk h..<um_brk t}) n a t" using t(2,3) k(4,5,7) by (simp add: taken_def)
      moreover have "malloc_loop grow n (um_freep h) (um_ptr h (um_freep h)) h = Some (a + 1, t)" unfolding past using k(1,2) t(1) by simp
      ultimately show ?thesis using le by blast
    qed
  qed
qed

text \<open>The units of a request hold its bytes and the header.\<close>

lemma units_enough:
  assumes "unat nbytes < 2 ^ 31 - 16"
  shows "0 < units nbytes" "uint (units nbytes) < 2 ^ 28" "int (unat nbytes) \<le> 8 * (uint (units nbytes) - 1)"
proof -
  have a: "unat (nbytes + 8 - 1) = unat nbytes + 7"
  proof -
    have "nbytes + 8 - 1 = nbytes + 7" by simp
    then show ?thesis using assms by (simp add: unat_add32)
  qed
  define m where "m = (nbytes + 8 - 1) div 8"
  have d: "unat m = (unat nbytes + 7) div 8" using a unfolding m_def by (simp add: unat_div)
  have "unat m + 1 < 2 ^ 28" using assms d by simp
  then have "unat (m + 1) = unat m + 1" by (simp add: unat_add32)
  then have u: "unat (units nbytes) = (unat nbytes + 7) div 8 + 1" unfolding units_def m_def[symmetric] using d by simp
  then have i: "uint (units nbytes) = int ((unat nbytes + 7) div 8 + 1)" by (simp add: u uint_nat)
  show "0 < units nbytes" using u by (metis word_gt_0 unat_0 add_is_0 one_neq_zero)
  show "uint (units nbytes) < 2 ^ 28" unfolding i using assms by simp
  have "unat nbytes \<le> 8 * ((unat nbytes + 7) div 8)" by presburger
  then have "int (unat nbytes) \<le> int (8 * ((unat nbytes + 7) div 8))" by (simp only: of_nat_le_iff)
  then show "int (unat nbytes) \<le> 8 * (uint (units nbytes) - 1)" unfolding i of_nat_add of_nat_mult by simp
qed

lemma malloc_spec:
  assumes ok: "heap_ok h U" and n: "unat nbytes < 2 ^ 31 - 16" and lim: "below_kernel grow"
  shows "\<exists>r k V. malloc grow nbytes h = Some (r, k) \<and> heap_ok k V \<and> um_freep k \<noteq> 0 \<and> um_base k = um_base h \<and> um_brk h \<le> um_brk k \<and>
    (\<forall>q. q \<notin> insert (um_base h) (U \<union> {um_brk h..<um_brk k}) \<longrightarrow> um_size k q = um_size h q) \<and>
    (if r = 0 then V = U \<and> um_brk k = um_brk h
     else um_size k (r - 1) = units nbytes \<and> um_base k < r - 1 \<and> block_end k (r - 1) \<le> um_brk k \<and>
       V \<inter> {r - 1..<block_end k (r - 1)} = {} \<and> V \<union> {r - 1..<block_end k (r - 1)} = U \<union> {um_brk h..<um_brk k})"
proof -
  let ?h = "init_list h"
  note I = init_list_arena[OF ok]
  from I(1) obtain fs where fs: "arena ?h fs" "free_units ?h fs = U" by blast
  note u = units_enough[OF n]
  have m: "malloc grow nbytes h = malloc_loop grow (units nbytes) (um_freep ?h) (um_ptr ?h (um_freep ?h)) ?h"
    by (simp add: malloc_def init_list_def Let_def)
  from malloc_list[OF fs(1) u(1,2) lim] show ?thesis
  proof (elim disjE exE conjE)
    assume "malloc_loop grow (units nbytes) (um_freep ?h) (um_ptr ?h (um_freep ?h)) ?h = Some (0, ?h)"
    then show ?thesis using arena_heap_ok[OF fs(1)] arena_freep[OF fs(1)] fs(2) I(2-4) m by (intro exI[of _ 0] exI[of _ ?h] exI[of _ U]) simp
  next
    fix a k
    assume k: "malloc_loop grow (units nbytes) (um_freep ?h) (um_ptr ?h (um_freep ?h)) ?h = Some (a + 1, k)" "um_brk ?h \<le> um_brk k"
      "taken ?h (free_units ?h fs \<union> {um_brk ?h..<um_brk k}) (units nbytes) a k"
    from k(3) obtain gs where gs: "arena k gs" "in_use k gs a" "free_units k gs \<union> {a..<block_end k a} = U \<union> {um_brk h..<um_brk k}"
      "um_size k a = units nbytes" "um_base k = um_base h" "\<forall>q. q \<notin> U \<union> {um_brk h..<um_brk k} \<longrightarrow> um_size k q = um_size ?h q"
      unfolding taken_def fs(2) I(2,3) by blast
    have "0 < a" using gs(1,2) by (auto simp: in_use_def arena_def)
    then show ?thesis using k(1,2) gs I(3,4) m arena_heap_ok[OF gs(1)] arena_freep[OF gs(1)]
      by (intro exI[of _ "a + 1"] exI[of _ k] exI[of _ "free_units k gs"]) (auto simp: in_use_def)
  qed
qed

end
