(* ===== verification/Malloc_Safe.thy ===== *)
theory Malloc_Safe
  imports Malloc
begin

text \<open>
  What \<^verbatim>\<open>malloc\<close> and \<^verbatim>\<open>free\<close> promise to a program, as the contract of an allocator, and that \<^verbatim>\<open>umalloc.c\<close> keeps it: in every sequence of
  requests the live blocks are apart and large enough.
\<close>

section \<open>The contract\<close>

datatype 'r request = Alloc 'r | Release nat

text \<open>A program that allocates and releases: \<open>live\<close> lists the pointers it holds with the requests they answer.\<close>

fun serve :: "('r \<Rightarrow> 's \<Rightarrow> (int \<times> 's) option) \<Rightarrow> (int \<Rightarrow> 's \<Rightarrow> 's option) \<Rightarrow> 'r request list \<Rightarrow> 's \<Rightarrow> (int \<times> 'r) list \<Rightarrow>
    ('s \<times> (int \<times> 'r) list) option" where
  "serve al rel [] s live = Some (s, live)"
| "serve al rel (Alloc n # rs) s live =
     (case al n s of None \<Rightarrow> None | Some (r, t) \<Rightarrow> serve al rel rs t (if r = 0 then live else (r, n) # live))"
| "serve al rel (Release i # rs) s live =
     (if i < length live
      then case rel (fst (live ! i)) s of None \<Rightarrow> None | Some t \<Rightarrow> serve al rel rs t (take i live @ drop (Suc i) live)
      else serve al rel rs s live)"

locale allocator =
  fixes inv :: "'s \<Rightarrow> int set \<Rightarrow> bool" and extent :: "'s \<Rightarrow> int \<Rightarrow> int set"
    and alloc :: "'r \<Rightarrow> 's \<Rightarrow> (int \<times> 's) option" and release :: "int \<Rightarrow> 's \<Rightarrow> 's option"
    and ok :: "'r \<Rightarrow> bool" and fits :: "'r \<Rightarrow> int set \<Rightarrow> bool"
  assumes alloc_law: "inv s live \<Longrightarrow> ok n \<Longrightarrow> \<exists>r t. alloc n s = Some (r, t) \<and> (\<forall>a\<in>live. extent t a = extent s a) \<and>
      (if r = 0 then inv t live else r \<notin> live \<and> fits n (extent t r) \<and> inv t (insert r live))"
    and release_law: "inv s live \<Longrightarrow> a \<in> live \<Longrightarrow> \<exists>t. release a s = Some t \<and> inv t (live - {a}) \<and> (\<forall>b\<in>live - {a}. extent t b = extent s b)"
begin

definition holds :: "'s \<Rightarrow> (int \<times> 'r) list \<Rightarrow> bool" where
  "holds s live \<longleftrightarrow> inv s (fst ` set live) \<and> distinct (map fst live) \<and> (\<forall>(a, n)\<in>set live. fits n (extent s a))"

lemma holds_alloc:
  assumes "holds s live" "ok n"
  shows "\<exists>r t. alloc n s = Some (r, t) \<and> holds t (if r = 0 then live else (r, n) # live)"
proof -
  from alloc_law[of s "fst ` set live" n] assms obtain r t where t: "alloc n s = Some (r, t)" "\<forall>a\<in>fst ` set live. extent t a = extent s a"
    "if r = 0 then inv t (fst ` set live) else r \<notin> fst ` set live \<and> fits n (extent t r) \<and> inv t (insert r (fst ` set live))"
    unfolding holds_def by blast
  then have "\<forall>(a, n)\<in>set live. fits n (extent t a)" using assms(1) unfolding holds_def by force
  then show ?thesis using t assms(1) by (auto simp: holds_def)
qed

lemma holds_release:
  assumes "holds s live" "i < length live"
  shows "\<exists>t. release (fst (live ! i)) s = Some t \<and> holds t (take i live @ drop (Suc i) live)"
proof -
  let ?a = "fst (live ! i)" and ?rest = "take i live @ drop (Suc i) live"
  have L: "live = take i live @ live ! i # drop (Suc i) live" using id_take_nth_drop[OF assms(2)] .
  have d: "distinct (map fst live)" "inv s (fst ` set live)" "?a \<in> fst ` set live"
    using assms by (auto simp: holds_def)
  have dist: "distinct (map fst (take i live @ live ! i # drop (Suc i) live))" using d(1) L by simp
  have rest: "fst ` set ?rest = fst ` set live - {?a}"
  proof -
    have "fst ` set live = fst ` set (take i live @ live ! i # drop (Suc i) live)" using L by simp
    moreover have "?a \<notin> fst ` set ?rest" using dist by (simp only: map_append list.map distinct_append distinct.simps set_append set_map) auto
    ultimately show ?thesis by (simp only: set_append list.set image_Un image_insert) blast
  qed
  from release_law[OF d(2,3)] obtain t where t: "release ?a s = Some t" "inv t (fst ` set ?rest)" "\<forall>b\<in>fst ` set ?rest. extent t b = extent s b"
    unfolding rest by blast
  have "set ?rest \<subseteq> set live" using set_take_subset[of i live] set_drop_subset[of "Suc i" live] by auto
  have "fits n (extent t a)" if "(a, n) \<in> set ?rest" for a n
  proof -
    have "fits n (extent s a)" using assms(1) \<open>set ?rest \<subseteq> set live\<close> that unfolding holds_def by blast
    moreover have "a \<in> fst ` set ?rest" using that by force
    ultimately show ?thesis using t(3) by metis
  qed
  then have "\<forall>(a, n)\<in>set ?rest. fits n (extent t a)" by blast
  then show ?thesis using t(1,2) dist by (intro exI[of _ t]) (simp add: holds_def)
qed

text \<open>Every sequence of requests is served, and the program holds what it asked for.\<close>

lemma serves: "holds s live \<Longrightarrow> \<forall>n. Alloc n \<in> set rs \<longrightarrow> ok n \<Longrightarrow> \<exists>t live'. serve alloc release rs s live = Some (t, live') \<and> holds t live'"
proof (induction rs arbitrary: s live)
  case (Cons r rs)
  show ?case
  proof (cases r)
    case (Alloc n)
    then obtain p t where t: "alloc n s = Some (p, t)" "holds t (if p = 0 then live else (p, n) # live)"
      using holds_alloc[OF Cons.prems(1), of n] Cons.prems(2) by auto
    then show ?thesis using Cons.IH[OF t(2)] Cons.prems(2) Alloc by simp
  next
    case (Release i)
    show ?thesis
    proof (cases "i < length live")
      case True
      then obtain t where t: "release (fst (live ! i)) s = Some t" "holds t (take i live @ drop (Suc i) live)"
        using holds_release[OF Cons.prems(1)] by blast
      then show ?thesis using Cons.IH[OF t(2)] Cons.prems(2) Release True by simp
    next
      case False
      then show ?thesis using Cons.IH[OF Cons.prems(1)] Cons.prems(2) Release by simp
    qed
  qed
qed auto

end

section \<open>umalloc.c keeps the contract\<close>

definition extent :: "umem \<Rightarrow> int \<Rightarrow> int set" where
  "extent h r = {r - 1..<block_end h (r - 1)}"

definition heap_inv :: "(int \<Rightarrow> int \<Rightarrow> bool) \<Rightarrow> umem \<Rightarrow> int set \<Rightarrow> bool" where
  "heap_inv grow h live \<longleftrightarrow> below_kernel grow \<and> (um_freep h = 0 \<longrightarrow> live = {}) \<and>
     (\<exists>U. heap_ok h U \<and> (\<forall>r\<in>live. um_base h < r - 1 \<and> 0 < um_size h (r - 1) \<and> block_end h (r - 1) \<le> um_brk h \<and> extent h r \<inter> U = {})) \<and>
     (\<forall>r\<in>live. \<forall>q\<in>live. r \<noteq> q \<longrightarrow> extent h r \<inter> extent h q = {})"

definition request_ok :: "uint \<Rightarrow> bool" where
  "request_ok n \<longleftrightarrow> unat n < 2 ^ 31 - 16"

text \<open>The units of a block after its header hold the bytes of the request.\<close>

definition request_fits :: "uint \<Rightarrow> int set \<Rightarrow> bool" where
  "request_fits n S \<longleftrightarrow> int (unat n) \<le> 8 * (int (card S) - 1)"

lemma extent_cong: "um_size k (r - 1) = um_size h (r - 1) \<Longrightarrow> extent k r = extent h r"
  by (simp add: extent_def block_end_def)

lemma extent_header: "0 < um_size h (r - 1) \<Longrightarrow> r - 1 \<in> extent h r"
  using block_end_pos[of h "r - 1"] by (simp add: extent_def)

lemma heap_inv_kept:
  assumes inv: "heap_inv grow h live" and ok: "heap_ok k V" "um_freep k \<noteq> 0" and base: "um_base k = um_base h" "um_brk h \<le> um_brk k"
    and sub: "live' \<subseteq> live" and same: "\<And>r. r \<in> live' \<Longrightarrow> um_size k (r - 1) = um_size h (r - 1)"
    and out: "\<And>r. r \<in> live' \<Longrightarrow> extent h r \<inter> V = {}"
  shows "heap_inv grow k live'"
proof -
  from inv[unfolded heap_inv_def] obtain U where U: "below_kernel grow"
    "\<forall>r\<in>live. um_base h < r - 1 \<and> 0 < um_size h (r - 1) \<and> block_end h (r - 1) \<le> um_brk h \<and> extent h r \<inter> U = {}"
    "\<forall>r\<in>live. \<forall>q\<in>live. r \<noteq> q \<longrightarrow> extent h r \<inter> extent h q = {}" by (elim conjE exE) (rule that; assumption)
  have e: "extent k r = extent h r" "block_end k (r - 1) = block_end h (r - 1)" if "r \<in> live'" for r
    using same[OF that] by (simp_all add: extent_def block_end_def)
  have "um_base k < r - 1 \<and> 0 < um_size k (r - 1) \<and> block_end k (r - 1) \<le> um_brk k \<and> extent k r \<inter> V = {}" if r: "r \<in> live'" for r
  proof -
    have "r \<in> live" using r sub by blast
    then show ?thesis using U(2)[rule_format, of r] same[OF r] out[OF r] e[OF r] base by simp
  qed
  moreover have "extent k r \<inter> extent k q = {}" if "r \<in> live'" "q \<in> live'" "r \<noteq> q" for r q
    using U(3)[rule_format, of r q] that sub e(1)[OF that(1)] e(1)[OF that(2)] by blast
  ultimately show ?thesis unfolding heap_inv_def using U(1) ok by blast
qed

lemma release_keeps:
  assumes inv: "heap_inv grow h live" and a: "a \<in> live"
  shows "\<exists>k. mfree a h = Some k \<and> heap_inv grow k (live - {a}) \<and> (\<forall>b\<in>live - {a}. extent k b = extent h b)"
proof -
  from inv[unfolded heap_inv_def] obtain U where U0: "um_freep h = 0 \<longrightarrow> live = {}" "heap_ok h U"
    "\<forall>r\<in>live. um_base h < r - 1 \<and> 0 < um_size h (r - 1) \<and> block_end h (r - 1) \<le> um_brk h \<and> extent h r \<inter> U = {}"
    "\<forall>r\<in>live. \<forall>q\<in>live. r \<noteq> q \<longrightarrow> extent h r \<inter> extent h q = {}" by (elim conjE exE) (rule that; assumption)
  note U = U0(1,2) U0(3)[rule_format] U0(4)[rule_format]
  from U(1,2) a obtain fs where fs: "arena h fs" "free_units h fs = U" by (auto simp: heap_ok_def)
  have use: "in_use h fs (a - 1)" using U(3)[OF a] fs(2) by (simp add: in_use_def extent_def)
  from mfree_spec[OF fs(1) use] obtain k gs where k: "mfree a h = Some k" "arena k gs" "free_units k gs = U \<union> extent h a"
    "um_base k = um_base h" "um_brk k = um_brk h" "\<forall>q. q \<notin> U \<union> extent h a \<longrightarrow> um_size k q = um_size h q"
    unfolding fs(2) extent_def by auto
  have out: "extent h r \<inter> (U \<union> extent h a) = {}" if "r \<in> live - {a}" for r using U(3)[of r] U(4)[of r a] a that by blast
  then have same: "um_size k (r - 1) = um_size h (r - 1)" if "r \<in> live - {a}" for r
    using k(6) extent_header[of h r] U(3)[of r] that by blast
  have "um_freep k \<noteq> 0" "heap_ok k (U \<union> extent h a)" using arena_heap_ok[OF k(2)] arena_freep[OF k(2)] k(3) by simp_all
  then have "heap_inv grow k (live - {a})"
    using heap_inv_kept[OF inv, of k "U \<union> extent h a" "live - {a}"] k(4,5) same out by auto
  then show ?thesis using k(1) same extent_cong by blast
qed

lemma alloc_keeps:
  assumes inv: "heap_inv grow h live" and n: "request_ok n"
  shows "\<exists>r k. malloc grow n h = Some (r, k) \<and> (\<forall>a\<in>live. extent k a = extent h a) \<and>
    (if r = 0 then heap_inv grow k live else r \<notin> live \<and> request_fits n (extent k r) \<and> heap_inv grow k (insert r live))"
proof -
  from inv[unfolded heap_inv_def] obtain U where U0: "below_kernel grow" "heap_ok h U"
    "\<forall>r\<in>live. um_base h < r - 1 \<and> 0 < um_size h (r - 1) \<and> block_end h (r - 1) \<le> um_brk h \<and> extent h r \<inter> U = {}"
    by (elim conjE exE) (rule that; assumption)
  from malloc_spec[OF U0(2) n[unfolded request_ok_def] U0(1), folded extent_def] obtain r k V where k: "malloc grow n h = Some (r, k)" "heap_ok k V" and freep: "um_freep k \<noteq> 0" and k':
    "um_base k = um_base h" "um_brk h \<le> um_brk k" "\<forall>q. q \<notin> insert (um_base h) (U \<union> {um_brk h..<um_brk k}) \<longrightarrow> um_size k q = um_size h q"
    "if r = 0 then V = U \<and> um_brk k = um_brk h
     else um_size k (r - 1) = units n \<and> um_base k < r - 1 \<and> block_end k (r - 1) \<le> um_brk k \<and> V \<inter> extent k r = {} \<and> V \<union> extent k r = U \<union> {um_brk h..<um_brk k}"
    by (elim exE conjE) (rule that; assumption)
  note k = k k'
  have old: "extent h a \<inter> (U \<union> {um_brk h..<um_brk k}) = {}" if "a \<in> live" for a
    using U0(3)[rule_format, OF that] unfolding extent_def by auto
  have same: "um_size k (a - 1) = um_size h (a - 1)" if "a \<in> live" for a
  proof -
    have "a - 1 \<noteq> um_base h" "a - 1 \<in> extent h a" using U0(3)[rule_format, OF that] extent_header by auto
    then show ?thesis using k(5) old[OF that] by blast
  qed
  have ext: "\<forall>a\<in>live. extent k a = extent h a" using same by (simp add: extent_def block_end_def)
  show ?thesis
  proof (cases "r = 0")
    case True
    then have "heap_inv grow k live" using heap_inv_kept[OF inv k(2) freep k(3,4) subset_refl same] old k(6) by auto
    then show ?thesis using k(1) ext True by auto
  next
    case False
    then have r: "um_size k (r - 1) = units n" "um_base k < r - 1" "block_end k (r - 1) \<le> um_brk k" "V \<inter> extent k r = {}" "V \<union> extent k r = U \<union> {um_brk h..<um_brk k}"
      using k(6) by simp_all
    note u = units_enough[OF n[unfolded request_ok_def]]
    have V: "extent h a \<inter> V = {}" "extent h a \<inter> extent k r = {}" if "a \<in> live" for a using old[OF that] r(5) by auto
    have kept: "heap_inv grow k live" using heap_inv_kept[OF inv k(2) freep k(3,4) subset_refl same V(1)] by simp
    have "r - 1 \<in> extent k r" using extent_header r(1) u(1) by simp
    then have "r \<notin> live" using V(2) ext by blast
    moreover have "heap_inv grow k (insert r live)"
    proof -
      have "um_base k < a - 1 \<and> 0 < um_size k (a - 1) \<and> block_end k (a - 1) \<le> um_brk k \<and> extent k a \<inter> V = {}" if a: "a \<in> insert r live" for a
      proof (cases "a = r")
        case True
        then show ?thesis using r(2-4) r(1) u(1) by (simp add: Int_commute)
      next
        case False
        then have "a \<in> live" using a by blast
        then show ?thesis using U0(3)[rule_format, of a] same[of a] V(1)[of a] ext k(3,4) by (simp add: block_end_def)
      qed
      moreover have "\<forall>a\<in>live. \<forall>b\<in>live. a \<noteq> b \<longrightarrow> extent k a \<inter> extent k b = {}" using kept unfolding heap_inv_def by (elim conjE)
      moreover have "\<forall>a\<in>live. extent k a \<inter> extent k r = {}" using V(2) ext by simp
      ultimately show ?thesis unfolding heap_inv_def using U0(1) freep k(2) by (simp add: Int_commute) blast
    qed
    moreover have "request_fits n (extent k r)"
      using u(3) r(1) by (simp add: request_fits_def extent_def block_end_def)
    ultimately show ?thesis using k(1) ext False by auto
  qed
qed

interpretation umalloc: allocator "heap_inv grow" extent "malloc grow" mfree request_ok request_fits for grow
  by unfold_locales (erule (1) alloc_keeps, erule (1) release_keeps)

section \<open>Property\<close>

text \<open>
  C6. From a fresh process, whatever sequence of \<^verbatim>\<open>malloc\<close> and \<^verbatim>\<open>free\<close> calls a program makes, with requests below 2 gigabytes and pointers it
  holds, every call returns. The blocks it holds have different pointers, lie between \<^verbatim>\<open>base\<close> and the end of the memory of the
  process, are large enough for their requests, and no two of them share a unit.
\<close>

theorem malloc_free_safe:
  assumes "below_kernel grow" "um_freep h = 0" "0 < um_base h" "um_base h < um_brk h" "um_brk h < 2 ^ 28"
    and "\<forall>n. Alloc n \<in> set rs \<longrightarrow> unat n < 2 ^ 31 - 16"
  shows "\<exists>k live. serve (malloc grow) mfree rs h [] = Some (k, live) \<and> distinct (map fst live) \<and>
    (\<forall>(r, n)\<in>set live. um_base k < r - 1 \<and> block_end k (r - 1) \<le> um_brk k \<and> int (unat n) \<le> 8 * (block_end k (r - 1) - r)) \<and>
    (\<forall>(r, n)\<in>set live. \<forall>(q, m)\<in>set live. r \<noteq> q \<longrightarrow> {r - 1..<block_end k (r - 1)} \<inter> {q - 1..<block_end k (q - 1)} = {})"
proof -
  have "heap_inv grow h {}" using assms(1-5) by (simp add: heap_inv_def heap_ok_def)
  then have "umalloc.holds grow h []" by (simp add: umalloc.holds_def)
  moreover have "\<forall>n. Alloc n \<in> set rs \<longrightarrow> request_ok n" using assms(6) by (simp add: request_ok_def)
  ultimately obtain k live where k: "serve (malloc grow) mfree rs h [] = Some (k, live)" "umalloc.holds grow k live"
    using umalloc.serves by blast
  have H: "heap_inv grow k (fst ` set live)" "distinct (map fst live)" "\<forall>(r, n)\<in>set live. request_fits n (extent k r)"
    using k(2) unfolding umalloc.holds_def by simp_all
  have "um_base k < r - 1 \<and> block_end k (r - 1) \<le> um_brk k \<and> int (unat n) \<le> 8 * (block_end k (r - 1) - r)" if rn: "(r, n) \<in> set live" for r n
  proof -
    have "r \<in> fst ` set live" "request_fits n (extent k r)" using rn H(3) by force+
    then have "um_base k < r - 1" "block_end k (r - 1) \<le> um_brk k" using H(1) unfolding heap_inv_def by blast+
    moreover have "int (card (extent k r)) = block_end k (r - 1) - (r - 1)" using block_end_ge[of "r - 1" k] by (simp add: extent_def)
    ultimately show ?thesis using \<open>request_fits n (extent k r)\<close> by (simp add: request_fits_def)
  qed
  moreover have "extent k r \<inter> extent k q = {}" if "(r, n) \<in> set live" "(q, m) \<in> set live" "r \<noteq> q" for r n q m
  proof -
    have rq: "r \<in> fst ` set live" "q \<in> fst ` set live" using that by force+
    have "\<forall>r\<in>fst ` set live. \<forall>q\<in>fst ` set live. r \<noteq> q \<longrightarrow> extent k r \<inter> extent k q = {}"
      using H(1) unfolding heap_inv_def by (elim conjE)
    from this[rule_format, OF rq that(3)] show ?thesis .
  qed
  ultimately show ?thesis using k(1) H(2)
    by (intro exI[of _ k] exI[of _ live] conjI; simp only: extent_def) blast+
qed

definition fresh_heap :: umem where
  "fresh_heap = \<lparr>um_ptr = (\<lambda>_. 0), um_size = (\<lambda>_. 0), um_freep = 0, um_base = 100, um_brk = 512\<rparr>"

definition room :: "int \<Rightarrow> int \<Rightarrow> bool" where
  "room sz n \<longleftrightarrow> sz + n < 0x80000000"

lemma room_below_kernel: "below_kernel room"
  by (simp add: below_kernel_def room_def)

theorem malloc_free_safe_witness:
  "\<exists>k live. serve (malloc room) mfree [Alloc 100, Alloc 60000, Release 1, Alloc 16] fresh_heap [] = Some (k, live) \<and>
     distinct (map fst live) \<and> (\<forall>(r, n)\<in>set live. int (unat n) \<le> 8 * (block_end k (r - 1) - r))"
proof -
  have "\<forall>n. Alloc n \<in> set [Alloc 100, Alloc 60000, Release 1, Alloc 16] \<longrightarrow> unat (n :: uint) < 2 ^ 31 - 16" by auto
  from malloc_free_safe[OF room_below_kernel _ _ _ _ this, of fresh_heap] obtain k live where
    k: "serve (malloc room) mfree [Alloc 100, Alloc 60000, Release 1, Alloc 16] fresh_heap [] = Some (k, live)" "distinct (map fst live)"
    "\<forall>(r, n)\<in>set live. um_base k < r - 1 \<and> block_end k (r - 1) \<le> um_brk k \<and> int (unat n) \<le> 8 * (block_end k (r - 1) - r)"
    by (auto simp: fresh_heap_def)
  then show ?thesis by (intro exI[of _ k] exI[of _ live]) auto
qed

text \<open>
  The computation of the units wraps: the largest request, 4294967295 bytes, asks for one unit, and \<^verbatim>\<open>malloc\<close> returns a block that
  has only its header.
\<close>

lemma malloc_wraps:
  "units 0xFFFFFFFF = 1"
  "case malloc room 0xFFFFFFFF fresh_heap of Some (r, k) \<Rightarrow> r \<noteq> 0 \<and> block_end k (r - 1) = r | None \<Rightarrow> False"
  by code_simp+

end
