(* ===== verification/Mkfs.thy ===== *)
theory Mkfs
  imports Fs_Alloc
begin

unbundle bit_operations_syntax

text \<open>
  The host program \<^verbatim>\<open>mkfs.c\<close> that builds the file system image the kernel mounts: the layout of the disk, the sectors of the image
  file, allocation of inodes and of blocks, appending to a file, the bitmap and \<^verbatim>\<open>main\<close>. The host's system calls are
  a parameter, the record \<open>mkhost\<close>.
\<close>

section \<open>Layout\<close>

abbreviation (input) FSSIZE :: nat where "FSSIZE \<equiv> 40000"
abbreviation (input) NINODES :: nat where "NINODES \<equiv> 200"

definition mkfs_nbitmap :: nat where
  "mkfs_nbitmap = FSSIZE div (BSIZE * 8) + 1"

definition mkfs_ninodeblocks :: nat where
  "mkfs_ninodeblocks = NINODES div IPB + 1"

definition mkfs_nlog :: nat where
  "mkfs_nlog = 30"

definition mkfs_nmeta :: nat where
  "mkfs_nmeta = 2 + mkfs_nlog + mkfs_ninodeblocks + mkfs_nbitmap"

definition mkfs_sb :: superblock where
  "mkfs_sb = \<lparr>sb_size = of_nat FSSIZE, sb_nblocks = of_nat (FSSIZE - mkfs_nmeta), sb_ninodes = of_nat NINODES,
     sb_nlog = of_nat mkfs_nlog, sb_logstart = 2, sb_inodestart = of_nat (2 + mkfs_nlog),
     sb_bmapstart = of_nat (2 + mkfs_nlog + mkfs_ninodeblocks)\<rparr>"

section \<open>The host and the state\<close>

text \<open>
  What the program asks of the host: whether the image can be opened, whether a sector of it can be written, and what opening an
  input file gives, the data of the successive calls of \<^verbatim>\<open>read\<close> up to the first that returns no data.
\<close>

record mkhost =
  h_image :: "uchar list \<Rightarrow> bool"
  h_write :: "nat \<Rightarrow> bool"
  h_open :: "uchar list \<Rightarrow> uchar list list option"

text \<open>The globals: the image file as the list of its sectors, and the counters of the two allocators.\<close>

record mkfs =
  m_host :: mkhost
  m_img :: "stream list"
  m_freeinode :: uint
  m_freeblock :: uint

text \<open>
  The ways the program stops early: the usage message, a failed assertion, a failed call of the host (with the name
  \<^verbatim>\<open>perror\<close> prints), and an access outside the array \<^verbatim>\<open>indirect\<close>, which C leaves undefined.
\<close>

datatype mkerr = Usage | Assert string | Perror "uchar list" | Overrun

fun andthen :: "mkerr + 'a \<Rightarrow> ('a \<Rightarrow> mkerr + 'b) \<Rightarrow> mkerr + 'b" where
  "andthen (Inl e) f = Inl e"
| "andthen (Inr a) f = f a"

definition chars_of :: "string \<Rightarrow> uchar list" where
  "chars_of s = map of_char s"

section \<open>Sectors\<close>

text \<open>The sector at the byte offset \<^verbatim>\<open>sec * BSIZE\<close>, computed in 32 bits.\<close>

definition sect_of :: "uint \<Rightarrow> nat" where
  "sect_of sec = unat (sec * of_nat BSIZE) div BSIZE"

text \<open>\<^verbatim>\<open>lseek\<close> to an offset that is not negative succeeds. Writing past the end of the file leaves a
  hole that reads as zeros; reading there gives fewer than \<^verbatim>\<open>BSIZE\<close> bytes.\<close>

definition wsect :: "uint \<Rightarrow> stream \<Rightarrow> mkfs \<Rightarrow> mkerr + mkfs" where
  "wsect sec buf s =
     (let k = sect_of sec; xs = m_img s in
      if \<not> h_write (m_host s) k then Inl (Perror (chars_of ''write''))
      else Inr (s\<lparr>m_img := (if k < length xs then xs[k := buf] else xs @ replicate (k - length xs) (\<lambda>_. 0) @ [buf])\<rparr>))"

definition rsect :: "uint \<Rightarrow> mkfs \<Rightarrow> mkerr + stream" where
  "rsect sec s =
     (let k = sect_of sec in
      if k < length (m_img s) then Inr (m_img s ! k) else Inl (Perror (chars_of ''read'')))"

section \<open>Inodes\<close>

definition winode :: "uint \<Rightarrow> dinode \<Rightarrow> mkfs \<Rightarrow> mkerr + mkfs" where
  "winode inum ip s =
     (let bn = IBLOCK inum mkfs_sb in
      andthen (rsect bn s) (\<lambda>buf. wsect bn (put_dinode buf (unat (inum mod of_nat IPB)) ip) s))"

definition rinode :: "uint \<Rightarrow> mkfs \<Rightarrow> mkerr + dinode" where
  "rinode inum s =
     (let bn = IBLOCK inum mkfs_sb in
      andthen (rsect bn s) (\<lambda>buf. Inr (get_dinode buf (unat (inum mod of_nat IPB)))))"

definition mkfs_ialloc :: "ushort \<Rightarrow> mkfs \<Rightarrow> mkerr + uint \<times> mkfs" where
  "mkfs_ialloc type s =
     (let inum = m_freeinode s; s = s\<lparr>m_freeinode := inum + 1\<rparr>;
          din = \<lparr>d_type = type, d_major = 0, d_minor = 0, d_nlink = 1, d_size = 0, d_addrs = replicate (NDIRECT + 3) 0\<rparr> in
      andthen (winode inum din s) (\<lambda>s. Inr (inum, s)))"

section \<open>Appending to a file\<close>

text \<open>A block number is put into an empty slot of the inode: \<^verbatim>\<open>if(din.addrs[k] == 0) din.addrs[k] = freeblock++\<close>.\<close>

definition fill_slot :: "nat \<Rightarrow> dinode \<Rightarrow> mkfs \<Rightarrow> dinode \<times> mkfs" where
  "fill_slot k din s =
     (if d_addrs din ! k = 0
      then (din\<lparr>d_addrs := (d_addrs din)[k := m_freeblock s]\<rparr>, s\<lparr>m_freeblock := m_freeblock s + 1\<rparr>)
      else (din, s))"

text \<open>The sector \<^verbatim>\<open>x\<close> of block \<^verbatim>\<open>fbn\<close> of the file.\<close>

definition append_block :: "uint \<Rightarrow> dinode \<Rightarrow> mkfs \<Rightarrow> mkerr + dinode \<times> uint \<times> mkfs" where
  "append_block fbn din s =
     (if unat fbn < NDIRECT
      then (let (din, s) = fill_slot (unat fbn) din s in Inr (din, d_addrs din ! unat fbn, s))
      else (let (din, s) = fill_slot NDIRECT din s; a = d_addrs din ! NDIRECT; k = unat fbn - NDIRECT in
        andthen (rsect a s) (\<lambda>ind.
          if \<not> k < NINDIRECT then Inl Overrun
          else if get32 ind (4 * k) = 0
          then (let ind = put32 ind (4 * k) (m_freeblock s) in
            andthen (wsect a ind (s\<lparr>m_freeblock := m_freeblock s + 1\<rparr>)) (\<lambda>s. Inr (din, get32 ind (4 * k), s)))
          else Inr (din, get32 ind (4 * k), s))))"

text \<open>The loop of \<^verbatim>\<open>iappend\<close>; \<open>p\<close> holds the bytes from the pointer \<^verbatim>\<open>p\<close> on, \<open>n\<close> of them.\<close>

lemma rest_of_block: "unat (off div 512 * 512 + 512 - off :: uint) = 512 - unat off mod 512"
proof -
  have "off div 512 * 512 + 512 - off = 512 - off mod 512"
    using div_mult_mod_eq [of off 512] by (simp add: algebra_simps)
  moreover have "off mod 512 \<le> 512" by (simp add: word_le_nat_alt unat_mod)
  ultimately show ?thesis by (simp only: unat_sub unat_mod) simp
qed

lemma rest_shrinks: "p \<noteq> [] \<Longrightarrow> length p - min (length p) (512 - x mod 512) < length p" for x :: nat
proof -
  assume "p \<noteq> []"
  then have "0 < length p" by simp
  moreover have "x mod 512 < 512" by simp
  ultimately show ?thesis by linarith
qed

function append_loop :: "dinode \<Rightarrow> uint \<Rightarrow> uchar list \<Rightarrow> mkfs \<Rightarrow> mkerr + dinode \<times> uint \<times> mkfs" where
  "append_loop din off p s =
     (if p = [] then Inr (din, off, s)
      else let fbn = off div of_nat BSIZE in
      if \<not> unat fbn < MAXFILE then Inl (Assert ''fbn < MAXFILE'')
      else andthen (append_block fbn din s) (\<lambda>(din, x, s).
        let n1 = min (length p) (unat ((fbn + 1) * of_nat BSIZE - off)) in
        andthen (rsect x s) (\<lambda>buf.
        andthen (wsect x (put_bytes buf (unat (off - fbn * of_nat BSIZE)) (\<lambda>i. p ! i) n1) s) (\<lambda>s.
          append_loop din (off + of_nat n1) (drop n1 p) s))))"
  by pat_completeness auto
termination
  by (relation "measure (\<lambda>(din, off, p, s). length p)") (auto simp: rest_of_block rest_shrinks)

declare append_loop.simps [simp del]

definition iappend :: "uint \<Rightarrow> uchar list \<Rightarrow> mkfs \<Rightarrow> mkerr + mkfs" where
  "iappend inum p s =
     andthen (rinode inum s) (\<lambda>din.
     andthen (append_loop din (d_size din) p s) (\<lambda>(din, off, s).
       winode inum (din\<lparr>d_size := off\<rparr>) s))"

section \<open>The bitmap\<close>

definition bitmap_buf :: "nat \<Rightarrow> stream" where
  "bitmap_buf n = fold (\<lambda>i buf. buf(i div 8 := buf (i div 8) OR push_bit (i mod 8) 1)) [0..<n] (\<lambda>_. 0)"

definition mkfs_balloc :: "int \<Rightarrow> mkfs \<Rightarrow> mkerr + mkfs" where
  "mkfs_balloc n s =
     (if \<not> n < int (BSIZE * 8) then Inl (Assert ''used < BSIZE*8'')
      else wsect (sb_bmapstart mkfs_sb) (bitmap_buf (nat n)) s)"

section \<open>The program\<close>

text \<open>The bytes of a directory entry; \<^verbatim>\<open>strncpy\<close> cuts the name at \<^verbatim>\<open>DIRSIZ\<close> bytes and pads it with NUL.\<close>

definition mk_dirent :: "uint \<Rightarrow> uchar list \<Rightarrow> uchar list" where
  "mk_dirent inum name =
     map (put_dirent \<lparr>de_inum = ucast inum, de_name = take DIRSIZ (name @ replicate DIRSIZ 0)\<rparr>) [0..<16]"

fun append_reads :: "uint \<Rightarrow> uchar list list \<Rightarrow> mkfs \<Rightarrow> mkerr + mkfs" where
  "append_reads inum [] s = Inr s"
| "append_reads inum (buf # rs) s = andthen (iappend inum buf s) (append_reads inum rs)"

text \<open>The name without a leading underscore.\<close>

definition skip_mark :: "uchar list \<Rightarrow> uchar list" where
  "skip_mark name = (if name \<noteq> [] \<and> hd name = of_char (CHR ''_'') then tl name else name)"

definition add_file :: "uint \<Rightarrow> uchar list \<Rightarrow> mkfs \<Rightarrow> mkerr + mkfs" where
  "add_file rootino arg s =
     (if of_char (CHR ''/'') \<in> set arg then Inl (Assert ''index(argv[i], /) == 0'')
      else case h_open (m_host s) arg of
        None \<Rightarrow> Inl (Perror arg)
      | Some reads \<Rightarrow>
          andthen (mkfs_ialloc T_FILE s) (\<lambda>(inum, s).
          andthen (iappend rootino (mk_dirent inum (skip_mark arg)) s) (append_reads inum reads)))"

fun add_files :: "uint \<Rightarrow> uchar list list \<Rightarrow> mkfs \<Rightarrow> mkerr + mkfs" where
  "add_files rootino [] s = Inr s"
| "add_files rootino (arg # args) s = andthen (add_file rootino arg s) (add_files rootino args)"

fun clear_sectors :: "nat list \<Rightarrow> mkfs \<Rightarrow> mkerr + mkfs" where
  "clear_sectors [] s = Inr s"
| "clear_sectors (i # is) s = andthen (wsect (of_nat i) (\<lambda>_. 0) s) (clear_sectors is)"

definition put_superblock :: "superblock \<Rightarrow> stream" where
  "put_superblock sb = put32 (put32 (put32 (put32 (put32 (put32 (put32 (\<lambda>_. 0) 0 (sb_size sb)) 4 (sb_nblocks sb)) 8 (sb_ninodes sb))
     12 (sb_nlog sb)) 16 (sb_logstart sb)) 20 (sb_inodestart sb)) 24 (sb_bmapstart sb)"

text \<open>The end of \<^verbatim>\<open>main\<close>: the size of the root directory is rounded up, and the bitmap is written.\<close>

definition fix_root :: "uint \<Rightarrow> mkfs \<Rightarrow> mkerr + mkfs" where
  "fix_root rootino s =
     andthen (rinode rootino s) (\<lambda>din.
       winode rootino (din\<lparr>d_size := (d_size din div of_nat BSIZE + 1) * of_nat BSIZE\<rparr>) s)"

definition mkfs_main :: "mkhost \<Rightarrow> uchar list list \<Rightarrow> mkerr + mkfs" where
  "mkfs_main h argv =
     (if length argv < 2 then Inl Usage
      else if \<not> h_image h (argv ! 1) then Inl (Perror (argv ! 1))
      else
        andthen (clear_sectors [0..<FSSIZE] \<lparr>m_host = h, m_img = [], m_freeinode = 1, m_freeblock = of_nat mkfs_nmeta\<rparr>) (\<lambda>s.
        andthen (wsect 1 (put_superblock mkfs_sb) s) (\<lambda>s.
        andthen (mkfs_ialloc T_DIR s) (\<lambda>(rootino, s).
          if rootino \<noteq> ROOTINO then Inl (Assert ''rootino == ROOTINO'')
          else
            andthen (iappend rootino (mk_dirent rootino (chars_of ''.'')) s) (\<lambda>s.
            andthen (iappend rootino (mk_dirent rootino (chars_of ''..'')) s) (\<lambda>s.
            andthen (add_files rootino (drop 2 argv) s) (\<lambda>s.
            andthen (fix_root rootino s) (\<lambda>s.
              mkfs_balloc (sint (m_freeblock s)) s))))))))"

end
