(* ===== verification/Mkfs_Image.thy ===== *)
theory Mkfs_Image
  imports Mkfs
begin

text \<open>
  What \<^verbatim>\<open>mkfs\<close> leaves on the image, read through the kernel's view of the disk: the invariant that ties the inodes, the blocks they
  own and the contents of the files together, that \<^verbatim>\<open>iappend\<close> keeps it, and the image \<^verbatim>\<open>main\<close> builds.
\<close>

section \<open>Sectors of a full image\<close>

definition mblk :: "mkfs \<Rightarrow> uint \<Rightarrow> stream" where
  "mblk s b = m_img s ! unat b"

definition host_ok :: "mkfs \<Rightarrow> bool" where
  "host_ok s \<longleftrightarrow> length (m_img s) = FSSIZE \<and> (\<forall>k < FSSIZE. h_write (m_host s) k)"

lemma sect_of_small: "unat b < FSSIZE \<Longrightarrow> sect_of b = unat b"
  by (simp add: sect_of_def unat_word_ariths)

lemma rsect_ok: "host_ok s \<Longrightarrow> unat b < FSSIZE \<Longrightarrow> rsect b s = Inr (mblk s b)"
  by (simp add: rsect_def sect_of_small host_ok_def mblk_def)

lemma wsect_ok: "host_ok s \<Longrightarrow> unat b < FSSIZE \<Longrightarrow> wsect b buf s = Inr (s\<lparr>m_img := (m_img s)[unat b := buf]\<rparr>)"
  by (simp add: wsect_def sect_of_small host_ok_def)

lemma mblk_update:
  "host_ok s \<Longrightarrow> unat b < FSSIZE \<Longrightarrow> mblk (s\<lparr>m_img := (m_img s)[unat b := buf]\<rparr>) = (mblk s)(b := buf)"
  by (rule ext) (auto simp: mblk_def host_ok_def nth_list_update word_unat_eq_iff)

lemma host_ok_update [simp]: "host_ok (s\<lparr>m_img := (m_img s)[k := buf]\<rparr>) = host_ok s"
  by (simp add: host_ok_def)

lemma host_ok_counters [simp]: "host_ok (s\<lparr>m_freeblock := b\<rparr>) = host_ok s" "host_ok (s\<lparr>m_freeinode := c\<rparr>) = host_ok s"
  by (simp_all add: host_ok_def)

lemma mblk_counters [simp]: "mblk (s\<lparr>m_freeblock := b\<rparr>) = mblk s" "mblk (s\<lparr>m_freeinode := c\<rparr>) = mblk s"
  by (rule ext, simp add: mblk_def)+

section \<open>The invariant\<close>

text \<open>
  \<open>own\<close> says which block of which file a block of the disk is: \<open>(i, bn)\<close> for block \<open>bn\<close> of the data of inode \<open>i\<close>, and \<open>(i, 138)\<close>
  for its indirect block. \<open>shape\<close>: the first \<open>nb\<close> blocks of the file are allocated, and nothing else is. \<open>holds\<close>: they hold the
  contents \<open>c\<close>, padded with zeros.
\<close>

definition shape :: "(uint \<Rightarrow> stream) \<Rightarrow> (uint \<Rightarrow> (nat \<times> nat) option) \<Rightarrow> nat \<Rightarrow> uint list \<Rightarrow> nat \<Rightarrow> bool" where
  "shape v own i as nb \<longleftrightarrow> length as = 13 \<and> nb \<le> 138 \<and>
     (\<forall>bn < nb. own (file_block v as bn) = Some (i, bn)) \<and>
     (10 < nb \<longrightarrow> own (as ! 10) = Some (i, 138)) \<and>
     (\<forall>bn < 10. nb \<le> bn \<longrightarrow> as ! bn = 0) \<and> (nb \<le> 10 \<longrightarrow> as ! 10 = 0) \<and> as ! 11 = 0 \<and> as ! 12 = 0 \<and>
     (10 < nb \<longrightarrow> (\<forall>k < 128. nb \<le> 10 + k \<longrightarrow> entry v (as ! 10) k = 0))"

definition holds :: "(uint \<Rightarrow> stream) \<Rightarrow> uint list \<Rightarrow> nat \<Rightarrow> uchar list \<Rightarrow> bool" where
  "holds v as nb c \<longleftrightarrow> length c \<le> nb * 512 \<and> (\<forall>j < nb * 512. file_byte v as j = (if j < length c then c ! j else 0))"

text \<open>The blocks a file of \<open>nb\<close> blocks of data takes, and the number of blocks for \<open>n\<close> bytes.\<close>

definition cost :: "nat \<Rightarrow> nat" where
  "cost nb = nb + (if 10 < nb then 1 else 0)"

definition nblk :: "nat \<Rightarrow> nat" where
  "nblk n = (n + 511) div 512"

definition lay :: "mkfs \<Rightarrow> (uint \<Rightarrow> (nat \<times> nat) option) \<Rightarrow> (nat \<Rightarrow> uint list) \<Rightarrow> (nat \<Rightarrow> nat) \<Rightarrow> (nat \<Rightarrow> uchar list) \<Rightarrow> bool" where
  "lay s own D N C \<longleftrightarrow> host_ok s \<and> unat (m_freeblock s) = 68 + (\<Sum>i < 208. cost (N i)) \<and> unat (m_freeblock s) \<le> FSSIZE \<and>
     (\<forall>b. own b \<noteq> None \<longrightarrow> 68 \<le> unat b \<and> unat b < unat (m_freeblock s)) \<and>
     (\<forall>b. unat (m_freeblock s) \<le> unat b \<longrightarrow> unat b < FSSIZE \<longrightarrow> mblk s b = (\<lambda>_. 0)) \<and>
     (\<forall>i < 208. shape (mblk s) own i (D i) (N i) \<and> holds (mblk s) (D i) (N i) (C i))"

text \<open>What appending to a file does not touch: the blocks before the data blocks, the host and the counter of inodes.\<close>

definition keeps :: "mkfs \<Rightarrow> mkfs \<Rightarrow> bool" where
  "keeps s t \<longleftrightarrow> m_host t = m_host s \<and> m_freeinode t = m_freeinode s \<and> (\<forall>b. unat b < 68 \<longrightarrow> mblk t b = mblk s b)"

lemma keeps_refl [simp]: "keeps s s"
  by (simp add: keeps_def)

lemma keeps_trans: "keeps s t \<Longrightarrow> keeps t u \<Longrightarrow> keeps s u"
  by (simp add: keeps_def)

lemma file_block_small: "bn < 138 \<Longrightarrow> file_block v as bn = (if bn < 10 then as ! bn else entry v (as ! 10) (bn - 10))"
  by (auto simp: file_block_def block_path_def Let_def)

lemma shapeD:
  assumes "shape v own i as nb" "bn < nb"
  shows "own (file_block v as bn) = Some (i, bn)" "bn < 138"
  using assms by (auto simp: shape_def)

lemma shape_agree:
  assumes sh: "shape v own i as nb" and same: "10 < nb \<Longrightarrow> v' (as ! 10) = v (as ! 10)" and bn: "bn < nb"
  shows "file_block v' as bn = file_block v as bn"
  using shapeD(2) [OF sh bn] bn same by (simp add: file_block_small entry_def)

text \<open>A file depends only on the blocks it owns.\<close>

lemma shape_frame:
  assumes sh: "shape v own i as nb" and agree: "\<And>b x. own b = Some (i, x) \<Longrightarrow> own' b = Some (i, x)"
    and ind: "10 < nb \<Longrightarrow> v' (as ! 10) = v (as ! 10)"
  shows "shape v' own' i as nb"
  using sh agree shape_agree [of v own i as nb v', OF sh ind] ind unfolding shape_def entry_def by auto

lemma holds_frame:
  assumes sh: "shape v own i as nb" and h: "holds v as nb c" and agree: "\<And>b x. own b = Some (i, x) \<Longrightarrow> v' b = v b"
  shows "holds v' as nb c"
proof -
  have ind: "v' (as ! 10) = v (as ! 10)" if "10 < nb" using sh that agree by (auto simp: shape_def)
  have "file_byte v' as j = file_byte v as j" if "j < nb * 512" for j
  proof -
    have "j div 512 < nb" using that by (simp add: less_mult_imp_div_less)
    then show ?thesis using shape_agree [of v own i as nb v', OF sh ind] agree shapeD(1) [OF sh] by (simp add: file_byte_def)
  qed
  then show ?thesis using h by (simp add: holds_def)
qed

lemma layD:
  assumes "lay s own D N C"
  shows "host_ok s" "unat (m_freeblock s) = 68 + (\<Sum>i < 208. cost (N i))" "unat (m_freeblock s) \<le> FSSIZE"
    "own b \<noteq> None \<Longrightarrow> 68 \<le> unat b \<and> unat b < unat (m_freeblock s)"
    "unat (m_freeblock s) \<le> unat b \<Longrightarrow> unat b < FSSIZE \<Longrightarrow> mblk s b = (\<lambda>_. 0)"
    "i < 208 \<Longrightarrow> shape (mblk s) own i (D i) (N i)" "i < 208 \<Longrightarrow> holds (mblk s) (D i) (N i) (C i)"
  using assms unfolding lay_def by blast+

text \<open>A change to one file that writes only blocks of its own and fresh blocks keeps the invariant of the others.\<close>

lemma lay_change:
  assumes L: "lay s own D N C" and i: "i < 208" and t: "host_ok t"
    and fb: "unat (m_freeblock t) = 68 + (\<Sum>k < 208. cost ((N(i := nb)) k))" "unat (m_freeblock t) \<le> FSSIZE"
    and le: "unat (m_freeblock s) \<le> unat (m_freeblock t)"
    and ext: "\<And>b y. own b = Some y \<Longrightarrow> own' b = Some y"
    and new: "\<And>b. own' b \<noteq> None \<Longrightarrow> 68 \<le> unat b \<and> unat b < unat (m_freeblock t)"
    and free: "\<And>b. unat (m_freeblock t) \<le> unat b \<Longrightarrow> mblk t b = mblk s b"
    and others: "\<And>b k x. own b = Some (k, x) \<Longrightarrow> k \<noteq> i \<Longrightarrow> mblk t b = mblk s b"
    and one: "shape (mblk t) own' i as nb" "holds (mblk t) as nb c"
  shows "lay t own' (D(i := as)) (N(i := nb)) (C(i := c))"
proof -
  have "shape (mblk t) own' k (D k) (N k) \<and> holds (mblk t) (D k) (N k) (C k)" if "k < 208" "k \<noteq> i" for k
  proof -
    have sh: "shape (mblk s) own k (D k) (N k)" using L that by (simp add: layD)
    have ind: "mblk t (D k ! 10) = mblk s (D k ! 10)" if "10 < N k"
      using sh that \<open>k \<noteq> i\<close> by (intro others) (auto simp: shape_def)
    from shape_frame [of _ _ _ _ _ own' "mblk t", OF sh ext ind] holds_frame [of _ _ _ _ _ _ "mblk t", OF sh layD(7) [OF L that(1)] others [OF _ that(2)]]
    show ?thesis by simp
  qed
  moreover have "mblk t b = (\<lambda>_. 0)" if "unat (m_freeblock t) \<le> unat b" "unat b < FSSIZE" for b
    using free [OF that(1)] layD(5) [OF L _ that(2)] le that(1) by simp
  ultimately show ?thesis unfolding lay_def using t fb new one by simp
qed

lemma holds_grow:
  assumes sh: "shape v own i as nb" and h: "holds v as nb c"
    and old: "\<And>bn. bn < nb \<Longrightarrow> file_block v' as' bn = file_block v as bn \<and> v' (file_block v as bn) = v (file_block v as bn)"
    and new: "v' (file_block v' as' nb) = (\<lambda>_. 0)"
  shows "holds v' as' (Suc nb) c"
proof -
  have "file_byte v' as' j = (if j < length c then c ! j else 0)" if "j < Suc nb * 512" for j
  proof (cases "j < nb * 512")
    case True
    then have "j div 512 < nb" by (simp add: less_mult_imp_div_less)
    from old [OF this] have "file_byte v' as' j = file_byte v as j" by (simp add: file_byte_def)
    then show ?thesis using h True by (simp add: holds_def)
  next
    case False
    then have "j div 512 = nb" using that by (intro div_nat_eqI) simp_all
    then show ?thesis using new h False by (simp add: file_byte_def holds_def)
  qed
  then show ?thesis using h by (simp add: holds_def)
qed

section \<open>Appending\<close>

lemma sum_update:
  assumes "i < (n :: nat)"
  shows "(\<Sum>k < n. f ((N(i := m)) k)) + f (N i) = (\<Sum>k < n. f (N k)) + (f m :: nat)"
proof -
  have "(\<Sum>k \<in> {..<n} - {i}. f ((N(i := m)) k)) = (\<Sum>k \<in> {..<n} - {i}. f (N k))" by (rule sum.cong) auto
  then show ?thesis using assms by (simp add: sum.remove [of "{..<n}" i])
qed

text \<open>A block past the allocated ones: direct, or through the indirect block, which the first such block allocates too.\<close>

lemma append_block_direct:
  assumes L: "lay s own D N C" and i: "i < 208" and d: "d_addrs din = D i" and nb: "N i = nb" "nb < 10" "unat fbn = nb"
    and room: "68 + (\<Sum>k < 208. cost ((N(i := Suc nb)) k)) \<le> FSSIZE"
  shows "\<exists>as t own'. append_block fbn din s = Inr (din\<lparr>d_addrs := as\<rparr>, file_block (mblk t) as nb, t) \<and>
    lay t own' (D(i := as)) (N(i := Suc nb)) C \<and> keeps s t"
proof -
  define fb where "fb = m_freeblock s"
  define t where "t = s\<lparr>m_freeblock := fb + 1\<rparr>"
  define as where "as = (D i)[nb := fb]"
  define own' where "own' = own(fb \<mapsto> (i, nb))"
  note sh = layD(6) [OF L i, unfolded nb(1)] and h = layD(7) [OF L i, unfolded nb(1)]
  have len: "length (D i) = 13" and z: "D i ! nb = 0" using sh nb(2) by (auto simp: shape_def)
  have sum: "68 + (\<Sum>k < 208. cost ((N(i := Suc nb)) k)) = unat fb + 1"
    using sum_update [OF i, of cost N "Suc nb"] nb layD(2) [OF L] by (simp add: fb_def cost_def)
  then have fb: "unat fb < FSSIZE" "unat (fb + 1) = unat fb + 1" "68 \<le> unat fb"
    using room layD(2) [OF L] by (simp_all add: unat_word_ariths fb_def)
  have fresh: "own b = Some y \<Longrightarrow> b \<noteq> fb" for b y using layD(4) [OF L, of b] by (auto simp: fb_def)
  have v: "mblk t = mblk s" by (simp add: t_def)
  have old: "file_block (mblk s) as bn = file_block (mblk s) (D i) bn" if "bn < nb" for bn
    using that nb(2) by (simp add: file_block_small as_def)
  have new: "file_block (mblk s) as nb = fb" using nb(2) len by (simp add: file_block_small as_def)
  have "shape (mblk t) own' i as (Suc nb)"
    using sh nb(2) old new fresh unfolding shape_def v
    by (auto simp: as_def own'_def less_Suc_eq nth_list_update)
  moreover have "holds (mblk t) as (Suc nb) (C i)"
    using old new fb(1) by (intro holds_grow [OF sh h]) (simp_all add: v layD(5) [OF L] fb_def)
  moreover have "68 \<le> unat b \<and> unat b < unat (m_freeblock t)" if "own' b \<noteq> None" for b
    using that layD(4) [OF L, of b] fb by (cases "b = fb") (auto simp: own'_def t_def fb_def)
  ultimately have "lay t own' (D(i := as)) (N(i := Suc nb)) (C(i := C i))"
    using fb room sum layD(1) [OF L] fresh
    by (intro lay_change [OF L i]) (auto simp: v t_def own'_def fb_def)
  moreover have "append_block fbn din s = Inr (din\<lparr>d_addrs := as\<rparr>, file_block (mblk t) as nb, t)"
    using nb z d len new v by (simp add: append_block_def fill_slot_def t_def as_def fb_def)
  moreover have "keeps s t" by (simp add: keeps_def v) (simp add: t_def)
  ultimately show ?thesis by (intro exI [of _ as] exI [of _ t] exI [of _ own']) simp
qed

lemma entry_put32:
  "entry (v(a := put32 (v a) (4 * k) e)) a j = (if j = k then e else entry v a j)"
proof (cases "j = k")
  case False
  then have "4 * j + 4 \<le> 4 * k \<or> 4 * k + 4 \<le> 4 * j" by linarith
  then show ?thesis using False by (simp add: entry_def get32_put32_other)
qed (simp add: entry_def)

lemma append_block_indirect:
  assumes L: "lay s own D N C" and i: "i < 208" and d: "d_addrs din = D i" and nb: "N i = nb" "10 \<le> nb" "nb < 138" "unat fbn = nb"
    and room: "68 + (\<Sum>k < 208. cost ((N(i := Suc nb)) k)) \<le> FSSIZE"
  shows "\<exists>as t own'. append_block fbn din s = Inr (din\<lparr>d_addrs := as\<rparr>, file_block (mblk t) as nb, t) \<and>
    lay t own' (D(i := as)) (N(i := Suc nb)) C \<and> keeps s t"
proof -
  define fb where "fb = m_freeblock s"
  define e where "e = (if nb = 10 then fb + 1 else fb)"
  define as where "as = (if nb = 10 then (D i)[10 := fb] else D i)"
  define a where "a = as ! 10"
  define v where "v = mblk s"
  define v' where "v' = v(a := put32 (v a) (4 * (nb - 10)) e)"
  define t where "t = s\<lparr>m_freeblock := e + 1, m_img := (m_img s)[unat a := put32 (v a) (4 * (nb - 10)) e]\<rparr>"
  define own' where "own' = own(a \<mapsto> (i, 138), e \<mapsto> (i, nb))"
  note sh = layD(6) [OF L i, unfolded nb(1), folded v_def] and h = layD(7) [OF L i, unfolded nb(1), folded v_def]
  have len: "length (D i) = 13" and z: "nb = 10 \<Longrightarrow> D i ! 10 = 0" using sh by (auto simp: shape_def)
  have "cost (Suc nb) = cost nb + (if nb = 10 then 2 else 1)" using nb by (simp add: cost_def)
  then have sum: "68 + (\<Sum>k < 208. cost ((N(i := Suc nb)) k)) = unat fb + (if nb = 10 then 2 else 1)"
    using sum_update [OF i, of cost N "Suc nb"] nb(1) layD(2) [OF L] by (simp only: fb_def)
  then have fb: "unat fb + (if nb = 10 then 2 else 1) \<le> FSSIZE" "68 \<le> unat fb" using room layD(2) [OF L] by (simp_all add: fb_def)
  have e: "unat e = unat fb + (if nb = 10 then 1 else 0)" using fb by (simp add: e_def unat_word_ariths)
  have e1: "unat (e + 1) = unat e + 1" using fb e by (simp add: unat_word_ariths split: if_splits)
  have oa: "nb \<noteq> 10 \<Longrightarrow> own a = Some (i, 138)" "nb = 10 \<Longrightarrow> a = fb"
    using sh nb len by (auto simp: shape_def a_def as_def)
  have fresh: "own b = Some y \<Longrightarrow> unat b < unat fb" for b y using layD(4) [OF L, of b] by (auto simp: fb_def)
  have a: "unat a < FSSIZE" "68 \<le> unat a" "a \<noteq> e" "unat a < unat e"
    using oa fb e fresh [OF oa(1)] layD(4) [OF L, of a] by (cases "nb = 10"; auto)+
  have v': "mblk t = v'"
    using mblk_update [OF layD(1) [OF L] a(1), of "put32 (v a) (4 * (nb - 10)) e"] by (simp add: t_def v'_def v_def mblk_def fun_eq_iff)
  have zero: "v b = (\<lambda>_. 0)" if "unat fb \<le> unat b" "unat b < FSSIZE" for b
    using layD(5) [OF L, of b] that by (simp add: v_def fb_def)
  have slot: "entry v a k = 0" if "nb \<le> 10 + k" "k < 128" for k
  proof (cases "nb = 10")
    case True
    then show ?thesis using zero [of a] oa a(1) by (simp add: entry_def get32_def join32_def)
  next
    case False
    then show ?thesis using sh that nb by (auto simp: shape_def a_def as_def)
  qed
  have old: "file_block v' as bn = file_block v (D i) bn" if "bn < nb" for bn
    using that nb by (auto simp: file_block_small as_def v'_def a_def entry_put32)
  have same: "v' b = v b" if "own b = Some (k, x)" "(k, x) \<noteq> (i, 138)" for b k x
    using that oa fresh [OF that(1)] by (cases "nb = 10") (auto simp: v'_def)
  have new: "file_block v' as nb = e" "v' e = (\<lambda>_. 0)"
    using nb a(3) zero [of e] e fb by (auto simp: file_block_small v'_def a_def [symmetric] entry_put32 split: if_splits)
  have ext: "own' b = Some y" if "own b = Some y" for b y
    using that fresh [OF that] oa e by (cases "nb = 10") (auto simp: own'_def split: if_splits)
  have "own' (file_block v' as bn) = Some (i, bn)" if "bn < Suc nb" for bn
    using that old new shapeD(1) [OF sh] ext by (cases "bn = nb") (auto simp: own'_def)
  moreover have "entry v' a k = 0" if "k < 128" "Suc nb \<le> 10 + k" for k
  proof -
    have "k \<noteq> nb - 10" using that nb(2) by linarith
    then show ?thesis using slot [of k] that by (simp add: v'_def entry_put32)
  qed
  ultimately have sh': "shape v' own' i as (Suc nb)"
    using sh nb a(3) unfolding shape_def by (auto simp: a_def [symmetric] own'_def) (auto simp: as_def)
  have h': "holds v' as (Suc nb) (C i)"
    using old new same shapeD [OF sh] nb by (intro holds_grow [OF sh h]) auto
  have rng: "68 \<le> unat b \<and> unat b < unat (m_freeblock t)" if "own' b \<noteq> None" for b
    using that layD(4) [OF L, of b] fresh [of b] fb e e1 a by (auto simp: own'_def t_def fb_def split: if_splits)
  have "lay t own' (D(i := as)) (N(i := Suc nb)) (C(i := C i))"
  proof (rule lay_change [OF L i _ _ _ _ ext rng])
    show "unat (m_freeblock t) = 68 + (\<Sum>k < 208. cost ((N(i := Suc nb)) k))" "unat (m_freeblock t) \<le> FSSIZE"
      "unat (m_freeblock s) \<le> unat (m_freeblock t)" using sum fb e e1 by (simp_all add: t_def fb_def split: if_splits)
    show "mblk t b = mblk s b" if "unat (m_freeblock t) \<le> unat b" for b
    proof -
      have "unat (e + 1) \<le> unat b" using that by (simp add: t_def)
      then have "b \<noteq> a" using a(4) e1 by auto
      then show ?thesis by (simp add: v' v'_def v_def)
    qed
    show "mblk t b = mblk s b" if "own b = Some (k, x)" "k \<noteq> i" for b k x using same [OF that(1)] that(2) by (simp add: v' v_def)
    show "host_ok t" using layD(1) [OF L] by (simp add: host_ok_def t_def)
  qed (use sh' h' in \<open>simp_all add: v'\<close>)
  moreover have "keeps s t" using a(2) by (auto simp: keeps_def v' v'_def v_def) (simp_all add: t_def)
  moreover have "append_block fbn din s = Inr (din\<lparr>d_addrs := as\<rparr>, file_block (mblk t) as nb, t)"
  proof -
    have "fill_slot 10 din s = (din\<lparr>d_addrs := as\<rparr>, s\<lparr>m_freeblock := e\<rparr>)"
    proof (cases "nb = 10")
      case True
      then show ?thesis using z d by (simp add: fill_slot_def as_def e_def fb_def)
    next
      case False
      then have "d_addrs din ! 10 \<noteq> 0" using a(2) d by (auto simp: a_def as_def)
      then show ?thesis using False d [symmetric] by (simp add: fill_slot_def as_def e_def fb_def)
    qed
    moreover have "rsect a (s\<lparr>m_freeblock := e\<rparr>) = Inr (v a)"
      using rsect_ok [of "s\<lparr>m_freeblock := e\<rparr>" a] layD(1) [OF L] a(1) by (simp add: v_def)
    moreover have "wsect a (put32 (v a) (4 * (nb - 10)) e) (s\<lparr>m_freeblock := e + 1\<rparr>) = Inr t"
      using wsect_ok [of "s\<lparr>m_freeblock := e + 1\<rparr>" a] layD(1) [OF L] a(1) by (simp add: t_def)
    moreover have "get32 (v a) (4 * (nb - 10)) = 0" using slot [of "nb - 10"] nb by (simp add: entry_def)
    ultimately show ?thesis using nb new v' by (simp add: append_block_def a_def [symmetric] Let_def)
  qed
  ultimately show ?thesis by (intro exI [of _ as] exI [of _ t] exI [of _ own']) simp
qed

lemma append_block_old:
  assumes L: "lay s own D N C" and i: "i < 208" and d: "d_addrs din = D i" and lt: "unat fbn < N i"
  shows "append_block fbn din s = Inr (din, file_block (mblk s) (D i) (unat fbn), s)"
proof -
  note sh = layD(6) [OF L i]
  have nz: "b \<noteq> 0" "unat b < FSSIZE" if "own b = Some y" for b y using that layD(3) [OF L] layD(4) [OF L, of b] by auto
  note own = shapeD [OF sh lt]
  show ?thesis
  proof (cases "unat fbn < 10")
    case True
    then show ?thesis using nz [OF own(1)] own(2) d by (simp add: append_block_def fill_slot_def file_block_small)
  next
    case False
    then have o: "own (D i ! 10) = Some (i, 138)" using sh lt by (simp add: shape_def)
    have "entry (mblk s) (D i ! 10) (unat fbn - 10) \<noteq> 0" using nz(1) [OF own(1)] own(2) False by (simp add: file_block_small)
    then show ?thesis using rsect_ok [OF layD(1) [OF L] nz(2) [OF o]] nz(1) [OF o] False own(2) d
      by (simp add: append_block_def fill_slot_def file_block_small entry_def Let_def)
  qed
qed

lemma append_block_ok:
  assumes L: "lay s own D N C" and i: "i < 208" and d: "d_addrs din = D i" and le: "unat fbn \<le> N i" "unat fbn < 138"
    and room: "68 + (\<Sum>k < 208. cost ((N(i := max (N i) (Suc (unat fbn)))) k)) \<le> FSSIZE"
  shows "\<exists>as t own'. append_block fbn din s = Inr (din\<lparr>d_addrs := as\<rparr>, file_block (mblk t) as (unat fbn), t) \<and>
    lay t own' (D(i := as)) (N(i := max (N i) (Suc (unat fbn)))) C \<and> keeps s t"
proof (cases "unat fbn < N i")
  case True
  then have "max (N i) (Suc (unat fbn)) = N i" by simp
  moreover have "din\<lparr>d_addrs := D i\<rparr> = din" using d [symmetric] by simp
  ultimately show ?thesis using append_block_old [OF L i d True] L
    by (intro exI [of _ "D i"] exI [of _ s] exI [of _ own]) simp
next
  case False
  then have nb: "N i = unat fbn" "max (N i) (Suc (unat fbn)) = Suc (unat fbn)" using le(1) by simp_all
  show ?thesis
    using append_block_direct [OF L i d nb(1) _ refl] append_block_indirect [OF L i d nb(1) _ le(2) refl] room
    unfolding nb(2) by (cases "unat fbn < 10") simp_all
qed

text \<open>Writing bytes of a block that is allocated.\<close>

lemma write_chunk:
  assumes L: "lay s own D N C" and i: "i < 208" and x: "x = file_block (mblk s) (D i) fbn"
    and off: "length (C i) = fbn * 512 + r" "r + n \<le> 512" "r < 512" and lt: "fbn < N i" and n: "n \<le> length p"
  shows "\<exists>t. rsect x s = Inr (mblk s x) \<and> wsect x (put_bytes (mblk s x) r (\<lambda>j. p ! j) n) s = Inr t \<and>
    lay t own D N (C(i := C i @ take n p)) \<and> keeps s t"
proof -
  note sh = layD(6) [OF L i] and h = layD(7) [OF L i]
  define d where "d = put_bytes (mblk s x) r (\<lambda>j. p ! j) n"
  define t where "t = s\<lparr>m_img := (m_img s)[unat x := d]\<rparr>"
  have o: "own x = Some (i, fbn)" "fbn < 138" using shapeD [OF sh lt] x by simp_all
  then have xb: "68 \<le> unat x" "unat x < unat (m_freeblock s)" "unat x < FSSIZE"
    using layD(3) [OF L] layD(4) [OF L, of x] by auto
  have v: "mblk t = (mblk s)(x := d)" using mblk_update [OF layD(1) [OF L] xb(3)] by (simp add: t_def)
  have ind: "mblk t (D i ! 10) = mblk s (D i ! 10)" if "10 < N i" using sh that o by (auto simp: v shape_def)
  have sh': "shape (mblk t) own i (D i) (N i)" by (rule shape_frame [OF sh]) (use ind in simp_all)
  have fbs: "file_block (mblk t) (D i) bn = file_block (mblk s) (D i) bn" if "bn < N i" for bn
    by (rule shape_agree [OF sh _ that]) (use ind in simp)
  have "file_byte (mblk t) (D i) j = (if j < length (C i) + n then (C i @ take n p) ! j else 0)" if j: "j < N i * 512" for j
  proof -
    have bn: "j div 512 < N i" using j by (simp add: less_mult_imp_div_less)
    have old: "file_byte (mblk s) (D i) j = (if j < length (C i) then C i ! j else 0)" using h j by (simp add: holds_def)
    have jj: "j = j div 512 * 512 + j mod 512" "j mod 512 < 512" by simp_all
    show ?thesis
    proof (cases "j div 512 = fbn")
      case True
      then have "file_byte (mblk t) (D i) j = d (j mod 512)" "file_byte (mblk s) (D i) j = mblk s x (j mod 512)"
        using fbs [OF bn] x by (simp_all add: file_byte_def v)
      moreover have "j - length (C i) = j mod 512 - r" "j < length (C i) \<longleftrightarrow> j mod 512 < r" "j < length (C i) + n \<longleftrightarrow> j mod 512 < r + n"
        using True jj off(1) by linarith+
      ultimately show ?thesis using old n by (auto simp: d_def put_bytes_def nth_append)
    next
      case False
      then have "file_block (mblk s) (D i) (j div 512) \<noteq> x" using shapeD(1) [OF sh bn] o by auto
      then have "file_byte (mblk t) (D i) j = file_byte (mblk s) (D i) j" using fbs [OF bn] by (simp add: file_byte_def v)
      moreover have "j < length (C i) \<or> length (C i) + n \<le> j" using False jj off by (cases "j div 512 < fbn") linarith+
      ultimately show ?thesis using old by (auto simp: nth_append)
    qed
  qed
  moreover have "length (C i) + n \<le> N i * 512" using off lt by linarith
  ultimately have h': "holds (mblk t) (D i) (N i) (C i @ take n p)" using n by (simp add: holds_def min_absorb2)
  have "lay t own (D(i := D i)) (N(i := N i)) (C(i := C i @ take n p))"
  proof (rule lay_change [OF L i _ _ _ _ _ _ _ _ sh' h'])
    have "m_freeblock t = m_freeblock s" "host_ok t" using layD(1) [OF L] by (simp_all add: t_def)
    then show "host_ok t" "unat (m_freeblock t) = 68 + (\<Sum>k < 208. cost ((N(i := N i)) k))" "unat (m_freeblock t) \<le> FSSIZE"
      "unat (m_freeblock s) \<le> unat (m_freeblock t)"
      "own b \<noteq> None \<Longrightarrow> 68 \<le> unat b \<and> unat b < unat (m_freeblock t)"
      "unat (m_freeblock t) \<le> unat b \<Longrightarrow> mblk t b = mblk s b" for b
      using layD(2,3) [OF L] layD(4) [OF L, of b] xb by (auto simp: v)
  qed (use o in \<open>auto simp: v\<close>)
  moreover have "keeps s t" using xb by (auto simp: keeps_def v) (simp_all add: t_def)
  ultimately show ?thesis using rsect_ok [OF layD(1) [OF L] xb(3)] wsect_ok [OF layD(1) [OF L] xb(3), of d]
    by (intro exI [of _ t]) (simp add: t_def d_def)
qed

lemma nblk_mono: "m \<le> n \<Longrightarrow> nblk m \<le> nblk n"
  unfolding nblk_def by (rule div_le_mono) simp

lemma nblk_step:
  assumes "0 < n" "len mod 512 + n \<le> 512"
  shows "nblk (len + n) = Suc (len div 512)"
proof -
  have "len = len div 512 * 512 + len mod 512" by simp
  then have "512 * Suc (len div 512) \<le> len + n + 511" "len + n + 511 < 512 * Suc (Suc (len div 512))"
    using assms unfolding mult_Suc_right by linarith+
  then show ?thesis unfolding nblk_def by (rule div_nat_eqI)
qed

lemma nblk_bounds: "len div 512 \<le> nblk len" "nblk len \<le> Suc (len div 512)" "len \<le> nblk len * 512"
proof -
  show "len div 512 \<le> nblk len" unfolding nblk_def by (rule div_le_mono) simp
  have "nblk len \<le> (len + 512) div 512" unfolding nblk_def by (rule div_le_mono) simp
  then show "nblk len \<le> Suc (len div 512)" by simp
  show "len \<le> nblk len * 512" unfolding nblk_def using div_mult_mod_eq [of "len + 511" 512] by linarith
qed

lemma cost_mono: "m \<le> n \<Longrightarrow> cost m \<le> cost n"
  by (simp add: cost_def)

lemma sum_cost_mono: "m \<le> n \<Longrightarrow> (\<Sum>k < 208. cost ((N(i := m)) k)) \<le> (\<Sum>k < (208 :: nat). cost ((N(i := n)) k))"
  by (rule sum_mono) (simp add: cost_mono)

lemma append_loop_ok:
  assumes "lay s own D N C" "i < 208" "d_addrs din = D i" "unat off = length (C i)" "N i = nblk (length (C i))"
    "length (C i) + length p \<le> 138 * 512" "68 + (\<Sum>k < 208. cost ((N(i := nblk (length (C i) + length p))) k)) \<le> FSSIZE"
  shows "\<exists>as t own'. append_loop din off p s = Inr (din\<lparr>d_addrs := as\<rparr>, off + of_nat (length p), t) \<and>
    lay t own' (D(i := as)) (N(i := nblk (length (C i) + length p))) (C(i := C i @ p)) \<and> keeps s t"
  using assms
proof (induction p arbitrary: din off s own D N C rule: length_induct)
  case (1 p)
  note L = 1(2) and i = 1(3) and d = 1(4) and off = 1(5) and N = 1(6) and len = 1(7) and room = 1(8)
  show ?case
  proof (cases "p = []")
    case True
    have "din\<lparr>d_addrs := D i\<rparr> = din" "N(i := nblk (length (C i))) = N" using d [symmetric] N by auto
    then show ?thesis using True L
      by (intro exI [of _ "D i"] exI [of _ s] exI [of _ own]) (simp add: append_loop.simps)
  next
    case False
    define fbn where "fbn = off div 512"
    define f where "f = length (C i) div 512"
    define r where "r = length (C i) mod 512"
    define n where "n = min (length p) (512 - r)"
    have r: "length (C i) = f * 512 + r" "r < 512" by (simp_all add: f_def r_def)
    have n: "0 < n" "r + n \<le> 512" "n \<le> length p" using False r(2) by (auto simp: n_def)
    have fbn: "unat fbn = f" by (simp add: fbn_def f_def unat_div off)
    have off': "unat (off - fbn * 512) = r"
      by (simp add: fbn_def minus_div_mult_eq_mod unat_mod off r_def)
    have f: "f < 138" "f \<le> N i" "N i \<le> Suc f"
      using len n(1,3) r(1) nblk_bounds(1,2) [of "length (C i)", folded f_def N] by linarith+
    then have mx: "max (N i) (Suc f) = Suc f" by simp
    have nb: "nblk (length (C i) + n) = Suc f" using nblk_step [OF n(1), of "length (C i)"] n(2) by (simp add: r_def f_def)
    have "Suc f \<le> nblk (length (C i) + length p)" unfolding nb [symmetric] by (rule nblk_mono) (use n in simp)
    from sum_cost_mono [OF this, of N i] room
    have room1: "68 + (\<Sum>k < 208. cost ((N(i := Suc f)) k)) \<le> FSSIZE" by linarith
    from append_block_ok [OF L i d, of fbn, unfolded fbn mx, OF f(2,1) room1] obtain as t1 own1 where
      t1: "append_block fbn din s = Inr (din\<lparr>d_addrs := as\<rparr>, file_block (mblk t1) as f, t1)"
        "lay t1 own1 (D(i := as)) (N(i := Suc f)) C" "keeps s t1" by auto
    define x where "x = file_block (mblk t1) as f"
    from write_chunk [OF t1(2) i, of x f r n p] r n obtain t2 where
      t2: "rsect x t1 = Inr (mblk t1 x)" "wsect x (put_bytes (mblk t1 x) r (\<lambda>j. p ! j) n) t1 = Inr t2"
        "lay t2 own1 (D(i := as)) (N(i := Suc f)) (C(i := C i @ take n p))" "keeps t1 t2" by (auto simp: x_def)
    have "f < MAXFILE" using f(1) by simp
    then have step: "append_loop din off p s = append_loop (din\<lparr>d_addrs := as\<rparr>) (off + of_nat n) (drop n p) t2"
      using False t1(1) t2(1,2) fbn off' rest_of_block [of off]
      by (simp add: append_loop.simps [of din off p s] fbn_def [symmetric] x_def [symmetric] n_def [symmetric] off r_def [symmetric] Let_def
        algebra_simps)
    have "\<exists>as' t own'. append_loop (din\<lparr>d_addrs := as\<rparr>) (off + of_nat n) (drop n p) t2 =
        Inr ((din\<lparr>d_addrs := as\<rparr>)\<lparr>d_addrs := as'\<rparr>, off + of_nat n + of_nat (length (drop n p)), t) \<and>
      lay t own' ((D(i := as))(i := as')) ((N(i := Suc f))(i := nblk (length ((C(i := C i @ take n p)) i) + length (drop n p))))
        ((C(i := C i @ take n p))(i := (C(i := C i @ take n p)) i @ drop n p)) \<and> keeps t2 t"
    proof (rule 1(1) [rule_format, OF _ t2(3) i])
      have "unat (off + of_nat n) = length (C i) + n" using off len n by (simp add: unat_word_ariths unat_of_nat)
      then show "unat (off + of_nat n) = length ((C(i := C i @ take n p)) i)" using n(3) by simp
    qed (use n nb len room in \<open>simp_all add: min_absorb2\<close>)
    moreover have "off + of_nat n + of_nat (length (drop n p)) = off + of_nat (length p)"
      using n(3) by (simp add: of_nat_diff)
    moreover have "length (C i @ take n p) + length (drop n p) = length (C i) + length p" using n(3) by simp
    ultimately obtain as' t own' where
      r: "append_loop (din\<lparr>d_addrs := as\<rparr>) (off + of_nat n) (drop n p) t2 = Inr (din\<lparr>d_addrs := as'\<rparr>, off + of_nat (length p), t)"
        "lay t own' (D(i := as')) (N(i := nblk (length (C i) + length p))) (C(i := C i @ p))" "keeps t2 t"
      by (auto simp: fun_upd_def [symmetric] simp del: length_drop length_append length_take)
    from r(1,2) keeps_trans [OF keeps_trans [OF t1(3) t2(4)] r(3)] show ?thesis unfolding step by blast
  qed
qed

section \<open>The inode table\<close>

definition mnode :: "mkfs \<Rightarrow> nat \<Rightarrow> dinode" where
  "mnode s i = get_dinode (mblk s (IBLOCK (of_nat i) mkfs_sb)) (i mod 8)"

lemma layout_values [simp]: "mkfs_nlog = 30" "mkfs_ninodeblocks = 26" "mkfs_nbitmap = 10" "mkfs_nmeta = 68"
  by (simp_all add: mkfs_nlog_def mkfs_ninodeblocks_def mkfs_nbitmap_def mkfs_nmeta_def)

lemma IBLOCK_ok: "i < 208 \<Longrightarrow> unat (IBLOCK (of_nat i) mkfs_sb) = 32 + i div 8"
  by (simp add: IBLOCK_def mkfs_sb_def unat_word_ariths unat_div unat_of_nat)

lemma slot_ok: "i < 208 \<Longrightarrow> unat (of_nat i mod of_nat IPB :: uint) = i mod 8"
  by (simp add: unat_mod unat_of_nat)

lemma rinode_ok: "host_ok s \<Longrightarrow> i < 208 \<Longrightarrow> rinode (of_nat i) s = Inr (mnode s i)"
  using rsect_ok [of s "IBLOCK (of_nat i) mkfs_sb"] IBLOCK_ok [of i] slot_ok [of i] by (simp add: rinode_def mnode_def)

lemma winode_ok:
  assumes h: "host_ok s" and i: "i < 208" and len: "length (d_addrs ip) = 13"
  shows "\<exists>t. winode (of_nat i) ip s = Inr t \<and> host_ok t \<and> m_freeblock t = m_freeblock s \<and> m_freeinode t = m_freeinode s \<and>
    m_host t = m_host s \<and> (\<forall>b. unat b \<notin> {32..<58} \<longrightarrow> mblk t b = mblk s b) \<and>
    (\<forall>j < 208. mnode t j = (if j = i then ip else mnode s j))"
proof -
  define b where "b = IBLOCK (of_nat i) mkfs_sb"
  define d where "d = put_dinode (mblk s b) (i mod 8) ip"
  define t where "t = s\<lparr>m_img := (m_img s)[unat b := d]\<rparr>"
  have b: "unat b = 32 + i div 8" using IBLOCK_ok [OF i] by (simp add: b_def)
  then have bb: "unat b < FSSIZE" "unat b \<in> {32..<58}" using i by auto
  have v: "mblk t = (mblk s)(b := d)" using mblk_update [OF h bb(1)] by (simp add: t_def)
  have "mnode t j = (if j = i then ip else mnode s j)" if j: "j < 208" for j
  proof (cases "IBLOCK (of_nat j) mkfs_sb = b")
    case True
    then have "j div 8 = i div 8" using b IBLOCK_ok [OF j] by simp
    then have "j mod 8 = i mod 8 \<longleftrightarrow> j = i" by (rule byte_index)
    then show ?thesis using True len by (auto simp: mnode_def v d_def get_dinode_put_dinode get_dinode_put_other)
  next
    case False
    then show ?thesis by (auto simp: mnode_def v b_def)
  qed
  moreover have "winode (of_nat i) ip s = Inr t"
    using rsect_ok [OF h bb(1)] wsect_ok [OF h bb(1), of d] slot_ok [OF i] by (simp add: winode_def b_def [symmetric] t_def d_def)
  moreover have "\<forall>c. unat c \<notin> {32..<58} \<longrightarrow> mblk t c = mblk s c" using bb(2) by (auto simp: v)
  ultimately show ?thesis using h by (intro exI [of _ t]) (simp add: t_def)
qed

lemma lay_meta:
  assumes L: "lay s own D N C" and t: "host_ok t" "m_freeblock t = m_freeblock s" "\<And>b. 68 \<le> unat b \<Longrightarrow> mblk t b = mblk s b"
  shows "lay t own D N C"
proof -
  have v: "mblk t b = mblk s b" if "own b = Some y" for b y using t(3) layD(4) [OF L, of b] that by auto
  have "shape (mblk t) own k (D k) (N k) \<and> holds (mblk t) (D k) (N k) (C k)" if k: "k < 208" for k
  proof -
    have "shape (mblk t) own k (D k) (N k)"
      by (rule shape_frame [OF layD(6) [OF L k]]) (use layD(6) [OF L k] v in \<open>auto simp: shape_def\<close>)
    moreover have "holds (mblk t) (D k) (N k) (C k)" by (rule holds_frame [OF layD(6,7) [OF L k]]) (rule v)
    ultimately show ?thesis ..
  qed
  moreover have "mblk t b = (\<lambda>_. 0)" if "unat (m_freeblock s) \<le> unat b" "unat b < FSSIZE" for b
    using layD(2) [OF L] layD(5) [OF L that] t(3) that by simp
  ultimately show ?thesis unfolding lay_def t(2) using t(1) layD(2,3) [OF L] layD(4) [OF L] by blast
qed

section \<open>The file system while it is built\<close>

text \<open>
  \<open>C\<close> gives the contents of every inode and \<open>m\<close> the next inode: the inodes below it are written out with the sizes of their contents,
  and the blocks before the data blocks hold the superblock and zeros.
\<close>

definition dnode :: "nat \<Rightarrow> uint list \<Rightarrow> nat \<Rightarrow> dinode" where
  "dnode i as n = \<lparr>d_type = (if i = 1 then T_DIR else T_FILE), d_major = 0, d_minor = 0, d_nlink = 1, d_size = of_nat n, d_addrs = as\<rparr>"

definition tree :: "mkfs \<Rightarrow> (uint \<Rightarrow> (nat \<times> nat) option) \<Rightarrow> (nat \<Rightarrow> uint list) \<Rightarrow> (nat \<Rightarrow> uchar list) \<Rightarrow> nat \<Rightarrow> bool" where
  "tree s own D C m \<longleftrightarrow> lay s own D (\<lambda>i. nblk (length (C i))) C \<and> m_freeinode s = of_nat m \<and> 0 < m \<and> m \<le> 208 \<and>
     (\<forall>b. unat b < 68 \<longrightarrow> unat b \<notin> {32..<58} \<longrightarrow> mblk s b = (if b = 1 then put_superblock mkfs_sb else (\<lambda>_. 0))) \<and>
     (\<forall>i < m. 0 < i \<longrightarrow> mnode s i = dnode i (D i) (length (C i))) \<and>
     (\<forall>i < 208. i = 0 \<or> m \<le> i \<longrightarrow> C i = [] \<and> D i = replicate 13 0 \<and> d_type (mnode s i) = 0)"

text \<open>The blocks in use when the inodes have the contents \<open>C\<close>.\<close>

definition need :: "(nat \<Rightarrow> uchar list) \<Rightarrow> nat" where
  "need C = 68 + (\<Sum>k < 208. cost (nblk (length (C k))))"

lemma treeD:
  assumes "tree s own D C m"
  shows "lay s own D (\<lambda>i. nblk (length (C i))) C" "m_freeinode s = of_nat m" "0 < m" "m \<le> 208"
    "unat b < 68 \<Longrightarrow> unat b \<notin> {32..<58} \<Longrightarrow> mblk s b = (if b = 1 then put_superblock mkfs_sb else (\<lambda>_. 0))"
    "i < m \<Longrightarrow> 0 < i \<Longrightarrow> mnode s i = dnode i (D i) (length (C i))" "i < 208 \<Longrightarrow> i = 0 \<or> m \<le> i \<Longrightarrow> C i = [] \<and> D i = replicate 13 0 \<and> d_type (mnode s i) = 0"
    "host_ok s" "unat (m_freeblock s) = need C"
proof -
  show L: "lay s own D (\<lambda>i. nblk (length (C i))) C" using assms by (simp add: tree_def)
  show "host_ok s" "unat (m_freeblock s) = need C" using layD(1,2) [OF L] by (simp_all add: need_def)
  show "C i = [] \<and> D i = replicate 13 0 \<and> d_type (mnode s i) = 0" if "i < 208" "i = 0 \<or> m \<le> i" using assms that unfolding tree_def by blast
qed (use assms in \<open>simp_all add: tree_def\<close>)

lemma need_mono: "(\<And>k. k < 208 \<Longrightarrow> length (C k) \<le> length (C' k)) \<Longrightarrow> need C \<le> need C'"
  unfolding need_def by (intro add_left_mono sum_mono cost_mono nblk_mono) simp

lemma keeps_mnode: "keeps s t \<Longrightarrow> j < 208 \<Longrightarrow> mnode t j = mnode s j"
  using IBLOCK_ok [of j] by (simp add: keeps_def mnode_def)

lemma iappend_ok:
  assumes T: "tree s own D C m" and i: "0 < i" "i < m" and len: "length (C i) + length p \<le> 138 * 512"
    and room: "need (C(i := C i @ p)) \<le> FSSIZE"
  shows "\<exists>t own' D'. iappend (of_nat i) p s = Inr t \<and> tree t own' D' (C(i := C i @ p)) m \<and> m_host t = m_host s"
proof -
  note L = treeD(1) [OF T]
  have i2: "i < 208" using i treeD(4) [OF T] by simp
  define din where "din = dnode i (D i) (length (C i))"
  have N: "(\<lambda>i. nblk (length (C i)))(i := nblk (length (C i) + length p)) = (\<lambda>k. nblk (length ((C(i := C i @ p)) k)))" by auto
  have r: "rinode (of_nat i) s = Inr din" using rinode_ok [OF treeD(8) [OF T] i2] treeD(6) [OF T i(2,1)] by (simp add: din_def)
  have da: "d_addrs din = D i" and sz: "unat (d_size din) = length (C i)" using len by (simp_all add: din_def dnode_def unat_of_nat)
  from append_loop_ok [OF L i2 da sz refl len, unfolded N, OF room [unfolded need_def]] obtain as t1 own' where
    t1: "append_loop din (d_size din) p s = Inr (din\<lparr>d_addrs := as\<rparr>, d_size din + of_nat (length p), t1)"
      "lay t1 own' (D(i := as)) (\<lambda>k. nblk (length ((C(i := C i @ p)) k))) (C(i := C i @ p))" "keeps s t1"
    by blast
  define dn where "dn = dnode i as (length (C i @ p))"
  have dn: "din\<lparr>d_addrs := as, d_size := d_size din + of_nat (length p)\<rparr> = dn" by (simp add: dn_def din_def dnode_def)
  have "length as = 13" using layD(6) [OF t1(2) i2] by (simp add: shape_def)
  then have "length (d_addrs dn) = 13" by (simp add: dn_def dnode_def)
  from winode_ok [OF layD(1) [OF t1(2)] i2 this] obtain t where
    t: "winode (of_nat i) dn t1 = Inr t" "host_ok t" "m_freeblock t = m_freeblock t1" "m_freeinode t = m_freeinode t1" "m_host t = m_host t1"
      "\<forall>b. unat b \<notin> {32..<58} \<longrightarrow> mblk t b = mblk t1 b" "\<forall>j < 208. mnode t j = (if j = i then dn else mnode t1 j)" by blast
  have "lay t own' (D(i := as)) (\<lambda>k. nblk (length ((C(i := C i @ p)) k))) (C(i := C i @ p))"
    by (rule lay_meta [OF t1(2) t(2,3)]) (use t(6) in auto)
  moreover have "mnode t j = dnode j ((D(i := as)) j) (length ((C(i := C i @ p)) j))" if "j < m" "0 < j" for j
    using that t(7) treeD(4) [OF T] treeD(6) [OF T that] keeps_mnode [OF t1(3), of j] by (simp add: dn_def)
  moreover have "mnode t j = mnode s j" if "j < 208" "j \<noteq> i" for j using that t(7) keeps_mnode [OF t1(3), of j] by simp
  ultimately have "tree t own' (D(i := as)) (C(i := C i @ p)) m"
    unfolding tree_def using treeD(2-5,7) [OF T] t1(3) t(4,6) i by (simp add: keeps_def)
  moreover have "iappend (of_nat i) p s = Inr t" using r t1(1) dn t(1) by (simp add: iappend_def)
  ultimately show ?thesis using t(5) t1(3) unfolding keeps_def by metis
qed

lemma ialloc_ok:
  assumes T: "tree s own D C m" and m: "m < 208" and ty: "ty = (if m = 1 then T_DIR else T_FILE)"
  shows "\<exists>t. mkfs_ialloc ty s = Inr (of_nat m, t) \<and> tree t own D C (Suc m) \<and> m_host t = m_host s"
proof -
  define u where "u = s\<lparr>m_freeinode := of_nat m + 1\<rparr>"
  define din where "din = dnode m (replicate 13 0) 0"
  have u: "host_ok u" "m_freeblock u = m_freeblock s" "m_host u = m_host s" "mblk u = mblk s" "mnode u j = mnode s j" for j
    using treeD(8) [OF T] by (simp_all add: u_def mnode_def)
  have e: "C m = []" "D m = replicate 13 0" using treeD(7) [OF T m] by simp_all
  have "length (d_addrs din) = 13" by (simp add: din_def dnode_def)
  from winode_ok [OF u(1) m this] obtain t where
    t: "winode (of_nat m) din u = Inr t" "host_ok t" "m_freeblock t = m_freeblock u" "m_freeinode t = m_freeinode u" "m_host t = m_host u"
      "\<forall>b. unat b \<notin> {32..<58} \<longrightarrow> mblk t b = mblk u b" "\<forall>j < 208. mnode t j = (if j = m then din else mnode u j)" by blast
  have L: "lay t own D (\<lambda>i. nblk (length (C i))) C"
    by (rule lay_meta [OF treeD(1) [OF T] t(2)]) (use t(3,6) u(2,4) in auto)
  have mn: "mnode t i = dnode i (D i) (length (C i))" if "i < Suc m" "0 < i" for i
    using that m t(7) u(5) e treeD(6) [OF T, of i] by (auto simp: din_def less_Suc_eq)
  have "tree t own D C (Suc m)"
    unfolding tree_def
  proof (intro conjI allI impI L mn)
    show "m_freeinode t = of_nat (Suc m)" using t(4) by (simp add: u_def)
    show "mblk t b = (if b = 1 then put_superblock mkfs_sb else (\<lambda>_. 0))" if "unat b < 68" "unat b \<notin> {32..<58}" for b
      using treeD(5) [OF T that] t(6) that u(4) by simp
    show "C i = []" "D i = replicate 13 0" "d_type (mnode t i) = 0" if "i < 208" "i = 0 \<or> Suc m \<le> i" for i
      using treeD(7) [OF T that(1)] that(2) t(7) u(5) that(1) treeD(3) [OF T] by auto
  qed (use m in simp_all)
  moreover have "mkfs_ialloc ty s = Inr (of_nat m, t)"
    using t(1) treeD(2) [OF T] ty by (simp add: mkfs_ialloc_def Let_def din_def dnode_def u_def)
  ultimately show ?thesis using t(5) u(3) by auto
qed

lemma append_reads_ok:
  assumes "tree s own D C m" "0 < i" "i < m" "length (C i @ concat rs) \<le> 138 * 512" "need (C(i := C i @ concat rs)) \<le> FSSIZE"
  shows "\<exists>t own' D'. append_reads (of_nat i) rs s = Inr t \<and> tree t own' D' (C(i := C i @ concat rs)) m \<and> m_host t = m_host s"
  using assms
proof (induction rs arbitrary: s own D C)
  case Nil
  then show ?case by auto
next
  case (Cons r rs)
  have "need (C(i := C i @ r)) \<le> need (C(i := C i @ concat (r # rs)))" by (rule need_mono) simp
  with Cons.prems(5) have room: "need (C(i := C i @ r)) \<le> FSSIZE" by (rule order_trans [rotated])
  from iappend_ok [OF Cons.prems(1-3) _ room] Cons.prems(4) obtain t own' D' where
    t: "iappend (of_nat i) r s = Inr t" "tree t own' D' (C(i := C i @ r)) m" "m_host t = m_host s" by auto
  have eq: "(C(i := C i @ r))(i := (C(i := C i @ r)) i @ concat rs) = C(i := C i @ concat (r # rs))" by simp
  have "length ((C(i := C i @ r)) i @ concat rs) \<le> 138 * 512" using Cons.prems(4) by simp
  from Cons.IH [OF t(2) Cons.prems(2,3) this, unfolded eq, OF Cons.prems(5)] obtain u own'' D'' where
    "append_reads (of_nat i) rs t = Inr u" "tree u own'' D'' (C(i := C i @ concat (r # rs))) m" "m_host u = m_host t" by blast
  then show ?case using t(1,3) by (intro exI [of _ u] exI [of _ own''] exI [of _ D'']) (simp add: fun_upd_def)
qed

text \<open>The contents of the inodes after a file has been added, and after a list of files.\<close>

definition with_file :: "mkhost \<Rightarrow> uchar list \<Rightarrow> nat \<Rightarrow> (nat \<Rightarrow> uchar list) \<Rightarrow> nat \<Rightarrow> uchar list" where
  "with_file h arg m C = C(1 := C 1 @ mk_dirent (of_nat m) (skip_mark arg), m := concat (the (h_open h arg)))"

fun with_files :: "mkhost \<Rightarrow> uchar list list \<Rightarrow> nat \<Rightarrow> (nat \<Rightarrow> uchar list) \<Rightarrow> nat \<Rightarrow> uchar list" where
  "with_files h [] m C = C"
| "with_files h (arg # args) m C = with_files h args (Suc m) (with_file h arg m C)"

text \<open>What \<^verbatim>\<open>mkfs\<close> asks of an argument: a name without a slash, of a file that can be read and is not too long.\<close>

definition arg_ok :: "mkhost \<Rightarrow> uchar list \<Rightarrow> bool" where
  "arg_ok h arg \<longleftrightarrow> of_char (CHR ''/'') \<notin> set arg \<and>
     (case h_open h arg of None \<Rightarrow> False | Some rs \<Rightarrow> length (concat rs) \<le> (NDIRECT + NINDIRECT) * BSIZE)"

lemma length_mk_dirent [simp]: "length (mk_dirent i name) = 16"
  by (simp add: mk_dirent_def)

lemma add_file_ok:
  assumes T: "tree s own D C m" and m: "1 < m" "m < 208" and a: "arg_ok (m_host s) arg" and root: "length (C 1) + 16 \<le> 138 * 512"
    and room: "need (with_file (m_host s) arg m C) \<le> FSSIZE"
  shows "\<exists>t own' D'. add_file 1 arg s = Inr t \<and> tree t own' D' (with_file (m_host s) arg m C) (Suc m) \<and> m_host t = m_host s"
proof -
  obtain rs where rs: "h_open (m_host s) arg = Some rs" "length (concat rs) \<le> 138 * 512"
    using a by (auto simp: arg_ok_def split: option.splits)
  define e where "e = mk_dirent (of_nat m) (skip_mark arg)"
  define C1 where "C1 = C(1 := C 1 @ e)"
  have Cm: "C m = []" using treeD(7) [OF T m(2)] by simp
  have w: "with_file (m_host s) arg m C = C1(m := C1 m @ concat rs)" using m(1) Cm rs(1) by (simp add: with_file_def C1_def e_def)
  have "need C1 \<le> need (C1(m := C1 m @ concat rs))" by (rule need_mono) simp
  then have room1: "need C1 \<le> FSSIZE" using room w by simp
  from ialloc_ok [OF T m(2), of T_FILE] m(1) obtain t where
    t: "mkfs_ialloc T_FILE s = Inr (of_nat m, t)" "tree t own D C (Suc m)" "m_host t = m_host s" by auto
  from iappend_ok [OF t(2), of 1 e, folded C1_def, OF _ _ _ room1] m(1) root obtain u own' D' where
    u: "iappend 1 e t = Inr u" "tree u own' D' C1 (Suc m)" "m_host u = m_host t" by (auto simp: e_def)
  have "C1 m = []" using m(1) Cm by (simp add: C1_def)
  then have "length (C1 m @ concat rs) \<le> 138 * 512" using rs(2) by simp
  from append_reads_ok [OF u(2) _ _ this] m(1) room w obtain x own'' D'' where
    x: "append_reads (of_nat m) rs u = Inr x" "tree x own'' D'' (with_file (m_host s) arg m C) (Suc m)" "m_host x = m_host u" by auto
  have "add_file 1 arg s = Inr x" using a rs(1) t(1) u(1) x(1) by (simp add: add_file_def arg_ok_def e_def)
  then show ?thesis using x(2,3) u(3) t(3) by auto
qed

lemma with_files_other: "j \<noteq> 1 \<Longrightarrow> j < m \<or> m + length args \<le> j \<Longrightarrow> with_files h args m C j = C j"
  by (induction args arbitrary: m C) (auto simp: with_file_def)

lemma with_files_file: "1 < m \<Longrightarrow> k < length args \<Longrightarrow> with_files h args m C (m + k) = concat (the (h_open h (args ! k)))"
proof (induction args arbitrary: m C k)
  case (Cons arg args)
  show ?case
  proof (cases k)
    case 0
    then show ?thesis using Cons.prems by (simp add: with_files_other with_file_def)
  next
    case (Suc l)
    then show ?thesis using Cons.IH [of "Suc m" l] Cons.prems by simp
  qed
qed simp

definition dir_entries :: "nat \<Rightarrow> uchar list list \<Rightarrow> uchar list" where
  "dir_entries m args = concat (map (\<lambda>k. mk_dirent (of_nat (m + k)) (skip_mark (args ! k))) [0..<length args])"

lemma dir_entries_Cons: "dir_entries m (arg # args) = mk_dirent (of_nat m) (skip_mark arg) @ dir_entries (Suc m) args"
  unfolding dir_entries_def by (simp only: length_Cons upt_conv_Cons zero_less_Suc map_Suc_upt [symmetric] map_map list.map concat.simps)
    (simp add: comp_def ac_simps)

lemma with_files_root: "1 < m \<Longrightarrow> with_files h args m C 1 = C 1 @ dir_entries m args"
  by (induction args arbitrary: m C) (simp_all add: with_file_def dir_entries_Cons, simp add: dir_entries_def)

lemma with_files_mono:
  assumes "1 < m" "\<And>j. m \<le> j \<Longrightarrow> j < 208 \<Longrightarrow> C j = []" "k < 208"
  shows "length (C k) \<le> length (with_files h args m C k)"
proof -
  consider "k = 1" | "k \<noteq> 1" "k < m \<or> m + length args \<le> k" | l where "k = m + l" "l < length args"
    by (metis not_le_imp_less le_Suc_ex nat_add_left_cancel_less)
  then show ?thesis
  proof cases
    case 1
    then show ?thesis using with_files_root [OF assms(1)] by simp
  next
    case 2
    then show ?thesis by (simp add: with_files_other)
  next
    case 3
    then show ?thesis using assms by simp
  qed
qed

lemma add_files_ok:
  assumes "tree s own D C m" "1 < m" "m + length args \<le> 208" "\<forall>arg \<in> set args. arg_ok (m_host s) arg"
    "length (C 1) + 16 * length args \<le> 138 * 512" "need (with_files (m_host s) args m C) \<le> FSSIZE"
  shows "\<exists>t own' D'. add_files 1 args s = Inr t \<and> tree t own' D' (with_files (m_host s) args m C) (m + length args) \<and> m_host t = m_host s"
  using assms
proof (induction args arbitrary: s own D C m)
  case (Cons arg args)
  define C' where "C' = with_file (m_host s) arg m C"
  have m: "m < 208" using Cons.prems(3) by simp
  have "C' j = []" if "Suc m \<le> j" "j < 208" for j
    using treeD(7) [OF Cons.prems(1) that(2)] that Cons.prems(2) by (simp add: C'_def with_file_def)
  with Cons.prems(2) have "need C' \<le> need (with_files (m_host s) args (Suc m) C')" by (intro need_mono with_files_mono) simp_all
  then have room: "need C' \<le> FSSIZE" using Cons.prems(6) by (simp add: C'_def)
  from add_file_ok [OF Cons.prems(1,2) m, of arg, folded C'_def] Cons.prems(4,5) room obtain t own' D' where
    t: "add_file 1 arg s = Inr t" "tree t own' D' C' (Suc m)" "m_host t = m_host s" by auto
  have "length (C' 1) = length (C 1) + 16" using Cons.prems(2) by (simp add: C'_def with_file_def)
  with Cons.IH [OF t(2)] Cons.prems(2-6) t(3) obtain u own'' D'' where
    "add_files 1 args t = Inr u" "tree u own'' D'' (with_files (m_host s) args (Suc m) C') (Suc m + length args)" "m_host u = m_host t"
    by (auto simp: C'_def)
  then show ?case using t(1,3) by (auto simp: C'_def)
qed auto

section \<open>The empty image\<close>

lemma clear_sectors_ok:
  assumes "j \<le> n" "n \<le> FSSIZE" "m_img s = replicate j (\<lambda>_. 0)" "\<forall>k < FSSIZE. h_write (m_host s) k"
  shows "clear_sectors [j..<n] s = Inr (s\<lparr>m_img := replicate n (\<lambda>_. 0)\<rparr>)"
  using assms
proof (induction "n - j" arbitrary: j s)
  case (Suc d)
  then have j: "j < n" by simp
  then have "sect_of (of_nat j) = j" using Suc.prems(2) sect_of_small [of "of_nat j"] by (simp add: unat_of_nat)
  then have "wsect (of_nat j) (\<lambda>_. 0) s = Inr (s\<lparr>m_img := replicate (Suc j) (\<lambda>_. 0)\<rparr>)"
    using Suc.prems j by (simp add: wsect_def replicate_append_same)
  moreover have "d = n - Suc j" using Suc.hyps(2) by simp
  ultimately show ?case using Suc.hyps(1) [of "Suc j" "s\<lparr>m_img := replicate (Suc j) (\<lambda>_. 0)\<rparr>"] Suc.prems j
    by (simp add: upt_conv_Cons del: replicate_Suc)
qed simp

lemma start_ok:
  assumes w: "\<forall>k < FSSIZE. h_write h k"
  shows "\<exists>s. wsect 1 (put_superblock mkfs_sb)
      \<lparr>m_host = h, m_img = replicate FSSIZE (\<lambda>_. 0), m_freeinode = 1, m_freeblock = of_nat mkfs_nmeta\<rparr> = Inr s \<and>
    tree s (\<lambda>_. None) (\<lambda>_. replicate 13 0) (\<lambda>_. []) 1 \<and> m_host s = h"
proof -
  define u where "u = \<lparr>m_host = h, m_img = replicate FSSIZE (\<lambda>_. 0 :: uchar), m_freeinode = 1, m_freeblock = of_nat mkfs_nmeta\<rparr>"
  define s where "s = u\<lparr>m_img := (m_img u)[1 := put_superblock mkfs_sb]\<rparr>"
  have hu: "host_ok u" using w by (simp add: host_ok_def u_def)
  then have hs: "host_ok s" by (simp add: s_def)
  have v: "mblk s = (mblk u)(1 := put_superblock mkfs_sb)" using mblk_update [OF hu, of 1] by (simp add: s_def)
  have z: "mblk u b = (\<lambda>_. 0)" if "unat b < FSSIZE" for b using that by (simp add: mblk_def u_def nth_replicate)
  have free: "d_type (mnode s i) = 0" if "i < 208" for i
  proof -
    have "unat (IBLOCK (of_nat i) mkfs_sb) < FSSIZE" "IBLOCK (of_nat i) mkfs_sb \<noteq> 1" using IBLOCK_ok [OF that] that by auto
    then show ?thesis by (simp add: mnode_def v z get_dinode_def get16_def)
  qed
  have c: "cost (nblk 0) = 0" by (simp add: cost_def nblk_def)
  have fb: "unat (m_freeblock s) = 68" by (simp add: s_def u_def)
  have "lay s (\<lambda>_. None) (\<lambda>_. replicate 13 0) (\<lambda>_. nblk (length [])) (\<lambda>_. [])"
    unfolding lay_def list.size c fb using hs z by (auto simp: shape_def holds_def nblk_def v)
  then have "tree s (\<lambda>_. None) (\<lambda>_. replicate 13 0) (\<lambda>_. []) 1"
    unfolding tree_def using free z by (simp add: v) (simp add: s_def u_def)
  moreover have "wsect 1 (put_superblock mkfs_sb) u = Inr s" using wsect_ok [OF hu, of 1] by (simp add: s_def)
  ultimately show ?thesis by (intro exI [of _ s]) (simp add: u_def [symmetric], simp add: s_def u_def)
qed

lemma bitmap_buf_bit: "block_bit (bitmap_buf n) b \<longleftrightarrow> b < n"
proof (induction n)
  case 0
  then show ?case by (simp add: bitmap_buf_def block_bit_iff)
next
  case (Suc n)
  have "bitmap_buf (Suc n) = set_block_bit n (bitmap_buf n)" by (simp add: bitmap_buf_def set_block_bit_def)
  then show ?case using Suc by (auto simp: block_bit_set)
qed

section \<open>The image\<close>

text \<open>The contents \<^verbatim>\<open>mkfs\<close> is to store: the root directory in inode 1 and the files in the inodes from 2 on.\<close>

definition fs_image :: "mkhost \<Rightarrow> uchar list list \<Rightarrow> nat \<Rightarrow> uchar list" where
  "fs_image h args i =
     (if i = 1 then mk_dirent 1 (chars_of ''.'') @ mk_dirent 1 (chars_of ''..'') @ dir_entries 2 args
      else if 2 \<le> i \<and> i < 2 + length args then concat (the (h_open h (args ! (i - 2)))) else [])"

lemma image_with_files: "fs_image h args = with_files h args 2 ((\<lambda>_. [])(1 := mk_dirent 1 (chars_of ''.'') @ mk_dirent 1 (chars_of ''..'')))" (is "_ = ?w")
proof
  fix i
  consider "i = 1" | "i \<noteq> 1" "i < 2 \<or> 2 + length args \<le> i" | k where "i = 2 + k" "k < length args"
    by (metis not_le_imp_less le_Suc_ex nat_add_left_cancel_less)
  then show "fs_image h args i = ?w i"
  proof cases
    case 1
    then show ?thesis using with_files_root [of 2 h args] by (simp add: fs_image_def)
  next
    case 2
    then show ?thesis by (auto simp: fs_image_def with_files_other)
  next
    case 3
    then show ?thesis using with_files_file [of 2 k args h] by (simp add: fs_image_def)
  qed
qed

lemma nth_dir_entries:
  "k < length args \<Longrightarrow> j < 16 \<Longrightarrow> dir_entries m args ! (16 * k + j) = mk_dirent (of_nat (m + k)) (skip_mark (args ! k)) ! j"
proof (induction args arbitrary: m k)
  case (Cons arg args)
  then show ?case by (cases k) (simp_all add: dir_entries_Cons nth_append add.assoc)
qed simp

lemma length_dir_entries [simp]: "length (dir_entries m args) = 16 * length args"
  by (induction args arbitrary: m) (simp_all add: dir_entries_Cons, simp add: dir_entries_def)

definition entry_of :: "nat \<Rightarrow> uchar list \<Rightarrow> dirent" where
  "entry_of i name = \<lparr>de_inum = of_nat i, de_name = take DIRSIZ (name @ replicate DIRSIZ 0)\<rparr>"

lemma get_dirent_cong: "(\<And>j. j < 16 \<Longrightarrow> d j = e j) \<Longrightarrow> get_dirent d = get_dirent e"
  unfolding get_dirent_def by (auto intro: get16_cong)

lemma get_mk_dirent:
  assumes "i < 65536" "\<And>j. j < 16 \<Longrightarrow> d j = mk_dirent (of_nat i) name ! j"
  shows "get_dirent d = entry_of i name"
proof -
  have "ucast (of_nat i :: uint) = (of_nat i :: ushort)" using assms(1) by (simp add: unsigned_of_nat take_bit_nat_eq_self)
  then have "get_dirent d = get_dirent (put_dirent (entry_of i name))"
    by (intro get_dirent_cong) (simp add: assms mk_dirent_def entry_of_def)
  then show ?thesis by (simp add: get_dirent_put_dirent entry_of_def)
qed

text \<open>
  What the kernel finds on the image: the superblock, an empty log, a bitmap that marks exactly the blocks in use, for every inode its
  type and contents, in blocks that no two files share, free inodes after them, and the names in the root directory.
\<close>

definition image_ok :: "mkhost \<Rightarrow> uchar list list \<Rightarrow> mkfs \<Rightarrow> bool" where
  "image_ok h args s \<longleftrightarrow> (let v = mblk s; C = fs_image h args; last = 1 + length args; A = (\<lambda>i. d_addrs (mnode s i)) in
     get_superblock (v 1) = mkfs_sb \<and> get32 (v (sb_logstart mkfs_sb)) 0 = 0 \<and>
     (\<forall>b < FSSIZE. used v mkfs_sb b \<longleftrightarrow> b < need C) \<and>
     (\<forall>i. 1 \<le> i \<longrightarrow> i \<le> last \<longrightarrow>
        mnode s i = dnode i (A i) (if i = 1 then (length (C i) div BSIZE + 1) * BSIZE else length (C i)) \<and>
        blocks_ok v (A i) (of_nat (need C)) (nblk (length (C i))) \<and> (\<forall>j < length (C i). file_byte v (A i) j = C i ! j)) \<and>
     (\<forall>i k bn bm. 1 \<le> i \<longrightarrow> i \<le> last \<longrightarrow> 1 \<le> k \<longrightarrow> k \<le> last \<longrightarrow> bn < nblk (length (C i)) \<longrightarrow> bm < nblk (length (C k)) \<longrightarrow>
        file_block v (A i) bn = file_block v (A k) bm \<longrightarrow> i = k \<and> bn = bm) \<and>
     (\<forall>i. last < i \<longrightarrow> i < NINODES \<longrightarrow> d_type (mnode s i) = 0) \<and>
     (\<forall>k < length args. get_dirent (\<lambda>j. file_byte v (A 1) (16 * (k + 2) + j)) = entry_of (k + 2) (skip_mark (args ! k))))"

lemma get_put_superblock: "get_superblock (put_superblock sb) = sb"
  by (simp add: get_superblock_def put_superblock_def get32_put32_other)

lemma BBLOCK_ok: "b < FSSIZE \<Longrightarrow> unat (BBLOCK (of_nat b) mkfs_sb) = 58 + b div 4096"
  by (simp add: BBLOCK_def mkfs_sb_def unat_word_ariths unat_div unat_of_nat)

text \<open>The last two steps of \<^verbatim>\<open>main\<close>.\<close>

lemma finish_ok:
  assumes T: "tree s own D C m" and m: "1 < m" and small: "need C < 4096"
  shows "\<exists>t u. fix_root 1 s = Inr t \<and> mkfs_balloc (sint (m_freeblock t)) t = Inr u \<and> lay u own D (\<lambda>i. nblk (length (C i))) C \<and>
    (\<forall>b. unat b \<notin> {32..58} \<longrightarrow> mblk u b = mblk s b) \<and> mblk u 58 = bitmap_buf (need C) \<and>
    (\<forall>j < 208. mnode u j = (if j = 1 then dnode 1 (D 1) ((length (C 1) div 512 + 1) * 512) else mnode s j))"
proof -
  define dn where "dn = dnode 1 (D 1) ((length (C 1) div 512 + 1) * 512)"
  have c1: "length (C 1) \<le> 138 * 512"
    using layD(6,7) [OF treeD(1) [OF T], of 1] by (simp add: shape_def holds_def)
  have r: "rinode 1 s = Inr (dnode 1 (D 1) (length (C 1)))"
    using rinode_ok [OF treeD(8) [OF T], of 1] treeD(6) [OF T m] by simp
  have "of_nat (length (C 1)) div 512 = (of_nat (length (C 1) div 512) :: uint)"
    using c1 by (simp add: word_unat_eq_iff unat_div unat_of_nat)
  then have dn: "(dnode 1 (D 1) (length (C 1)))\<lparr>d_size := (of_nat (length (C 1)) div 512 + 1) * 512\<rparr> = dn"
    by (simp add: dn_def dnode_def algebra_simps)
  have "length (d_addrs dn) = 13" using layD(6) [OF treeD(1) [OF T], of 1] by (simp add: shape_def dn_def dnode_def)
  from winode_ok [OF treeD(8) [OF T] _ this, of 1] obtain t where
    t: "winode 1 dn s = Inr t" "host_ok t" "m_freeblock t = m_freeblock s" "m_host t = m_host s"
      "\<forall>b. unat b \<notin> {32..<58} \<longrightarrow> mblk t b = mblk s b" "\<forall>j < 208. mnode t j = (if j = 1 then dn else mnode s j)" by auto
  have ft: "fix_root 1 s = Inr t" using r dn t(1) by (simp add: fix_root_def dnode_def)
  define u where "u = t\<lparr>m_img := (m_img t)[unat (58 :: uint) := bitmap_buf (need C)]\<rparr>"
  have v: "mblk u = (mblk t)(58 := bitmap_buf (need C))" unfolding u_def by (rule mblk_update [OF t(2)]) simp
  have fb: "unat (m_freeblock t) = need C" using treeD(9) [OF T] t(3) by simp
  then have "sint (m_freeblock t) = int (need C)" using small sint_small [of "m_freeblock t"] by simp
  then have "mkfs_balloc (sint (m_freeblock t)) t = Inr u"
    using small wsect_ok [OF t(2), of 58 "bitmap_buf (need C)"] by (simp add: mkfs_balloc_def mkfs_sb_def u_def)
  moreover have "lay u own D (\<lambda>i. nblk (length (C i))) C"
    using t(2,3,5) by (intro lay_meta [OF treeD(1) [OF T]]) (auto simp: v, simp_all add: u_def)
  moreover have "mnode u j = mnode t j" if "j < 208" for j using IBLOCK_ok [OF that] that by (auto simp: mnode_def v)
  moreover have "\<forall>b. unat b \<notin> {32..58} \<longrightarrow> mblk u b = mblk s b" using t(5) by (auto simp: v)
  ultimately show ?thesis using ft t(6) by (intro exI [of _ t] exI [of _ u]) (simp add: v dn_def)
qed

lemma blocks_ok_shape:
  assumes L: "lay s own D N C" and i: "i < 208"
  shows "blocks_ok (mblk s) (D i) (m_freeblock s) (N i)"
proof -
  note sh = layD(6) [OF L i]
  have nz: "b \<noteq> 0 \<and> b < m_freeblock s" if "own b = Some y" for b y
    using layD(4) [OF L, of b] that by (auto simp: word_less_nat_alt)
  have "\<forall>a \<in> set (block_path (mblk s) (D i) bn). a \<noteq> 0 \<and> a < m_freeblock s" if bn: "bn < N i" for bn
  proof (cases "bn < 10")
    case True
    then show ?thesis using nz [OF shapeD(1) [OF sh bn]] by (simp add: block_path_def file_block_def)
  next
    case False
    then have "own (D i ! 10) = Some (i, 138)" using sh bn by (simp add: shape_def)
    moreover have "bn - 10 < 128" using False shapeD(2) [OF sh bn] by linarith
    then have "block_path (mblk s) (D i) bn = [D i ! 10, entry (mblk s) (D i ! 10) (bn - 10)]"
      using False by (simp add: block_path_def Let_def)
    ultimately show ?thesis using nz nz [OF shapeD(1) [OF sh bn]] by (simp add: file_block_def)
  qed
  then show ?thesis by (simp add: blocks_ok_def)
qed

lemma main_runs:
  assumes img: "h_image h img" and w: "\<forall>k < FSSIZE. h_write h k" and args: "\<forall>arg \<in> set args. arg_ok h arg"
    and n: "length args \<le> 198" and small: "need (fs_image h args) < 4096"
  shows "\<exists>s own D t. tree s own D (fs_image h args) (2 + length args) \<and> fix_root 1 s = Inr t \<and>
    mkfs_main h (prog # img # args) = mkfs_balloc (sint (m_freeblock t)) t"
proof -
  define s0 where "s0 = \<lparr>m_host = h, m_img = [], m_freeinode = 1, m_freeblock = of_nat mkfs_nmeta :: uint\<rparr>"
  have clear: "clear_sectors [0..<FSSIZE] s0 = Inr (s0\<lparr>m_img := replicate FSSIZE (\<lambda>_. 0)\<rparr>)"
    by (rule clear_sectors_ok) (use w in \<open>simp_all add: s0_def\<close>)
  obtain s1 where s1: "wsect 1 (put_superblock mkfs_sb) (s0\<lparr>m_img := replicate FSSIZE (\<lambda>_. 0)\<rparr>) = Inr s1"
    "tree s1 (\<lambda>_. None) (\<lambda>_. replicate 13 0) (\<lambda>_. []) 1" "m_host s1 = h"
    using start_ok [OF w] by (auto simp: s0_def)
  obtain s2 where s2: "mkfs_ialloc T_DIR s1 = Inr (1, s2)" "tree s2 (\<lambda>_. None) (\<lambda>_. replicate 13 0) (\<lambda>_. []) 2" "m_host s2 = h"
    using ialloc_ok [OF s1(2), of T_DIR] s1(3) by (auto simp: numeral_2_eq_2)
  define e1 where "e1 = mk_dirent 1 (chars_of ''.'')"
  define e2 where "e2 = mk_dirent 1 (chars_of ''..'')"
  define C1 where "C1 = (\<lambda>_ :: nat. [] :: uchar list)(1 := e1)"
  define C2 where "C2 = (\<lambda>_ :: nat. [] :: uchar list)(1 := e1 @ e2)"
  have im: "fs_image h args = with_files h args 2 C2" by (simp add: image_with_files C2_def e1_def e2_def)
  have "need C1 \<le> need C2" by (rule need_mono) (simp add: C1_def C2_def)
  moreover have "need C2 \<le> need (fs_image h args)" unfolding im by (intro need_mono with_files_mono) (simp_all add: C2_def)
  ultimately have room: "need C1 \<le> FSSIZE" "need C2 \<le> FSSIZE" "need (fs_image h args) \<le> FSSIZE" using small by simp_all
  obtain s3 own3 D3 where s3: "iappend 1 e1 s2 = Inr s3" "tree s3 own3 D3 C1 2" "m_host s3 = h"
    using iappend_ok [OF s2(2), of 1 e1] room(1) s2(3) by (auto simp: C1_def e1_def)
  have C2: "C1(1 := C1 1 @ e2) = C2" by (simp add: C1_def C2_def)
  obtain s4 own4 D4 where s4: "iappend 1 e2 s3 = Inr s4" "tree s4 own4 D4 C2 2" "m_host s4 = h"
    using iappend_ok [OF s3(2), of 1 e2, unfolded C2] room(2) s3(3) by (auto simp: C1_def e1_def e2_def)
  have len: "length (C2 1) = 32" by (simp add: C2_def e1_def e2_def)
  obtain s own D where s: "add_files 1 args s4 = Inr s" "tree s own D (fs_image h args) (2 + length args)"
    using add_files_ok [OF s4(2), of args, unfolded s4(3) im [symmetric]] args n room(3) len by auto
  obtain t where t: "fix_root 1 s = Inr t" using finish_ok [OF s(2) _ small] by auto
  have "mkfs_main h (prog # img # args) = mkfs_balloc (sint (m_freeblock t)) t"
    using img clear s1(1) s2(1) s3(1) s4(1) s(1) t
    by (simp add: mkfs_main_def s0_def [symmetric] e1_def [symmetric] e2_def [symmetric] del: upt_rec_numeral layout_values)
  then show ?thesis using s(2) t by blast
qed

lemma image_okI:
  assumes L: "lay u own D (\<lambda>i. nblk (length (fs_image h args i))) (fs_image h args)"
    and sb: "mblk u 1 = put_superblock mkfs_sb" and lg: "mblk u 2 = (\<lambda>_. 0)"
    and bm: "mblk u 58 = bitmap_buf (need (fs_image h args))" "\<And>b. 58 < unat b \<Longrightarrow> unat b < 68 \<Longrightarrow> mblk u b = (\<lambda>_. 0)"
    and small: "need (fs_image h args) < 4096" and n: "length args \<le> 198"
    and ino: "\<And>i. 1 \<le> i \<Longrightarrow> i \<le> 1 + length args \<Longrightarrow> mnode u i = dnode i (D i)
        (if i = 1 then (length (fs_image h args i) div 512 + 1) * 512 else length (fs_image h args i))"
    and free: "\<And>i. 1 + length args < i \<Longrightarrow> i < 200 \<Longrightarrow> d_type (mnode u i) = 0"
  shows "image_ok h args u"
proof -
  let ?C = "fs_image h args" and ?v = "mblk u"
  have A: "d_addrs (mnode u i) = D i" if "1 \<le> i" "i \<le> 1 + length args" for i using ino [OF that] by (simp add: dnode_def)
  have i2: "i < 208" if "i \<le> 1 + length args" for i using that n by simp
  have nc: "m_freeblock u = of_nat (need ?C)" unfolding layD(2) [OF L, folded need_def, symmetric] by simp
  have bytes: "file_byte ?v (D i) j = ?C i ! j" if "i \<le> 1 + length args" "j < length (?C i)" for i j
  proof -
    have "j < nblk (length (?C i)) * 512" using that(2) nblk_bounds(3) [of "length (?C i)"] by linarith
    then show ?thesis using layD(7) [OF L i2 [OF that(1)]] that(2) by (simp add: holds_def)
  qed
  have use: "used ?v mkfs_sb b \<longleftrightarrow> b < need ?C" if b: "b < FSSIZE" for b
  proof (cases "b < 4096")
    case True
    then have "BBLOCK (of_nat b) mkfs_sb = 58" using BBLOCK_ok [OF b] by (simp add: word_unat_eq_iff)
    then show ?thesis using True bm(1) by (simp add: used_def bitmap_buf_bit)
  next
    case False
    then have "1 \<le> b div 4096" "b div 4096 < 10" using b by auto
    then have "?v (BBLOCK (of_nat b) mkfs_sb) = (\<lambda>_. 0)" using BBLOCK_ok [OF b] by (intro bm(2)) simp_all
    then show ?thesis using False small by (simp add: used_def block_bit_iff)
  qed
  have own: "own (file_block ?v (D i) bn) = Some (i, bn)" if "i \<le> 1 + length args" "bn < nblk (length (?C i))" for i bn
    by (rule shapeD(1) [OF layD(6) [OF L i2 [OF that(1)]] that(2)])
  have names: "get_dirent (\<lambda>j. file_byte ?v (D 1) (16 * (k + 2) + j)) = entry_of (k + 2) (skip_mark (args ! k))" if k: "k < length args" for k
  proof (rule get_mk_dirent)
    fix j :: nat assume j: "j < 16"
    have "?C 1 ! (16 * (k + 2) + j) = dir_entries 2 args ! (16 * k + j)" by (simp add: fs_image_def nth_append)
    moreover have "16 * (k + 2) + j < length (?C 1)" using k j by (simp add: fs_image_def)
    ultimately show "file_byte ?v (D 1) (16 * (k + 2) + j) = mk_dirent (of_nat (k + 2)) (skip_mark (args ! k)) ! j"
      using nth_dir_entries [OF k j, of 2] bytes [of 1] by (simp add: add.commute)
  qed (use k n in simp)
  show ?thesis
    unfolding image_ok_def Let_def
  proof (intro conjI allI impI)
    show "get_superblock (?v 1) = mkfs_sb" by (simp add: sb get_put_superblock)
    show "get32 (?v (sb_logstart mkfs_sb)) 0 = 0" by (simp add: mkfs_sb_def lg get32_def join32_def)
    show "used ?v mkfs_sb b \<longleftrightarrow> b < need ?C" if "b < FSSIZE" for b using that by (rule use)
    fix i assume i: "1 \<le> i" "i \<le> 1 + length args"
    show "mnode u i = dnode i (d_addrs (mnode u i)) (if i = 1 then (length (?C i) div 512 + 1) * 512 else length (?C i))"
      unfolding A [OF i] by (rule ino [OF i])
    show "blocks_ok ?v (d_addrs (mnode u i)) (of_nat (need ?C)) (nblk (length (?C i)))"
      using blocks_ok_shape [OF L i2 [OF i(2)]] by (simp add: A [OF i] nc)
    show "file_byte ?v (d_addrs (mnode u i)) j = ?C i ! j" if "j < length (?C i)" for j using bytes [OF i(2) that] by (simp only: A [OF i])
    fix k bn bm' assume k: "1 \<le> k" "k \<le> 1 + length args" and bn: "bn < nblk (length (?C i))" "bm' < nblk (length (?C k))"
      and eq: "file_block ?v (d_addrs (mnode u i)) bn = file_block ?v (d_addrs (mnode u k)) bm'"
    have "Some (i, bn) = Some (k, bm')"
      unfolding own [OF i(2) bn(1), symmetric] own [OF k(2) bn(2), symmetric] using eq by (simp only: A [OF i] A [OF k])
    then show "i = k" "bn = bm'" by blast+
  next
    show "d_type (mnode u i) = 0" if "1 + length args < i" "i < 200" for i using that by (rule free)
    show "get_dirent (\<lambda>j. file_byte ?v (d_addrs (mnode u 1)) (16 * (k + 2) + j)) = entry_of (k + 2) (skip_mark (args ! k))"
      if "k < length args" for k using names [OF that] A [of 1] by (simp only: le_refl le_add1)
  qed
qed

text \<open>
  C8. \<^verbatim>\<open>mkfs\<close> builds the file system the kernel mounts. When the image can be written, every argument is a readable file that fits
  in the direct blocks and one indirect block, its name has no slash, there are inodes for all of them and they fit in the blocks of
  the first bitmap block, then \<^verbatim>\<open>main\<close> runs to its end, however \<^verbatim>\<open>read\<close> splits the files. The kernel's reading of the image then
  gives the superblock, an empty log, a bitmap that marks exactly the blocks in use, for the root directory and every file its inode
  and, byte by byte, its contents, in allocated blocks that no two files share, free inodes after them, and for every argument the
  directory entry with its inode and its name without the leading underscore.\<close>

theorem mkfs_builds_image:
  assumes img: "h_image h img" and w: "\<forall>k < FSSIZE. h_write h k" and args: "\<forall>arg \<in> set args. arg_ok h arg"
    and n: "length args \<le> NINODES - 2" and small: "need (fs_image h args) < BPB"
  shows "\<exists>s. mkfs_main h (prog # img # args) = Inr s \<and> image_ok h args s"
proof -
  have n': "length args \<le> 198" using n by simp
  from main_runs [OF img w args n' small] obtain s own D t where T: "tree s own D (fs_image h args) (2 + length args)"
    and t: "fix_root 1 s = Inr t" "mkfs_main h (prog # img # args) = mkfs_balloc (sint (m_freeblock t)) t" by blast
  from finish_ok [OF T _ small] t(1) obtain u where
    u: "mkfs_balloc (sint (m_freeblock t)) t = Inr u" "lay u own D (\<lambda>i. nblk (length (fs_image h args i))) (fs_image h args)"
      "\<forall>b. unat b \<notin> {32..58} \<longrightarrow> mblk u b = mblk s b" "mblk u 58 = bitmap_buf (need (fs_image h args))"
      "\<forall>j < 208. mnode u j = (if j = 1 then dnode 1 (D 1) ((length (fs_image h args 1) div 512 + 1) * 512) else mnode s j)" by auto
  have b: "mblk u b = (if b = 1 then put_superblock mkfs_sb else (\<lambda>_. 0))" if "unat b < 68" "unat b \<notin> {32..58}" for b
  proof -
    have "unat b \<notin> {32..<58}" using that(2) by auto
    then show ?thesis using u(3) treeD(5) [OF T that(1)] that(2) by presburger
  qed
  have "image_ok h args u"
  proof (rule image_okI [OF u(2) _ _ u(4) _ small n'])
    show "mblk u 1 = put_superblock mkfs_sb" "mblk u 2 = (\<lambda>_. 0)" using b [of 1] b [of 2] by simp_all
    show "mblk u c = (\<lambda>_. 0)" if "58 < unat c" "unat c < 68" for c using b [OF that(2)] that by auto
    show "mnode u i = dnode i (D i) (if i = 1 then (length (fs_image h args i) div 512 + 1) * 512 else length (fs_image h args i))"
      if "1 \<le> i" "i \<le> 1 + length args" for i using u(5) n' treeD(6) [OF T, of i] that by auto
    show "d_type (mnode u i) = 0" if "1 + length args < i" "i < 200" for i using u(5) treeD(7) [OF T, of i] that by simp
  qed
  then show ?thesis using t(2) u(1) by auto
qed

definition small_host :: mkhost where
  "small_host = \<lparr>h_image = (\<lambda>_. True), h_write = (\<lambda>_. True), h_open = (\<lambda>_. Some [[104], [105, 10]])\<rparr>"

theorem mkfs_builds_image_witness:
  "\<exists>s. mkfs_main small_host [chars_of ''mkfs'', chars_of ''fs.img'', chars_of ''_cat''] = Inr s \<and> image_ok small_host [chars_of ''_cat''] s"
proof (rule mkfs_builds_image)
  have "length (fs_image small_host [chars_of ''_cat''] k) \<le> 48" for k
    by (simp add: fs_image_def small_host_def)
  then have "cost (nblk (length (fs_image small_host [chars_of ''_cat''] k))) \<le> cost (nblk 48)" for k by (intro cost_mono nblk_mono)
  then have "(\<Sum>k < 208. cost (nblk (length (fs_image small_host [chars_of ''_cat''] k)))) \<le> of_nat (card {..<208 :: nat}) * cost (nblk 48)"
    by (intro sum_bounded_above)
  then show "need (fs_image small_host [chars_of ''_cat'']) < BPB" by (simp add: need_def cost_def nblk_def)
qed (simp_all add: small_host_def arg_ok_def chars_of_def)

text \<open>
  A file longer than its direct blocks and one indirect block passes the assertion, which compares with the kernel's limit of
  \<^verbatim>\<open>MAXFILE\<close> blocks, and \<^verbatim>\<open>iappend\<close> goes past the end of the array \<^verbatim>\<open>indirect\<close>.\<close>

lemma iappend_overruns:
  assumes T: "tree s own D C m" and i: "0 < i" "i < m" and len: "length (C i) = (NDIRECT + NINDIRECT) * BSIZE" and p: "p \<noteq> []"
  shows "iappend (of_nat i) p s = Inl Overrun"
proof -
  have i2: "i < 208" using i treeD(4) [OF T] by simp
  note L = treeD(1) [OF T]
  have "nblk (length (C i)) = 138" unfolding len by (simp add: nblk_def)
  then have "own (D i ! 10) = Some (i, 138)" using layD(6) [OF L i2] by (simp add: shape_def)
  then have a: "D i ! 10 \<noteq> 0" "unat (D i ! 10) < FSSIZE" using layD(3) [OF L] layD(4) [OF L, of "D i ! 10"] by auto
  define din where "din = dnode i (D i) (length (C i))"
  have d: "d_addrs din = D i" "d_size din = 70656" by (simp_all add: din_def dnode_def len)
  have f: "(70656 :: uint) div 512 = 138" by (simp add: word_unat_eq_iff unat_div)
  have "append_block 138 din s = Inl Overrun"
    using a rsect_ok [OF treeD(8) [OF T] a(2)] d by (simp add: append_block_def fill_slot_def)
  then have "append_loop din (d_size din) p s = Inl Overrun" using p d(2) f by (simp add: append_loop.simps)
  moreover have "rinode (of_nat i) s = Inr din" using rinode_ok [OF treeD(8) [OF T] i2] treeD(6) [OF T i(2,1)] by (simp add: din_def)
  ultimately show ?thesis by (simp add: iappend_def)
qed

end
