(* ===== verification/Spec2Isabelle.thy ===== *)
theory Spec2Isabelle
  imports Mlfq_Ring Stride_Fair Vm_Map Ide_Queue Log_Reserve Pipe_Fifo Console_Line Proc_Exit Syscall_Safe Fs_Inode Grep Sh_Print Sh_Run Malloc_Safe Mkfs_Image
begin

text \<open>
  A verification library for the operating system in \<^verbatim>\<open>src/xv6-public\<close>: an xv6 for the 32-bit x86 with a stride and
  feedback scheduler, kernel threads, a file system with triple-indirect blocks and positional reads and writes, and for
  the user programs and the image builder that come with it.

  \<^bold>\<open>How the program is modelled.\<close> A kernel function is a function on an explicit state with three outcomes
  (\<^verbatim>\<open>Xv6_Prelude\<close>): it returns, it gives up the CPU inside \<^verbatim>\<open>sleep\<close>, or it panics. Every early return, every
  \<^verbatim>\<open>panic\<close> and every \<^verbatim>\<open>sleep\<close> of the source is a branch of the model. A function that sleeps in a loop is cut
  there: \<open>f\<close> runs up to the sleep and \<open>f_wake\<close> goes on when the process has been woken and scheduled. The state is a chain of
  records, one for each component, so that a function of a lower layer is a function on every state above it: held locks
  and memory, page allocator, process table, scheduler, sleep locks, buffer cache, log, inodes, files and pipes, threads,
  console. Words are 32-bit machine words and wrap; a C \<^verbatim>\<open>int\<close> that can overflow is wrapped by \<open>wrap_int\<close>. Memory is a
  function from 32-bit addresses to bytes, and page tables, kernel stacks, trap frames, disk blocks and directory entries are
  read from and written to bytes. Code that runs under a lock is atomic; that this is sound is the subject of \<^verbatim>\<open>Spinlock\<close>, where
  several CPUs interleave at the grain of the atomic instructions, each in the code of at most one lock at a time; interleavings with
  nested locks are not covered.

  \<^bold>\<open>Theories, in the order of the layers.\<close>

  \<^item> \<^verbatim>\<open>Xv6_Prelude\<close>: machine integers, outcomes and their combinators, a small calculus of postconditions, lemmas on lists and words.
  \<^item> \<^verbatim>\<open>Mem_String\<close>: \<^verbatim>\<open>string.c\<close> on byte memory; \<^verbatim>\<open>memset\<close> fills and \<^verbatim>\<open>memmove\<close> moves, overlaps included. \<^verbatim>\<open>Mmu\<close>: the macros of \<^verbatim>\<open>mmu.h\<close>.
  \<^item> \<^verbatim>\<open>Spinlock\<close>: \<^verbatim>\<open>spinlock.c\<close>; mutual exclusion in every interleaving, and the refinement to the set of held locks that the other
    theories use.
  \<^item> \<^verbatim>\<open>Kalloc\<close>: \<^verbatim>\<open>kalloc.c\<close>, the free list threaded through the pages; a locale states the contract of a page allocator and is interpreted on it.
  \<^item> \<^verbatim>\<open>Proc\<close>: the process table, \<^verbatim>\<open>allocproc\<close>, \<^verbatim>\<open>sleep\<close>, \<^verbatim>\<open>wakeup\<close>, \<^verbatim>\<open>kill\<close> of \<^verbatim>\<open>proc.c\<close>; a sleeping process becomes runnable exactly by a wakeup of its channel or a kill. \<^verbatim>\<open>Sched\<close>: the scheduler, its stride table and its feedback
    queues. \<^verbatim>\<open>Stride_Fair\<close>: the stride decisions are proportional to the shares and the accounts of the shares are kept. \<^verbatim>\<open>Mlfq_Ring\<close>:
    the rings of the feedback queues, which would be served round robin if they were filled, and that no level is ever non-empty in the code as it is.
  \<^item> \<^verbatim>\<open>Vm\<close>, \<^verbatim>\<open>Vm_Map\<close>: \<^verbatim>\<open>vm.c\<close> on page tables in memory; \<^verbatim>\<open>mappages\<close> maps exactly its range.
  \<^item> \<^verbatim>\<open>Sleeplock\<close>: \<^verbatim>\<open>sleeplock.c\<close> and the handover to a waiting process.
  \<^item> \<^verbatim>\<open>Disk_Layout\<close>: the structures of \<^verbatim>\<open>fs.h\<close> as bytes, with round trips. \<^verbatim>\<open>Bio\<close>: \<^verbatim>\<open>bio.c\<close> over the memory disk of \<^verbatim>\<open>memide.c\<close>. \<^verbatim>\<open>Ide\<close>, \<^verbatim>\<open>Ide_Queue\<close>: the
    interrupt-driven \<^verbatim>\<open>ide.c\<close> and its equivalence with \<^verbatim>\<open>memide.c\<close>.
  \<^item> \<^verbatim>\<open>Log\<close>: \<^verbatim>\<open>log.c\<close>, with the history of the disk; commit is atomic and durable at every point of a crash. \<^verbatim>\<open>Log_Reserve\<close>: runs of many file system calls; the
    reservation of \<^verbatim>\<open>begin_op\<close> keeps the log from overflowing.
  \<^item> \<^verbatim>\<open>Fs\<close>: every function of \<^verbatim>\<open>fs.c\<close>. \<^verbatim>\<open>Fs_Data\<close>, \<^verbatim>\<open>Fs_Write\<close>, \<^verbatim>\<open>Fs_Alloc\<close>: a file as a sequence of bytes through the indirect tables, reads, writes
    inside a transaction, allocation of blocks and the inode cache. \<^verbatim>\<open>Fs_Inode\<close>: what \<^verbatim>\<open>iupdate\<close> writes is what \<^verbatim>\<open>ilock\<close> reads.
  \<^item> \<^verbatim>\<open>File\<close>: \<^verbatim>\<open>file.c\<close> and \<^verbatim>\<open>pipe.c\<close>. \<^verbatim>\<open>Pipe_Fifo\<close>: a pipe is a queue; the contract of a byte ring is a locale, interpreted on the pipe.
  \<^item> \<^verbatim>\<open>Proc_Life\<close>: \<^verbatim>\<open>fork\<close>, \<^verbatim>\<open>exit\<close>, \<^verbatim>\<open>wait\<close> and the threads of \<^verbatim>\<open>proc.c\<close>. \<^verbatim>\<open>Proc_Exit\<close>: a parent that waits is woken and collects its child. \<^verbatim>\<open>Exec\<close>: \<^verbatim>\<open>exec.c\<close>.
  \<^item> \<^verbatim>\<open>Sysfile\<close>, \<^verbatim>\<open>Syscall\<close>: the system calls from their arguments on the user stack, the dispatch and \<^verbatim>\<open>trap.c\<close>. \<^verbatim>\<open>Syscall_Safe\<close>: arguments stay in the
    memory of the process, unknown calls fail, \<^verbatim>\<open>sleep\<close> lasts its ticks.
  \<^item> \<^verbatim>\<open>Console\<close>: \<^verbatim>\<open>console.c\<close> and \<^verbatim>\<open>kbd.c\<close>. \<^verbatim>\<open>Console_Line\<close>: the line discipline as a refinement of an abstract one, and round trips.
  \<^item> \<^verbatim>\<open>Sample_State\<close>: a state of a running system at which properties of the kernel are instantiated.
  \<^item> \<^verbatim>\<open>User_Lib\<close>, \<^verbatim>\<open>Grep\<close>, \<^verbatim>\<open>Sh\<close>, \<^verbatim>\<open>Sh_Print\<close>, \<^verbatim>\<open>Sh_Run\<close>, \<^verbatim>\<open>Malloc\<close>, \<^verbatim>\<open>Malloc_Safe\<close>: user programs. \<^verbatim>\<open>grep.c\<close> prints the lines in which a pattern, read as a language,
    occurs; the parser of \<^verbatim>\<open>sh.c\<close> returns on every line and reads back every printed command, and
    \<^verbatim>\<open>runcmd\<close> gives every process of a command the descriptors that its redirections and pipes ask for, the waiting parents included, over a host whose
    \<^verbatim>\<open>open\<close>, \<^verbatim>\<open>pipe\<close>, \<^verbatim>\<open>fork\<close> and \<^verbatim>\<open>exec\<close> may fail at any place; \<^verbatim>\<open>umalloc.c\<close> keeps the contract of an
    allocator, a locale interpreted on it.
  \<^item> \<^verbatim>\<open>Mkfs\<close>, \<^verbatim>\<open>Mkfs_Image\<close>: the host program \<^verbatim>\<open>mkfs.c\<close>, over a host whose \<^verbatim>\<open>open\<close>, \<^verbatim>\<open>read\<close> and \<^verbatim>\<open>write\<close> are a parameter. The image it builds is
    read back with the kernel's definitions: superblock, log, bitmap, inodes, file contents and directory entries.

  \<^bold>\<open>Loops, bounds and fuel.\<close> Loops over arrays are folds over index lists; loops that count are recursive functions with a
  termination proof; \<^verbatim>\<open>forK\<close> runs a body over a list and stops at a sleep or a panic. Two searches of \<^verbatim>\<open>umalloc.c\<close> follow pointers and
  are partial functions; that they return on a well-formed list is part of the theorems. The parser of \<^verbatim>\<open>sh.c\<close> has fuel
  \<open>4 * length + 4\<close>, which \<open>parsers_good\<close> shows to be enough; it is the only fuel. Where a theorem needs a bound it is a hypothesis that the source guarantees: blocks inside the disk, room in the log for
  the blocks a call touches, file sizes below the largest file.

  \<^bold>\<open>What the theorems found.\<close> Lemmas named in the theories show where the code departs from its intention: the feedback queues never hold a
  process, a second call of \<^verbatim>\<open>set_cpu_share\<close> is counted twice, a refused one may be
  reported as granted, a negative share panics, a share near 2^31 is granted, a share of zero traps, the stride path wraps, \<^verbatim>\<open>kill(0)\<close> marks a free
  slot, a third file system call may exceed the log, \<^verbatim>\<open>sleep\<close> of a negative number sleeps for 2^32 ticks, \<^verbatim>\<open>grep\<close> loses a line that arrives
  in two reads, \<^verbatim>\<open>malloc\<close> of almost 4 gigabytes returns an empty block, and \<^verbatim>\<open>mkfs\<close> leaves
  its array of block numbers on a file of more than 138 blocks.

  \<^bold>\<open>Not modelled.\<close> The assembly files and the code that only drives hardware or fills processor tables: \<^verbatim>\<open>bootasm.S\<close>,
  \<^verbatim>\<open>bootmain.c\<close>, \<^verbatim>\<open>entry.S\<close>, \<^verbatim>\<open>entryother.S\<close>, \<^verbatim>\<open>swtch.S\<close>, \<^verbatim>\<open>trapasm.S\<close>, \<^verbatim>\<open>main.c\<close>, \<^verbatim>\<open>mp.c\<close>, \<^verbatim>\<open>lapic.c\<close>, \<^verbatim>\<open>ioapic.c\<close>, \<^verbatim>\<open>picirq.c\<close>, \<^verbatim>\<open>uart.c\<close>, and
  \<^verbatim>\<open>seginit\<close>, \<^verbatim>\<open>tvinit\<close>, \<^verbatim>\<open>idtinit\<close>; \<^verbatim>\<open>swtch\<close> is the cut between a function and its \<open>_wake\<close> part. The test programs
  (\<^verbatim>\<open>usertests.c\<close>, \<^verbatim>\<open>threadtest.c\<close>, \<^verbatim>\<open>hugefiletest.c\<close>, \<^verbatim>\<open>pwritetest.c\<close>, \<^verbatim>\<open>test_*.c\<close>, \<^verbatim>\<open>stressfs.c\<close>, \<^verbatim>\<open>forktest.c\<close> and others) call the system and
  print; the small programs (\<^verbatim>\<open>cat.c\<close>, \<^verbatim>\<open>ls.c\<close>, \<^verbatim>\<open>wc.c\<close>, \<^verbatim>\<open>printf.c\<close> and others) mostly pass arguments to system calls that are modelled, and
  their loops that count and format are left out; the shell of
  \<^verbatim>\<open>src/proj_shell\<close> is a program for the host. Debugging output (\<^verbatim>\<open>procdump\<close>, \<^verbatim>\<open>getcallerpcs\<close>) has no effect on the state; the messages of \<^verbatim>\<open>exec.c\<close> and \<^verbatim>\<open>proc.c\<close> on the
  console, the prompt of the shell and its message of a failed \<^verbatim>\<open>chdir\<close> are left out.
\<close>

end
